(* ===== verification/Prelude.thy ===== *)
theory Prelude
  imports Main "HOL-Library.Word"
begin

unbundle bit_operations_syntax

text \<open>
  Shared vocabulary of the development: the machine types of the C++ code
  (\<open>char\<close> as a byte, \<open>size_t\<close> as a 64-bit word), the ways an operation can go wrong as
  values of the type \<open>fault\<close>, sequencing of operations that can go wrong, and generic lemmas on
  lists and words that several components share.
\<close>

named_theorems mech \<open>unfolding rules of the mechanical parts of the model (accessors, sequencing)\<close>
named_theorems inv_intro \<open>an operation keeps the invariant of its component\<close>

subsection \<open>Types\<close>

type_synonym byte = "8 word"
type_synonym size_t = "64 word"
type_synonym cint = "32 word"
type_synonym ptr = nat

text \<open>
  What ends an operation abnormally: a failed \<open>assert\<close> (the build does not define NDEBUG), the
  \<open>exit(-1)\<close> at the end of \<open>LOG_FATAL\<close>, an exception of the standard library (\<open>length_error\<close>,
  \<open>bad_function_call\<close>, \<open>system_error\<close>) or its \<open>terminate\<close>, and behaviour the C++ standard leaves undefined. The string names the place.
\<close>

datatype fault =
    AssertFail string
  | FatalExit string
  | LengthError string
  | BadFunctionCall string
  | Undefined string
  | SystemError string

text \<open>Sequencing: stop at the first fault.\<close>

definition bindE :: "fault + 'a \<Rightarrow> ('a \<Rightarrow> fault + 'b) \<Rightarrow> fault + 'b" where
  "bindE m k = (case m of Inl e \<Rightarrow> Inl e | Inr x \<Rightarrow> k x)"

definition guardE :: "bool \<Rightarrow> fault \<Rightarrow> fault + unit" where
  "guardE b e = (if b then Inr () else Inl e)"

definition returns :: "fault + 'a \<Rightarrow> bool" where
  "returns m = (case m of Inl _ \<Rightarrow> False | Inr _ \<Rightarrow> True)"

lemma bindE_simps [simp, mech]:
  "bindE (Inl e) k = Inl e"
  "bindE (Inr x) k = k x"
  by (simp_all add: bindE_def)

lemma guardE_simps [simp, mech]:
  "guardE True e = Inr ()"
  "guardE False e = Inl e"
  by (simp_all add: guardE_def)

lemma returns_simps [simp, mech]:
  "returns (Inl e) = False"
  "returns (Inr x) = True"
  by (simp_all add: returns_def)

lemma bindE_eq_Inr: "(bindE m k = Inr y) = (\<exists>x. m = Inr x \<and> k x = Inr y)"
  by (cases m) auto

lemma bindE_eq_Inl: "(bindE m k = Inl e) = (m = Inl e \<or> (\<exists>x. m = Inr x \<and> k x = Inl e))"
  by (cases m) auto

lemma guardE_eq_Inr: "(guardE b e = Inr u) = b"
  by (cases b) simp_all

lemma bindE_assoc: "bindE (bindE m k) l = bindE m (\<lambda>x. bindE (k x) l)"
  by (cases m) simp_all

lemma bindE_return: "bindE m Inr = m"
  by (cases m) simp_all

lemma bindE_cong [fundef_cong]:
  "m = m' \<Longrightarrow> (\<And>x. m' = Inr x \<Longrightarrow> k x = k' x) \<Longrightarrow> bindE m k = bindE m' k'"
  by (cases m') auto

lemma returns_iff: "returns m = (\<exists>x. m = Inr x)"
  by (cases m) auto

subsection \<open>Lists\<close>

lemma take_drop_append: "take n (drop m xs) @ drop (m + n) xs = drop m xs"
  by (metis add.commute append_take_drop_id drop_drop)

lemma take_overwrite:
  "i + length ys \<le> length xs \<Longrightarrow>
    length (take i xs @ ys @ drop (i + length ys) xs) = length xs"
  by simp

lemma take_of_overwrite:
  "j \<le> i \<Longrightarrow> i \<le> length xs \<Longrightarrow> take j (take i xs @ zs) = take j xs"
  by (simp add: min_def)

lemma take_drop_swap_le: "take n (drop m xs) = drop m (take (m + n) xs)"
  by (simp add: take_drop add.commute)

subsection \<open>Words\<close>

lemma unat_of_nat_size:
  "n < 2 ^ 64 \<Longrightarrow> unat (of_nat n :: size_t) = n"
  by (simp add: unat_of_nat take_bit_nat_eq_self)

lemma unat_diff_size: "(a :: size_t) \<le> b \<Longrightarrow> unat (b - a) = unat b - unat a"
  by (rule unat_sub)

lemma unat_add_size:
  "unat (a :: size_t) + unat b < 2 ^ 64 \<Longrightarrow> unat (a + b) = unat a + unat b"
  by (simp add: unat_word_ariths take_bit_nat_eq_self)

lemma unat_lt_size: "unat (a :: size_t) < 2 ^ 64"
  using unsigned_less [of a] by simp

lemmas size_arith = unat_of_nat_size unat_diff_size unat_add_size
  word_less_nat_alt word_le_nat_alt

end
