(* ===== verification/Posix.thy ===== *)
theory Posix
  imports Prelude
begin

text \<open>
  The operating-system interface the code uses. System calls are not code of this repository:
  every operation that makes one takes a record \<open>os\<close> of functions as an argument and never
  fixes what they return. The locale \<open>posix_io\<close> states what the manual pages of
  \<open>write(2)\<close> and \<open>readv(2)\<close> promise, \<open>epoll_kernel\<close> what \<open>epoll_ctl(2)\<close> promises about the
  interest list behind an epoll descriptor; each is a hypothesis of the theorems
  that need it. \<open>os_with\<close> is a concrete system, used to show that the hypotheses can hold.
\<close>

datatype errno =
    EAGAIN | ECONNABORTED | EINTR | EPROTO | EPERM | EMFILE
  | EBADF | EFAULT | EINVAL | ENFILE | ENOBUFS | ENOMEM | ENOTSOCK | EOPNOTSUPP
  | EPIPE | ECONNRESET | EEXIST | ENOENT | OtherErrno nat

text \<open>On Linux \<open>EWOULDBLOCK\<close> and \<open>EAGAIN\<close> are the same number.\<close>

abbreviation EWOULDBLOCK :: errno where
  "EWOULDBLOCK \<equiv> EAGAIN"

text \<open>Event masks of \<open>sys/epoll.h\<close>.\<close>

definition EPOLLIN :: cint where "EPOLLIN = 1"
definition EPOLLPRI :: cint where "EPOLLPRI = 2"
definition EPOLLOUT :: cint where "EPOLLOUT = 4"
definition EPOLLERR :: cint where "EPOLLERR = 8"
definition EPOLLHUP :: cint where "EPOLLHUP = 16"

lemmas epoll_masks = EPOLLIN_def EPOLLPRI_def EPOLLOUT_def EPOLLERR_def EPOLLHUP_def

datatype epoll_op = EPOLL_CTL_ADD | EPOLL_CTL_MOD | EPOLL_CTL_DEL

text \<open>\<open>struct epoll_event\<close>: the event mask and the user pointer (a \<open>Channel*\<close>).\<close>

record epoll_event =
  ev_events :: cint
  ev_ptr :: ptr

type_synonym interest = "int \<Rightarrow> epoll_event option"

text \<open>
  \<^item> \<open>sys_write fd bs = (n, e)\<close>: \<open>n\<close> is the result of \<open>write\<close>, \<open>e\<close> is \<open>errno\<close> when \<open>n < 0\<close>;
  \<^item> \<open>sys_readv fd caps = (n, e, bs)\<close>: \<open>caps\<close> are the lengths of the blocks, \<open>bs\<close> the bytes
    stored into them in order;
  \<^item> \<open>sys_epoll_ctl k op fd ev\<close>: the error, or the new interest list;
  \<^item> \<open>sys_evwrite c = (n, c')\<close> and \<open>sys_evread c = (n, c')\<close>: the result of writing the value 1 to, and
    of reading 8 bytes from, a non-blocking \<open>eventfd\<close> whose counter is \<open>c\<close>, and its new counter;
  \<^item> \<open>sys_now\<close>: the time \<open>gettimeofday\<close> reports, in microseconds;
  \<^item> \<open>sys_shutdown fd\<close>: the result of \<open>shutdown(fd, SHUT_WR)\<close>;
  \<^item> \<open>sys_epoll_wait k maxevents timeout = (n, e, evs)\<close>: the number of ready events, or the error,
    and the events stored into the caller's array.
\<close>

record os =
  sys_write :: "int \<Rightarrow> byte list \<Rightarrow> int \<times> errno"
  sys_readv :: "int \<Rightarrow> nat list \<Rightarrow> int \<times> errno \<times> byte list"
  sys_epoll_ctl :: "interest \<Rightarrow> epoll_op \<Rightarrow> int \<Rightarrow> epoll_event \<Rightarrow> errno + interest"
  sys_evwrite :: "nat \<Rightarrow> int \<times> nat"
  sys_evread :: "nat \<Rightarrow> int \<times> nat"
  sys_now :: int
  sys_shutdown :: "int \<Rightarrow> int"
  sys_epoll_wait :: "interest \<Rightarrow> int \<Rightarrow> int \<Rightarrow> int \<times> errno \<times> epoll_event list"

locale posix_io =
  fixes sys :: os
  assumes write_le: "sys_write sys fd bs = (n, e) \<Longrightarrow> n \<le> int (length bs)"
    and write_ge: "sys_write sys fd bs = (n, e) \<Longrightarrow> - 1 \<le> n"
    and readv_ge: "sys_readv sys fd caps = (n, e, bs) \<Longrightarrow> - 1 \<le> n"
    and readv_le: "sys_readv sys fd caps = (n, e, bs) \<Longrightarrow> n \<le> int (sum_list caps)"
    and readv_len: "sys_readv sys fd caps = (n, e, bs) \<Longrightarrow> length bs = nat n"

locale epoll_kernel =
  fixes sys :: os
  assumes ctl_add: "k fd = None \<Longrightarrow> sys_epoll_ctl sys k EPOLL_CTL_ADD fd ev = Inr (k(fd \<mapsto> ev))"
    and ctl_add_exists: "k fd \<noteq> None \<Longrightarrow> sys_epoll_ctl sys k EPOLL_CTL_ADD fd ev = Inl EEXIST"
    and ctl_mod: "k fd \<noteq> None \<Longrightarrow> sys_epoll_ctl sys k EPOLL_CTL_MOD fd ev = Inr (k(fd \<mapsto> ev))"
    and ctl_mod_absent: "k fd = None \<Longrightarrow> sys_epoll_ctl sys k EPOLL_CTL_MOD fd ev = Inl ENOENT"
    and ctl_del: "k fd \<noteq> None \<Longrightarrow> sys_epoll_ctl sys k EPOLL_CTL_DEL fd ev = Inr (k(fd := None))"
    and ctl_del_absent: "k fd = None \<Longrightarrow> sys_epoll_ctl sys k EPOLL_CTL_DEL fd ev = Inl ENOENT"
    and wait_ge: "sys_epoll_wait sys k m t = (n, e, evs) \<Longrightarrow> - 1 \<le> n"
    and wait_le: "0 < m \<Longrightarrow> sys_epoll_wait sys k m t = (n, e, evs) \<Longrightarrow> n \<le> m"
    and wait_len: "sys_epoll_wait sys k m t = (n, e, evs) \<Longrightarrow> length evs = nat n"
    and wait_reg: "sys_epoll_wait sys k m t = (n, e, evs) \<Longrightarrow> ev \<in> set evs \<Longrightarrow>
      \<exists>fd r. k fd = Some r \<and> ev_ptr ev = ev_ptr r \<and>
        ev_events ev AND NOT (ev_events r OR EPOLLERR OR EPOLLHUP) = 0"

text \<open>
  \<open>eventfd(2)\<close>: a write adds to the counter, or fails when the counter is at its maximum, so the
  counter is positive afterwards in either case; a read resets a positive counter, and
  fails on zero.
\<close>

locale eventfd_kernel =
  fixes sys :: os
  assumes evwrite_pos: "sys_evwrite sys c = (n, c') \<Longrightarrow> 0 < c'"
    and evwrite_fail: "sys_evwrite sys c = (n, c') \<Longrightarrow> n = 8 \<or> c' = c"
    and evread_pos: "0 < c \<Longrightarrow> sys_evread sys c = (8, 0)"
    and evread_zero: "sys_evread sys 0 = (n, c') \<Longrightarrow> c' = 0"

subsection \<open>A concrete system\<close>

text \<open>The interest list exactly as \<open>epoll_ctl(2)\<close> documents it.\<close>

definition epoll_man :: "interest \<Rightarrow> epoll_op \<Rightarrow> int \<Rightarrow> epoll_event \<Rightarrow> errno + interest" where
  "epoll_man k op fd ev =
     (case op of
        EPOLL_CTL_ADD \<Rightarrow> (if k fd = None then Inr (k(fd \<mapsto> ev)) else Inl EEXIST)
      | EPOLL_CTL_MOD \<Rightarrow> (if k fd = None then Inl ENOENT else Inr (k(fd \<mapsto> ev)))
      | EPOLL_CTL_DEL \<Rightarrow> (if k fd = None then Inl ENOENT else Inr (k(fd := None))))"

text \<open>
  A system whose sockets accept at most \<open>cap\<close> bytes per call and deliver the bytes \<open>inp\<close>, and on
  which the descriptors of \<open>ready\<close> have the given events pending.
\<close>

definition wait_ready :: "(int \<times> cint) list \<Rightarrow> interest \<Rightarrow> epoll_event list" where
  "wait_ready ready k = List.map_filter (\<lambda>(fd, x). map_option
     (\<lambda>r. \<lparr>ev_events = x AND (ev_events r OR EPOLLERR OR EPOLLHUP), ev_ptr = ev_ptr r\<rparr>) (k fd)) ready"

definition os_with :: "nat \<Rightarrow> byte list \<Rightarrow> (int \<times> cint) list \<Rightarrow> os" where
  "os_with cap inp ready =
     \<lparr>sys_write = (\<lambda>fd bs. (int (min cap (length bs)), EAGAIN)),
      sys_readv = (\<lambda>fd caps. let bs = take (sum_list caps) inp in (int (length bs), EAGAIN, bs)),
      sys_epoll_ctl = epoll_man,
      sys_evwrite = (\<lambda>c. if c < 2 ^ 64 - 2 then (8, c + 1) else (- 1, c)),
      sys_evread = (\<lambda>c. if 0 < c then (8, 0) else (- 1, 0)),
      sys_now = 0,
      sys_shutdown = (\<lambda>fd. 0),
      sys_epoll_wait = (\<lambda>k m t. let evs = take (nat m) (wait_ready ready k)
                                in (int (length evs), EAGAIN, evs))\<rparr>"

interpretation os_with_io: posix_io "os_with cap inp ready" for cap inp ready
  by unfold_locales (auto simp: os_with_def Let_def)

lemma mask_and_not: "((x :: cint) AND y) AND NOT y = 0"
  by (rule bit_word_eqI) (simp add: bit_and_iff bit_not_iff)

lemma wait_ready_reg:
  assumes "ev \<in> set (wait_ready ready k)"
  shows "\<exists>fd r. k fd = Some r \<and> ev_ptr ev = ev_ptr r \<and>
           ev_events ev AND NOT (ev_events r OR EPOLLERR OR EPOLLHUP) = 0"
proof -
  from assms obtain fd x r where "k fd = Some r"
      "ev = \<lparr>ev_events = x AND (ev_events r OR EPOLLERR OR EPOLLHUP), ev_ptr = ev_ptr r\<rparr>"
    by (auto simp: wait_ready_def List.map_filter_def)
  then show ?thesis
    by (intro exI [of _ fd] exI [of _ r]) (simp add: mask_and_not del: bit.de_Morgan_disj)
qed

interpretation os_with_epoll: epoll_kernel "os_with cap inp ready" for cap inp ready
  by unfold_locales
    (auto simp: os_with_def epoll_man_def Let_def simp del: bit.de_Morgan_disj
      dest!: in_set_takeD wait_ready_reg)

interpretation os_with_eventfd: eventfd_kernel "os_with cap inp ready" for cap inp ready
  by unfold_locales (auto simp: os_with_def split: if_splits)

end
