(* ===== verification/Channel.thy ===== *)
theory Channel
  imports Posix
begin

text \<open>
  The event channel of \<open>src/Channel.h\<close> and \<open>src/Channel.cc\<close>: one file descriptor, the events it is
  registered for, the events the poller reported, and the four callbacks. The callbacks are values
  of a type \<open>'cb\<close>; what calling one does is an argument of \<open>handleEvent\<close>.
\<close>

subsection \<open>Event masks\<close>

definition kNonEvent :: cint where
  "kNonEvent = 0"

definition kReadEvent :: cint where
  "kReadEvent = EPOLLIN OR EPOLLPRI"

definition kWriteEvent :: cint where
  "kWriteEvent = EPOLLOUT"

lemmas channel_masks = kNonEvent_def kReadEvent_def kWriteEvent_def epoll_masks

subsection \<open>The class\<close>

text \<open>
  \<open>ch_addr\<close> is the address of the object (\<open>this\<close>); \<open>ch_tie\<close> the object the weak pointer
  \<open>tie_\<close> observes.
\<close>

record 'cb channel =
  ch_addr :: ptr
  ch_loop :: ptr
  ch_fd :: int
  ch_events :: cint
  ch_revents :: cint
  ch_index :: int
  ch_tie :: "ptr option"
  ch_tied :: bool
  readCallback :: "'cb option"
  writeCallback :: "'cb option"
  closeCallback :: "'cb option"
  errorCallback :: "'cb option"

definition Channel_ctor :: "ptr \<Rightarrow> ptr \<Rightarrow> int \<Rightarrow> 'cb channel" where
  "Channel_ctor this loop fd =
     \<lparr>ch_addr = this, ch_loop = loop, ch_fd = fd, ch_events = 0, ch_revents = 0, ch_index = - 1,
      ch_tie = None, ch_tied = False, readCallback = None, writeCallback = None,
      closeCallback = None, errorCallback = None\<rparr>"

definition setReadCallback :: "'cb \<Rightarrow> 'cb channel \<Rightarrow> 'cb channel" where
  "setReadCallback cb c = c\<lparr>readCallback := Some cb\<rparr>"

definition setWriteCallback :: "'cb \<Rightarrow> 'cb channel \<Rightarrow> 'cb channel" where
  "setWriteCallback cb c = c\<lparr>writeCallback := Some cb\<rparr>"

definition setCloseCallback :: "'cb \<Rightarrow> 'cb channel \<Rightarrow> 'cb channel" where
  "setCloseCallback cb c = c\<lparr>closeCallback := Some cb\<rparr>"

definition setErrorCallback :: "'cb \<Rightarrow> 'cb channel \<Rightarrow> 'cb channel" where
  "setErrorCallback cb c = c\<lparr>errorCallback := Some cb\<rparr>"

definition tie :: "ptr \<Rightarrow> 'cb channel \<Rightarrow> 'cb channel" where
  "tie obj c = c\<lparr>ch_tie := Some obj, ch_tied := True\<rparr>"

definition set_revents :: "cint \<Rightarrow> 'cb channel \<Rightarrow> 'cb channel" where
  "set_revents revt c = c\<lparr>ch_revents := revt\<rparr>"

definition set_index :: "int \<Rightarrow> 'cb channel \<Rightarrow> 'cb channel" where
  "set_index idx c = c\<lparr>ch_index := idx\<rparr>"

definition isNonEvent :: "'cb channel \<Rightarrow> bool" where
  "isNonEvent c \<longleftrightarrow> ch_events c = kNonEvent"

definition isWriting :: "'cb channel \<Rightarrow> bool" where
  "isWriting c \<longleftrightarrow> ch_events c AND kWriteEvent \<noteq> 0"

definition isReading :: "'cb channel \<Rightarrow> bool" where
  "isReading c \<longleftrightarrow> ch_events c AND kReadEvent \<noteq> 0"

text \<open>
  \<open>handleEventWithGuard\<close> and \<open>handleEvent\<close>. The channel lives inside the state \<open>'w\<close> of the program;
  \<open>chan\<close> reads it there (again before every test, as the code reads its fields), \<open>run\<close> calls a
  callback, \<open>lock\<close> says whether \<open>tie_.lock()\<close> yields an object.
\<close>

definition call_if :: "bool \<Rightarrow> ('cb \<Rightarrow> 'w \<Rightarrow> fault + 'w) \<Rightarrow> 'cb option \<Rightarrow> 'w \<Rightarrow> fault + 'w" where
  "call_if b run cb w =
     (if b then (case cb of None \<Rightarrow> Inr w | Some f \<Rightarrow> run f w) else Inr w)"

definition handleEventWithGuard ::
    "('w \<Rightarrow> 'cb channel) \<Rightarrow> ('cb \<Rightarrow> 'w \<Rightarrow> fault + 'w) \<Rightarrow> 'w \<Rightarrow> fault + 'w" where
  "handleEventWithGuard chan run w =
     bindE (call_if (ch_revents (chan w) AND EPOLLHUP \<noteq> 0 \<and> \<not> ch_revents (chan w) AND EPOLLIN \<noteq> 0)
              run (closeCallback (chan w)) w) (\<lambda>w.
     bindE (call_if (ch_revents (chan w) AND EPOLLERR \<noteq> 0) run (errorCallback (chan w)) w) (\<lambda>w.
     bindE (call_if (ch_revents (chan w) AND (EPOLLIN OR EPOLLPRI) \<noteq> 0)
              run (readCallback (chan w)) w) (\<lambda>w.
     call_if (ch_revents (chan w) AND EPOLLOUT \<noteq> 0) run (writeCallback (chan w)) w)))"

definition handleEvent ::
    "('w \<Rightarrow> 'cb channel) \<Rightarrow> ('cb \<Rightarrow> 'w \<Rightarrow> fault + 'w) \<Rightarrow> (ptr option \<Rightarrow> 'w \<Rightarrow> bool) \<Rightarrow>
     'w \<Rightarrow> fault + 'w" where
  "handleEvent chan run lock w =
     (if ch_tied (chan w)
      then (if lock (ch_tie (chan w)) w then handleEventWithGuard chan run w else Inr w)
      else handleEventWithGuard chan run w)"

subsection \<open>Bits\<close>

lemma channel_mask_values [simp]:
  "kNonEvent = 0" "kReadEvent = 3" "kWriteEvent = 4"
  by (simp_all add: channel_masks)

lemma and_bit_iff: "(w :: cint) AND 2 ^ n \<noteq> 0 \<longleftrightarrow> bit w n"
  using and_exp_eq_0_iff_not_bit [of w n] by blast

lemma isWriting_bit: "isWriting c \<longleftrightarrow> bit (ch_events c) 2"
  using and_bit_iff [of "ch_events c" 2] by (simp add: isWriting_def)

lemma and_or_distrib: "(x :: cint) AND (a OR b) = (x AND a) OR (x AND b)"
  by (rule bit_word_eqI) (auto simp: bit_and_iff bit_or_iff)

lemma isReading_bit: "isReading c \<longleftrightarrow> bit (ch_events c) 0 \<or> bit (ch_events c) 1"
proof -
  have k: "kReadEvent = 2 ^ 0 OR 2 ^ 1" by simp
  have "isReading c \<longleftrightarrow> \<not> (ch_events c AND 2 ^ 0 = 0 \<and> ch_events c AND 2 ^ 1 = 0)"
    unfolding isReading_def k and_or_distrib or_eq_0_iff ..
  then show ?thesis using and_bit_iff [of "ch_events c" 0] and_bit_iff [of "ch_events c" 1] by blast
qed

subsection \<open>Dispatch\<close>

definition opt_list :: "bool \<Rightarrow> 'a option \<Rightarrow> 'a list" where
  "opt_list b x = (if b then (case x of None \<Rightarrow> [] | Some y \<Rightarrow> [y]) else [])"

text \<open>Which callbacks an event mask fires, by bit number, in the order they are called.\<close>

definition fired :: "'cb channel \<Rightarrow> 'cb list" where
  "fired c = (let r = ch_revents c in
     opt_list (bit r 4 \<and> \<not> bit r 0) (closeCallback c) @
     opt_list (bit r 3) (errorCallback c) @
     opt_list (bit r 0 \<or> bit r 1) (readCallback c) @
     opt_list (bit r 2) (writeCallback c))"

fun run_all :: "('cb \<Rightarrow> 'w \<Rightarrow> fault + 'w) \<Rightarrow> 'cb list \<Rightarrow> 'w \<Rightarrow> fault + 'w" where
  "run_all run [] w = Inr w"
| "run_all run (f # fs) w = bindE (run f w) (run_all run fs)"

lemma run_all_append: "run_all run (fs @ gs) w = bindE (run_all run fs w) (run_all run gs)"
  by (induction fs arbitrary: w) (auto simp: bindE_assoc intro: bindE_cong)

lemma run_all_Nil: "run_all run [] = Inr"
  by (rule ext) simp

lemma call_if_run_all: "call_if b run cb w = run_all run (opt_list b cb) w"
  by (simp add: call_if_def opt_list_def run_all_Nil bindE_return split: option.split)

lemma event_tests:
  "(r AND EPOLLHUP \<noteq> 0) = bit r 4" "(r AND EPOLLIN \<noteq> 0) = bit r 0"
  "(r AND EPOLLERR \<noteq> 0) = bit r 3" "(r AND EPOLLOUT \<noteq> 0) = bit r 2"
  "(r AND (EPOLLIN OR EPOLLPRI) \<noteq> 0) = (bit r 0 \<or> bit r 1)"
proof -
  have p: "EPOLLHUP = 2 ^ 4" "EPOLLIN = 2 ^ 0" "EPOLLERR = 2 ^ 3" "EPOLLOUT = 2 ^ 2" "EPOLLPRI = 2 ^ 1"
    by (simp_all add: epoll_masks)
  show "(r AND EPOLLHUP \<noteq> 0) = bit r 4" "(r AND EPOLLIN \<noteq> 0) = bit r 0"
    "(r AND EPOLLERR \<noteq> 0) = bit r 3" "(r AND EPOLLOUT \<noteq> 0) = bit r 2"
    unfolding p by (rule and_bit_iff)+
  show "(r AND (EPOLLIN OR EPOLLPRI) \<noteq> 0) = (bit r 0 \<or> bit r 1)"
    unfolding p and_or_distrib or_eq_0_iff and_bit_iff [symmetric] by blast
qed

text \<open>What \<open>handleEvent\<close> reads of the channel: the reported events and the callbacks.\<close>

definition same_dispatch :: "'cb channel \<Rightarrow> 'cb channel \<Rightarrow> bool" where
  "same_dispatch c d \<longleftrightarrow> ch_revents c = ch_revents d \<and> readCallback c = readCallback d \<and>
     writeCallback c = writeCallback d \<and> closeCallback c = closeCallback d \<and>
     errorCallback c = errorCallback d"

lemma call_if_stable:
  assumes "\<And>f w w'. run f w = Inr w' \<Longrightarrow> same_dispatch (chan w') (chan w)"
    and "call_if b run cb w = Inr w'"
  shows "same_dispatch (chan w') (chan w)"
  using assms by (auto simp: call_if_def same_dispatch_def split: if_splits option.splits)

lemma handleEventWithGuard_eq:
  assumes "\<And>f w w'. run f w = Inr w' \<Longrightarrow> same_dispatch (chan w') (chan w)"
  shows "handleEventWithGuard chan run w = run_all run (fired (chan w)) w"
proof -
  let ?c = "chan w" and ?r = "ch_revents (chan w)"
  let ?l1 = "opt_list (bit ?r 4 \<and> \<not> bit ?r 0) (closeCallback ?c)"
  let ?l2 = "opt_list (bit ?r 3) (errorCallback ?c)"
  let ?l3 = "opt_list (bit ?r 0 \<or> bit ?r 1) (readCallback ?c)"
  let ?l4 = "opt_list (bit ?r 2) (writeCallback ?c)"
  have st: "same_dispatch (chan w2) (chan w1)" if "run_all run (opt_list b cb) w1 = Inr w2" for b cb w1 w2
    using call_if_stable [of run chan, OF assms] that by (simp add: call_if_run_all)
  have "handleEventWithGuard chan run w =
      bindE (run_all run ?l1 w) (\<lambda>w1. bindE (run_all run ?l2 w1) (\<lambda>w2.
      bindE (run_all run ?l3 w2) (\<lambda>w3. run_all run ?l4 w3)))"
    unfolding handleEventWithGuard_def event_tests call_if_run_all
    by (intro bindE_cong refl) (auto dest!: st simp: same_dispatch_def)
  also have "\<dots> = run_all run (fired ?c) w"
    by (simp add: fired_def Let_def run_all_append bindE_assoc cong: bindE_cong)
  finally show ?thesis .
qed

text \<open>
  C25: \<open>handleEvent\<close> calls exactly the callbacks that the reported events ask for, in
  the order close, error, read, write: close on a hang-up without readable data, error on the error
  bit, read on readable or urgent data, write on writability, each only when it is set. A tied
  channel whose owner is gone calls none. The callbacks may change the program as they like, but
  not the reported events or the callbacks of this channel.
\<close>

theorem handleEvent_dispatch:
  assumes "\<And>f w w'. run f w = Inr w' \<Longrightarrow> same_dispatch (chan w') (chan w)"
  shows "handleEvent chan run lock w =
    (if ch_tied (chan w) \<and> \<not> lock (ch_tie (chan w)) w then Inr w
     else run_all run (fired (chan w)) w)"
  using handleEventWithGuard_eq [of run chan, OF assms] by (simp add: handleEvent_def)

definition logging_channel :: "nat channel" where
  "logging_channel = (Channel_ctor 1 0 7)\<lparr>ch_revents := 26, readCallback := Some 30,
     writeCallback := Some 40, closeCallback := Some 10, errorCallback := Some 20\<rparr>"

theorem handleEvent_dispatch_witness:
  "handleEvent fst (\<lambda>f w. Inr (fst w, snd w @ [f])) (\<lambda>_ _. True) (logging_channel, [])
     = Inr (logging_channel, [10, 20, 30])"
proof -
  let ?run = "\<lambda>f w. Inr (fst w, snd w @ [f]) :: fault + nat channel \<times> nat list"
  have "\<And>f w w'. ?run f w = Inr w' \<Longrightarrow> same_dispatch (fst w') (fst w)"
    by (auto simp: same_dispatch_def)
  from handleEvent_dispatch [of ?run fst "\<lambda>_ _. True" "(logging_channel, [])", OF this]
  show ?thesis
    by (simp add: logging_channel_def Channel_ctor_def fired_def opt_list_def bit_numeral_rec)
qed

end
