(* ===== verification/EPollPoller.thy ===== *)
theory EPollPoller
  imports Channel
begin

text \<open>
  The poller of \<open>src/Poller.h\<close>, \<open>src/Poller.cc\<close>, \<open>src/EPollPoller.cc\<close> and \<open>src/DefaultPoller.cc\<close>,
  and the path by which a channel changes its registration (\<open>Channel::update\<close> and \<open>remove\<close>,
  \<open>EventLoop::updateChannel\<close> and \<open>removeChannel\<close>). The state of a poller is its own fields and the
  interest list the kernel keeps behind its epoll descriptor.
\<close>

subsection \<open>The class\<close>

definition kNew :: int where "kNew = - 1"
definition kAdded :: int where "kAdded = 1"
definition kDeleted :: int where "kDeleted = 2"

lemmas index_defs = kNew_def kAdded_def kDeleted_def

definition kInitEventListSize :: nat where
  "kInitEventListSize = 16"

record poller =
  pl_loop :: ptr
  pl_channels :: "int \<Rightarrow> ptr option"
  pl_epollfd :: int
  pl_events_size :: nat
  pl_interest :: interest

text \<open>\<open>epollfd\<close> is the result of \<open>epoll_create1\<close>, whose interest list starts empty.\<close>

definition EPollPoller_ctor :: "int \<Rightarrow> ptr \<Rightarrow> fault + poller" where
  "EPollPoller_ctor epollfd loop =
     (if epollfd < 0 then Inl (FatalExit ''EPollPoller::EPollPoller'')
      else Inr \<lparr>pl_loop = loop, pl_channels = Map.empty, pl_epollfd = epollfd,
                pl_events_size = kInitEventListSize, pl_interest = Map.empty\<rparr>)"

text \<open>
  \<open>newDefaultPoller\<close>: \<open>use_poll\<close> says that the environment variable \<open>MUDUO_USE_POLL\<close>
  is set; the null pointer is \<open>None\<close>.
\<close>

definition newDefaultPoller :: "bool \<Rightarrow> int \<Rightarrow> ptr \<Rightarrow> fault + poller option" where
  "newDefaultPoller use_poll epollfd loop =
     (if use_poll then Inr None
      else bindE (EPollPoller_ctor epollfd loop) (\<lambda>p. Inr (Some p)))"

definition hasChannel :: "'cb channel \<Rightarrow> poller \<Rightarrow> bool" where
  "hasChannel c p = (case pl_channels p (ch_fd c) of None \<Rightarrow> False | Some a \<Rightarrow> a = ch_addr c)"

definition poller_update :: "os \<Rightarrow> epoll_op \<Rightarrow> 'cb channel \<Rightarrow> poller \<Rightarrow> fault + poller" where
  "poller_update sys oper c p =
     (case sys_epoll_ctl sys (pl_interest p) oper (ch_fd c)
             \<lparr>ev_events = ch_events c, ev_ptr = ch_addr c\<rparr> of
        Inr k \<Rightarrow> Inr (p\<lparr>pl_interest := k\<rparr>)
      | Inl e \<Rightarrow> (if oper = EPOLL_CTL_DEL then Inr p else Inl (FatalExit ''epoll_ctl'')))"

definition poller_updateChannel ::
    "os \<Rightarrow> 'cb channel \<Rightarrow> poller \<Rightarrow> fault + 'cb channel \<times> poller" where
  "poller_updateChannel sys c p =
     (let index = ch_index c; fd = ch_fd c in
      if index = kNew \<or> index = kDeleted then
        bindE (if index = kNew then Inr (p\<lparr>pl_channels := (pl_channels p)(fd \<mapsto> ch_addr c)\<rparr>)
               else bindE (guardE (pl_channels p fd \<noteq> None) (AssertFail ''channels_.find(fd)''))
                      (\<lambda>_. Inr p)) (\<lambda>p1.
        let c1 = set_index kAdded c in
        bindE (poller_update sys EPOLL_CTL_ADD c1 p1) (\<lambda>p2. Inr (c1, p2)))
      else if isNonEvent c then
        bindE (poller_update sys EPOLL_CTL_DEL c p) (\<lambda>p1. Inr (set_index kDeleted c, p1))
      else
        bindE (poller_update sys EPOLL_CTL_MOD c p) (\<lambda>p1. Inr (c, p1)))"

definition poller_removeChannel ::
    "os \<Rightarrow> 'cb channel \<Rightarrow> poller \<Rightarrow> fault + 'cb channel \<times> poller" where
  "poller_removeChannel sys c p =
     (let fd = ch_fd c; index = ch_index c in
      bindE (guardE (index = kAdded \<or> index = kDeleted) (AssertFail ''removeChannel'')) (\<lambda>_.
      let p1 = p\<lparr>pl_channels := (pl_channels p)(fd := None)\<rparr> in
      bindE (if index = kAdded then poller_update sys EPOLL_CTL_DEL c p1 else Inr p1) (\<lambda>p2.
      Inr (set_index kNew c, p2))))"

text \<open>
  \<open>fillActiveChannels\<close>: for each of the first \<open>numEvents\<close> stored events, \<open>set_revents\<close> through the
  channel pointer (the argument \<open>setrev\<close> is that call on the program state) and push the pointer.
\<close>

fun fill_events ::
    "(ptr \<Rightarrow> cint \<Rightarrow> 'w \<Rightarrow> fault + 'w) \<Rightarrow> epoll_event list \<Rightarrow> ptr list \<Rightarrow> 'w \<Rightarrow>
     fault + ptr list \<times> 'w" where
  "fill_events setrev [] active w = Inr (active, w)"
| "fill_events setrev (ev # evs) active w =
     bindE (setrev (ev_ptr ev) (ev_events ev) w) (\<lambda>w'.
     fill_events setrev evs (active @ [ev_ptr ev]) w')"

definition fillActiveChannels ::
    "(ptr \<Rightarrow> cint \<Rightarrow> 'w \<Rightarrow> fault + 'w) \<Rightarrow> nat \<Rightarrow> epoll_event list \<Rightarrow> ptr list \<Rightarrow> 'w \<Rightarrow>
     fault + ptr list \<times> 'w" where
  "fillActiveChannels setrev numEvents evs active w =
     bindE (guardE (numEvents \<le> length evs) (Undefined ''events_[i]'')) (\<lambda>_.
     fill_events setrev (take numEvents evs) active w)"

text \<open>\<open>poll\<close>, from an empty list of active channels; the cast to \<open>int\<close> is written out.\<close>

definition poller_poll ::
    "os \<Rightarrow> int \<Rightarrow> (ptr \<Rightarrow> cint \<Rightarrow> 'w \<Rightarrow> fault + 'w) \<Rightarrow> poller \<Rightarrow> 'w \<Rightarrow>
     fault + ptr list \<times> poller \<times> 'w" where
  "poller_poll sys timeoutMs setrev p w =
     (let (numEvents, e, evs) =
            sys_epoll_wait sys (pl_interest p) (sint (of_nat (pl_events_size p) :: cint)) timeoutMs
      in if numEvents > 0 then
           bindE (fillActiveChannels setrev (nat numEvents) evs [] w) (\<lambda>(active, w').
           Inr (active,
                if nat numEvents = pl_events_size p
                then p\<lparr>pl_events_size := pl_events_size p * 2\<rparr> else p, w'))
         else Inr ([], p, w))"

subsection \<open>Channel to loop to poller\<close>

text \<open>\<open>this\<close> is the loop the call is made on, \<open>p\<close> its poller.\<close>

definition loop_updateChannel ::
    "os \<Rightarrow> ptr \<Rightarrow> 'cb channel \<Rightarrow> poller \<Rightarrow> fault + 'cb channel \<times> poller" where
  "loop_updateChannel sys this c p =
     bindE (guardE (ch_loop c = this) (AssertFail ''channel->ownerLoop() == this'')) (\<lambda>_.
     poller_updateChannel sys c p)"

definition loop_removeChannel ::
    "os \<Rightarrow> ptr \<Rightarrow> 'cb channel \<Rightarrow> poller \<Rightarrow> fault + 'cb channel \<times> poller" where
  "loop_removeChannel sys this c p =
     bindE (guardE (ch_loop c = this) (AssertFail ''channel->ownerLoop() == this'')) (\<lambda>_.
     poller_removeChannel sys c p)"

definition loop_hasChannel :: "ptr \<Rightarrow> 'cb channel \<Rightarrow> poller \<Rightarrow> fault + bool" where
  "loop_hasChannel this c p =
     bindE (guardE (ch_loop c = this) (AssertFail ''channel->ownerLoop() == this'')) (\<lambda>_.
     Inr (hasChannel c p))"

definition channel_update :: "os \<Rightarrow> 'cb channel \<Rightarrow> poller \<Rightarrow> fault + 'cb channel \<times> poller" where
  "channel_update sys c p = loop_updateChannel sys (ch_loop c) c p"

definition channel_remove :: "os \<Rightarrow> 'cb channel \<Rightarrow> poller \<Rightarrow> fault + 'cb channel \<times> poller" where
  "channel_remove sys c p = loop_removeChannel sys (ch_loop c) c p"

definition enableReading :: "os \<Rightarrow> 'cb channel \<Rightarrow> poller \<Rightarrow> fault + 'cb channel \<times> poller" where
  "enableReading sys c p = channel_update sys (c\<lparr>ch_events := ch_events c OR kReadEvent\<rparr>) p"

definition disableReading :: "os \<Rightarrow> 'cb channel \<Rightarrow> poller \<Rightarrow> fault + 'cb channel \<times> poller" where
  "disableReading sys c p = channel_update sys (c\<lparr>ch_events := ch_events c AND NOT kReadEvent\<rparr>) p"

definition enableWriting :: "os \<Rightarrow> 'cb channel \<Rightarrow> poller \<Rightarrow> fault + 'cb channel \<times> poller" where
  "enableWriting sys c p = channel_update sys (c\<lparr>ch_events := ch_events c OR kWriteEvent\<rparr>) p"

definition disableWriting :: "os \<Rightarrow> 'cb channel \<Rightarrow> poller \<Rightarrow> fault + 'cb channel \<times> poller" where
  "disableWriting sys c p = channel_update sys (c\<lparr>ch_events := ch_events c AND NOT kWriteEvent\<rparr>) p"

definition disableAll :: "os \<Rightarrow> 'cb channel \<Rightarrow> poller \<Rightarrow> fault + 'cb channel \<times> poller" where
  "disableAll sys c p = channel_update sys (c\<lparr>ch_events := kNonEvent\<rparr>) p"

subsection \<open>The registration invariant of one channel\<close>

text \<open>
  A channel's index, the poller's map and the kernel's interest list agree: a new channel
  is in neither, an added one is in both with the kernel pointing back at it, a deleted one
  is in the map only. \<open>chan_slot\<close> leaves open which events the kernel watches (a channel changes
  them before it calls \<open>update\<close>); \<open>chan_inv\<close> says they are the channel's.
\<close>

definition watched :: "'cb channel \<Rightarrow> epoll_event option" where
  "watched c = (if ch_index c = kAdded then Some \<lparr>ev_events = ch_events c, ev_ptr = ch_addr c\<rparr> else None)"

definition registered :: "'cb channel \<Rightarrow> ptr option" where
  "registered c = (if ch_index c = kNew then None else Some (ch_addr c))"

definition chan_slot :: "'cb channel \<Rightarrow> poller \<Rightarrow> bool" where
  "chan_slot c p \<longleftrightarrow> ch_index c \<in> {kNew, kAdded, kDeleted} \<and>
     pl_channels p (ch_fd c) = registered c \<and>
     (pl_interest p (ch_fd c) = None \<longleftrightarrow> ch_index c \<noteq> kAdded)"

definition chan_inv :: "'cb channel \<Rightarrow> poller \<Rightarrow> bool" where
  "chan_inv c p \<longleftrightarrow> ch_index c \<in> {kNew, kAdded, kDeleted} \<and>
     pl_channels p (ch_fd c) = registered c \<and> pl_interest p (ch_fd c) = watched c"

text \<open>The channel and the poller after \<open>updateChannel\<close> and \<open>removeChannel\<close>.\<close>

definition updated :: "'cb channel \<Rightarrow> 'cb channel" where
  "updated c = set_index (if ch_index c = kAdded \<and> isNonEvent c then kDeleted else kAdded) c"

definition place :: "'cb channel \<Rightarrow> poller \<Rightarrow> poller" where
  "place c p = p\<lparr>pl_channels := (pl_channels p)(ch_fd c := registered c),
                 pl_interest := (pl_interest p)(ch_fd c := watched c)\<rparr>"

lemma index_distinct [simp]:
  "kNew \<noteq> kAdded" "kAdded \<noteq> kNew" "kNew \<noteq> kDeleted" "kDeleted \<noteq> kNew"
  "kAdded \<noteq> kDeleted" "kDeleted \<noteq> kAdded"
  by (simp_all add: index_defs)

lemma chan_inv_slot: "chan_inv c p \<Longrightarrow> chan_slot c p"
  by (auto simp: chan_inv_def chan_slot_def watched_def)

lemma chan_slot_events [simp]: "chan_slot (c\<lparr>ch_events := ev\<rparr>) p = chan_slot c p"
  by (simp add: chan_slot_def registered_def)

lemma place_inv:
  "ch_index c \<in> {kNew, kAdded, kDeleted} \<Longrightarrow> chan_inv c (place c p)"
  by (simp add: chan_inv_def place_def)

lemma place_other [simp]:
  "fd \<noteq> ch_fd c \<Longrightarrow> pl_channels (place c p) fd = pl_channels p fd"
  "fd \<noteq> ch_fd c \<Longrightarrow> pl_interest (place c p) fd = pl_interest p fd"
  by (simp_all add: place_def)

lemma place_same [simp]:
  "pl_channels (place c p) (ch_fd c) = registered c"
  "pl_interest (place c p) (ch_fd c) = watched c"
  "pl_events_size (place c p) = pl_events_size p"
  "pl_loop (place c p) = pl_loop p"
  by (simp_all add: place_def)

lemma set_index_simps [simp]:
  "ch_index (set_index i c) = i" "ch_fd (set_index i c) = ch_fd c"
  "ch_addr (set_index i c) = ch_addr c" "ch_events (set_index i c) = ch_events c"
  "ch_loop (set_index i c) = ch_loop c" "ch_tie (set_index i c) = ch_tie c"
  "ch_tied (set_index i c) = ch_tied c" "ch_revents (set_index i c) = ch_revents c"
  by (simp_all add: set_index_def)

lemma updated_simps [simp]:
  "ch_fd (updated c) = ch_fd c" "ch_addr (updated c) = ch_addr c"
  "ch_events (updated c) = ch_events c" "ch_loop (updated c) = ch_loop c"
  "ch_tie (updated c) = ch_tie c" "ch_tied (updated c) = ch_tied c"
  "ch_revents (updated c) = ch_revents c"
  by (simp_all add: updated_def)

lemma updated_index: "ch_index (updated c) \<in> {kAdded, kDeleted}"
  by (simp add: updated_def)

context epoll_kernel
begin

lemma updateChannel_eq:
  assumes "chan_slot c p"
  shows "poller_updateChannel sys c p = Inr (updated c, place (updated c) p)"
proof -
  from assms have idx: "ch_index c \<in> {kNew, kAdded, kDeleted}"
    and ch: "pl_channels p (ch_fd c) = registered c"
    and int: "(pl_interest p (ch_fd c) = None) = (ch_index c \<noteq> kAdded)"
    by (simp_all add: chan_slot_def)
  consider (new) "ch_index c = kNew" | (del) "ch_index c = kDeleted" | (add) "ch_index c = kAdded"
    using idx by blast
  then show ?thesis
  proof cases
    case new
    with int ch show ?thesis
      by (simp add: poller_updateChannel_def Let_def poller_update_def ctl_add updated_def place_def
          registered_def watched_def)
  next
    case del
    with int ch show ?thesis
      by (simp add: poller_updateChannel_def Let_def poller_update_def ctl_add updated_def place_def
          registered_def watched_def fun_upd_idem)
  next
    case add
    with int have "pl_interest p (ch_fd c) \<noteq> None" by simp
    with add ch show ?thesis
      by (simp add: poller_updateChannel_def Let_def poller_update_def ctl_mod ctl_del updated_def
          place_def registered_def watched_def fun_upd_idem set_index_def)
  qed
qed

lemma removeChannel_eq:
  assumes "chan_slot c p" and "ch_index c \<noteq> kNew"
  shows "poller_removeChannel sys c p = Inr (set_index kNew c, place (set_index kNew c) p)"
proof -
  from assms have idx: "ch_index c = kAdded \<or> ch_index c = kDeleted"
    and int: "(pl_interest p (ch_fd c) = None) = (ch_index c \<noteq> kAdded)"
    by (auto simp: chan_slot_def)
  from idx int show ?thesis
    by (auto simp: poller_removeChannel_def Let_def poller_update_def ctl_del place_def
        registered_def watched_def fun_upd_idem)
qed

end

lemma removeChannel_new:
  "ch_index c \<notin> {kAdded, kDeleted} \<Longrightarrow> poller_removeChannel sys c p = Inl (AssertFail ''removeChannel'')"
  by (simp add: poller_removeChannel_def Let_def)

subsection \<open>The interface: a registry of channels\<close>

text \<open>
  What the loop and the connections rely on. Entries of a store of channels are changed one at
  a time by operations that touch the registry at the channel's own key only and keep the channel
  and the registry consistent; an operation that is not legal for the channel fails.
\<close>

fun reg_run ::
    "('o \<Rightarrow> 'c \<Rightarrow> 'p \<Rightarrow> fault + 'c \<times> 'p) \<Rightarrow> (ptr \<times> 'o) list \<Rightarrow> (ptr \<Rightarrow> 'c option) \<times> 'p \<Rightarrow>
     fault + (ptr \<Rightarrow> 'c option) \<times> 'p" where
  "reg_run step [] s = Inr s"
| "reg_run step ((a, x) # xs) (chans, p) =
     (case chans a of
        None \<Rightarrow> Inl (Undefined ''channel pointer'')
      | Some c \<Rightarrow> bindE (step x c p) (\<lambda>(c', p'). reg_run step xs (chans(a \<mapsto> c'), p')))"

definition registry_ok ::
    "('c \<Rightarrow> 'p \<Rightarrow> bool) \<Rightarrow> ('c \<Rightarrow> int) \<Rightarrow> ('p \<Rightarrow> int \<Rightarrow> 'v) \<Rightarrow> 'v \<Rightarrow>
     (ptr \<Rightarrow> 'c option) \<times> 'p \<Rightarrow> bool" where
  "registry_ok ok key view vacant = (\<lambda>(chans, p).
     (\<forall>a c. chans a = Some c \<longrightarrow> ok c p) \<and>
     (\<forall>a b c d. chans a = Some c \<longrightarrow> chans b = Some d \<longrightarrow> key c = key d \<longrightarrow> a = b) \<and>
     (\<forall>k. view p k \<noteq> vacant \<longrightarrow> (\<exists>a c. chans a = Some c \<and> key c = k)))"

locale channel_registry =
  fixes ok :: "'c \<Rightarrow> 'p \<Rightarrow> bool"
    and key :: "'c \<Rightarrow> int"
    and view :: "'p \<Rightarrow> int \<Rightarrow> 'v"
    and vacant :: 'v
    and step :: "'o \<Rightarrow> 'c \<Rightarrow> 'p \<Rightarrow> fault + 'c \<times> 'p"
    and legal :: "'o \<Rightarrow> 'c \<Rightarrow> bool"
    and refusal :: fault
  assumes step_ok: "ok c p \<Longrightarrow> legal x c \<Longrightarrow>
      \<exists>c' p'. step x c p = Inr (c', p') \<and> ok c' p' \<and> key c' = key c \<and>
        (\<forall>k. k \<noteq> key c \<longrightarrow> view p' k = view p k)"
    and step_refused: "ok c p \<Longrightarrow> \<not> legal x c \<Longrightarrow> step x c p = Inl refusal"
    and ok_local: "ok c p \<Longrightarrow> view p' (key c) = view p (key c) \<Longrightarrow> ok c p'"
begin

abbreviation all_ok where
  "all_ok \<equiv> registry_ok ok key view vacant"

lemma all_okD:
  assumes "all_ok (chans, p)"
  shows "chans a = Some c \<Longrightarrow> ok c p"
    and "chans a = Some c \<Longrightarrow> chans b = Some d \<Longrightarrow> key c = key d \<Longrightarrow> a = b"
    and "view p k \<noteq> vacant \<Longrightarrow> \<exists>a c. chans a = Some c \<and> key c = k"
  using assms by (auto simp: registry_ok_def)

lemma one_step:
  assumes inv: "all_ok (chans, p)" and a: "chans a = Some c" and "legal x c"
  shows "\<exists>c' p'. step x c p = Inr (c', p') \<and> all_ok (chans(a \<mapsto> c'), p')"
proof -
  from step_ok [OF all_okD(1) [OF inv a] assms(3)] obtain c' p' where
    s: "step x c p = Inr (c', p')" "ok c' p'" "key c' = key c"
       "\<And>k. k \<noteq> key c \<Longrightarrow> view p' k = view p k" by blast
  let ?m = "chans(a \<mapsto> c')"
  have oks: "ok d p'" if "?m b = Some d" for b d
  proof (cases "b = a")
    case True
    with that s(2) show ?thesis by simp
  next
    case False
    with that have b: "chans b = Some d" by simp
    with a False have "key d \<noteq> key c" using all_okD(2) [OF inv] by blast
    with s(4) ok_local all_okD(1) [OF inv b] show ?thesis by blast
  qed
  have keys: "b = b'" if "?m b = Some d" "?m b' = Some d'" "key d = key d'" for b b' d d'
    using that a s(3) all_okD(2) [OF inv] by (auto split: if_splits)
  have dom: "\<exists>b d. ?m b = Some d \<and> key d = k" if "view p' k \<noteq> vacant" for k
  proof (cases "k = key c")
    case True
    with s(3) show ?thesis by (intro exI [of _ a] exI [of _ c']) simp
  next
    case False
    with that s(4) obtain b d where "chans b = Some d" "key d = k"
      using all_okD(3) [OF inv] by metis
    with False a show ?thesis by (intro exI [of _ b] exI [of _ d]) auto
  qed
  have "all_ok (?m, p')" unfolding registry_ok_def using oks keys dom by blast
  with s(1) show ?thesis by blast
qed

lemma run_ok:
  assumes "all_ok s"
  shows "case reg_run step xs s of
           Inr s' \<Rightarrow> all_ok s'
         | Inl f \<Rightarrow> f = refusal \<or> f = Undefined ''channel pointer''"
  using assms
proof (induction xs arbitrary: s)
  case Nil
  then show ?case by simp
next
  case (Cons ax xs)
  obtain chans p a x where s: "s = (chans, p)" and ax: "ax = (a, x)"
    by (cases s, cases ax) auto
  show ?case
  proof (cases "chans a")
    case None
    with s ax show ?thesis by simp
  next
    case (Some c)
    show ?thesis
    proof (cases "legal x c")
      case True
      with one_step [of chans p a c x] Some Cons.prems s obtain c' p' where
        "step x c p = Inr (c', p')" "all_ok (chans(a \<mapsto> c'), p')" by blast
      with Cons.IH [of "(chans(a \<mapsto> c'), p')"] Some s ax show ?thesis by simp
    next
      case False
      with all_okD(1) [of chans p a c] Some Cons.prems s step_refused have
        "step x c p = Inl refusal" by blast
      with Some s ax show ?thesis by simp
    qed
  qed
qed

end

text \<open>The operations of a channel that reach the poller, as the client calls them.\<close>

datatype chan_op = EnableReading | DisableReading | EnableWriting | DisableWriting | DisableAll | Remove

fun chan_do :: "os \<Rightarrow> chan_op \<Rightarrow> 'cb channel \<Rightarrow> poller \<Rightarrow> fault + 'cb channel \<times> poller" where
  "chan_do sys EnableReading c p = enableReading sys c p"
| "chan_do sys DisableReading c p = disableReading sys c p"
| "chan_do sys EnableWriting c p = enableWriting sys c p"
| "chan_do sys DisableWriting c p = disableWriting sys c p"
| "chan_do sys DisableAll c p = disableAll sys c p"
| "chan_do sys Remove c p = channel_remove sys c p"

fun new_events :: "chan_op \<Rightarrow> 'cb channel \<Rightarrow> 'cb channel" where
  "new_events EnableReading c = c\<lparr>ch_events := ch_events c OR kReadEvent\<rparr>"
| "new_events DisableReading c = c\<lparr>ch_events := ch_events c AND NOT kReadEvent\<rparr>"
| "new_events EnableWriting c = c\<lparr>ch_events := ch_events c OR kWriteEvent\<rparr>"
| "new_events DisableWriting c = c\<lparr>ch_events := ch_events c AND NOT kWriteEvent\<rparr>"
| "new_events DisableAll c = c\<lparr>ch_events := kNonEvent\<rparr>"
| "new_events Remove c = c"

definition chan_after :: "chan_op \<Rightarrow> 'cb channel \<Rightarrow> 'cb channel" where
  "chan_after x c = (if x = Remove then set_index kNew c else updated (new_events x c))"

definition chan_legal :: "chan_op \<Rightarrow> 'cb channel \<Rightarrow> bool" where
  "chan_legal x c \<longleftrightarrow> (x = Remove \<longrightarrow> ch_index c \<noteq> kNew)"

lemma new_events_simps [simp]:
  "ch_fd (new_events x c) = ch_fd c" "ch_loop (new_events x c) = ch_loop c"
  "ch_addr (new_events x c) = ch_addr c" "ch_index (new_events x c) = ch_index c"
  "chan_slot (new_events x c) p = chan_slot c p"
  by (cases x; simp)+

lemma chan_after_simps [simp]:
  "ch_fd (chan_after x c) = ch_fd c" "ch_loop (chan_after x c) = ch_loop c"
  "ch_addr (chan_after x c) = ch_addr c"
  by (simp_all add: chan_after_def)

lemma chan_after_index: "ch_index (chan_after x c) \<in> {kNew, kAdded, kDeleted}"
  by (simp add: chan_after_def updated_def)

lemma chan_do_update:
  "x \<noteq> Remove \<Longrightarrow> chan_do sys x c p = poller_updateChannel sys (new_events x c) p"
  by (cases x) (simp_all add: enableReading_def disableReading_def enableWriting_def
      disableWriting_def disableAll_def channel_update_def loop_updateChannel_def)

lemma chan_do_remove: "channel_remove sys c p = poller_removeChannel sys c p"
  by (simp add: channel_remove_def loop_removeChannel_def)

context epoll_kernel
begin

lemma chan_do_eq:
  assumes "chan_slot c p" and "chan_legal x c"
  shows "chan_do sys x c p = Inr (chan_after x c, place (chan_after x c) p)"
  using assms updateChannel_eq [of "new_events x c" p] removeChannel_eq [of c p]
  by (cases "x = Remove") (simp_all add: chan_do_update chan_do_remove chan_after_def chan_legal_def)

lemma chan_do_inv:
  assumes "chan_slot c p" and "chan_legal x c"
  shows "\<exists>p'. chan_do sys x c p = Inr (chan_after x c, p') \<and> chan_inv (chan_after x c) p' \<and>
    (\<forall>fd. fd \<noteq> ch_fd c \<longrightarrow> pl_channels p' fd = pl_channels p fd \<and> pl_interest p' fd = pl_interest p fd)"
  using chan_do_eq [OF assms] place_inv [OF chan_after_index] by simp

sublocale reg: channel_registry chan_inv ch_fd "\<lambda>p fd. (pl_channels p fd, pl_interest p fd)"
    "(None, None)" "chan_do sys" chan_legal "AssertFail ''removeChannel''"
proof unfold_locales
  fix c :: "'cb channel" and p x
  assume "chan_inv c p" "chan_legal x c"
  then show "\<exists>c' p'. chan_do sys x c p = Inr (c', p') \<and> chan_inv c' p' \<and> ch_fd c' = ch_fd c \<and>
      (\<forall>k. k \<noteq> ch_fd c \<longrightarrow> (pl_channels p' k, pl_interest p' k) = (pl_channels p k, pl_interest p k))"
    using chan_do_inv [of c p x] chan_inv_slot by fastforce
next
  fix c :: "'cb channel" and p x
  assume "chan_inv c p" "\<not> chan_legal x c"
  then show "chan_do sys x c p = Inl (AssertFail ''removeChannel'')"
    by (simp add: chan_legal_def chan_do_remove removeChannel_new)
next
  fix c :: "'cb channel" and p p' :: poller
  assume "chan_inv c p"
    "(pl_channels p' (ch_fd c), pl_interest p' (ch_fd c)) = (pl_channels p (ch_fd c), pl_interest p (ch_fd c))"
  then show "chan_inv c p'" by (simp add: chan_inv_def)
qed

end

subsection \<open>A store of channels and one poller\<close>

definition poller_view :: "poller \<Rightarrow> int \<Rightarrow> ptr option \<times> epoll_event option" where
  "poller_view p fd = (pl_channels p fd, pl_interest p fd)"

definition poller_ok :: "(ptr \<Rightarrow> 'cb channel option) \<times> poller \<Rightarrow> bool" where
  "poller_ok s \<longleftrightarrow> registry_ok chan_inv ch_fd poller_view (None, None) s \<and>
     (\<forall>a c. fst s a = Some c \<longrightarrow> ch_addr c = a)"

text \<open>\<open>set_revents\<close> through a pointer into the store.\<close>

definition store_set_revents ::
    "ptr \<Rightarrow> cint \<Rightarrow> (ptr \<Rightarrow> 'cb channel option) \<Rightarrow> fault + (ptr \<Rightarrow> 'cb channel option)" where
  "store_set_revents a x chans =
     (case chans a of None \<Rightarrow> Inl (Undefined ''channel pointer'')
      | Some c \<Rightarrow> Inr (chans(a \<mapsto> set_revents x c)))"

lemma poller_view_fun: "poller_view = (\<lambda>p fd. (pl_channels p fd, pl_interest p fd))"
  by (intro ext) (simp add: poller_view_def)

lemma poller_update_frame: "poller_update sys x c p = Inr p' \<Longrightarrow> pl_channels p' = pl_channels p"
  by (auto simp: poller_update_def split: sum.splits if_splits)

lemma updateChannel_addr:
  "poller_updateChannel sys c p = Inr (c', p') \<Longrightarrow> ch_addr c' = ch_addr c"
  by (auto simp: poller_updateChannel_def Let_def bindE_eq_Inr split: if_splits)

lemma removeChannel_addr:
  "poller_removeChannel sys c p = Inr (c', p') \<Longrightarrow> ch_addr c' = ch_addr c"
  by (auto simp: poller_removeChannel_def Let_def bindE_eq_Inr)

lemma chan_do_addr: "chan_do sys x c p = Inr (c', p') \<Longrightarrow> ch_addr c' = ch_addr c"
  by (cases "x = Remove")
    (auto simp: chan_do_update chan_do_remove dest: updateChannel_addr removeChannel_addr)

lemma reg_run_addr:
  "reg_run (chan_do sys) xs s = Inr s' \<Longrightarrow> \<forall>a c. fst s a = Some c \<longrightarrow> ch_addr c = a \<Longrightarrow>
     \<forall>a c. fst s' a = Some c \<longrightarrow> ch_addr c = a"
proof (induction xs arbitrary: s)
  case Nil
  then show ?case by simp
next
  case (Cons ax xs)
  obtain chans p a x where s: "s = (chans, p)" and ax: "ax = (a, x)"
    by (cases s, cases ax) auto
  from Cons.prems(1) obtain c c' p' where
    a: "chans a = Some c" "chan_do sys x c p = Inr (c', p')"
    and run: "reg_run (chan_do sys) xs (chans(a \<mapsto> c'), p') = Inr s'"
    by (auto simp: s ax bindE_eq_Inr split: option.splits)
  have "ch_addr c' = a" using chan_do_addr [OF a(2)] a(1) Cons.prems(2) s by simp
  then have "\<forall>b d. fst (chans(a \<mapsto> c'), p') b = Some d \<longrightarrow> ch_addr d = b"
    using Cons.prems(2) s by simp
  with run show ?case by (rule Cons.IH)
qed

context epoll_kernel
begin

lemma registry_run:
  fixes s :: "(ptr \<Rightarrow> 'cb channel option) \<times> poller"
  assumes "registry_ok chan_inv ch_fd poller_view (None, None) s"
  shows "case reg_run (chan_do sys) xs s of
      Inr s' \<Rightarrow> registry_ok chan_inv ch_fd poller_view (None, None) s'
    | Inl f \<Rightarrow> f = AssertFail ''removeChannel'' \<or> f = Undefined ''channel pointer''"
  using reg.run_ok assms unfolding poller_view_fun by blast

end

text \<open>
  C16: any sequence of registration changes keeps the three views of the channels in step.
  Over a store of channels with distinct descriptors, through any sequence of enable, disable and
  remove calls, every channel's index, the poller's map and the kernel's interest list keep
  agreeing, and the kernel points only at live channels. The only ways to fail are the assertion
  of \<open>removeChannel\<close> and a call on a channel that is not there; in particular \<open>epoll_ctl\<close> never
  fails and no \<open>LOG_FATAL\<close> exit happens.
\<close>

theorem registrations_consistent:
  assumes "epoll_kernel sys" and "poller_ok s"
  shows "case reg_run (chan_do sys) xs s of
           Inr s' \<Rightarrow> poller_ok s'
         | Inl f \<Rightarrow> f = AssertFail ''removeChannel'' \<or> f = Undefined ''channel pointer''"
proof -
  have "case reg_run (chan_do sys) xs s of
      Inr s' \<Rightarrow> registry_ok chan_inv ch_fd poller_view (None, None) s'
    | Inl f \<Rightarrow> f = AssertFail ''removeChannel'' \<or> f = Undefined ''channel pointer''"
    using epoll_kernel.registry_run [OF assms(1), of s xs] assms(2) by (simp add: poller_ok_def)
  moreover have "\<forall>a c. fst s' a = Some c \<longrightarrow> ch_addr c = a"
    if "reg_run (chan_do sys) xs s = Inr s'" for s'
    by (rule reg_run_addr [OF that]) (use assms(2) in \<open>unfold poller_ok_def, blast\<close>)
  ultimately show ?thesis
    unfolding poller_ok_def by (cases "reg_run (chan_do sys) xs s") (simp_all only: sum.case, blast+)
qed

definition two_channels :: "(ptr \<Rightarrow> nat channel option) \<times> poller" where
  "two_channels =
     ([10 \<mapsto> Channel_ctor 10 1 5, 20 \<mapsto> Channel_ctor 20 1 6],
      \<lparr>pl_loop = 1, pl_channels = Map.empty, pl_epollfd = 3, pl_events_size = 16,
       pl_interest = Map.empty\<rparr>)"

lemma two_channels_ok: "poller_ok two_channels"
  by (simp add: poller_ok_def registry_ok_def two_channels_def Channel_ctor_def poller_view_def
      chan_inv_def registered_def watched_def index_defs)

theorem registrations_consistent_witness:
  "\<exists>s'. reg_run (chan_do (os_with 0 [] []))
      [(10, EnableReading), (20, EnableReading), (10, EnableWriting), (20, DisableAll), (20, Remove)]
      two_channels = Inr s' \<and> poller_ok s'"
proof -
  let ?xs = "[(10, EnableReading), (20, EnableReading), (10, EnableWriting), (20, DisableAll), (20, Remove)]"
  let ?r = "reg_run (chan_do (os_with 0 [] [])) ?xs two_channels"
  have "returns ?r"
    by (simp add: two_channels_def Channel_ctor_def index_defs os_with_def epoll_man_def
        enableReading_def enableWriting_def disableAll_def channel_remove_def channel_update_def
        loop_updateChannel_def loop_removeChannel_def poller_updateChannel_def poller_update_def
        poller_removeChannel_def isNonEvent_def set_index_def Let_def)
  then obtain s' where "?r = Inr s'" by (auto simp: returns_iff)
  with registrations_consistent [OF os_with_epoll.epoll_kernel_axioms [of 0 "[]" "[]"] two_channels_ok,
      of ?xs] show ?thesis by simp
qed

subsection \<open>Polling\<close>

text \<open>Two stores that differ at most in the reported events of their channels.\<close>

definition same_but_revents ::
    "(ptr \<Rightarrow> 'cb channel option) \<Rightarrow> (ptr \<Rightarrow> 'cb channel option) \<Rightarrow> bool" where
  "same_but_revents m m' \<longleftrightarrow> (\<forall>a. map_option (set_revents 0) (m' a) = map_option (set_revents 0) (m a))"

lemma same_but_revents_refl [simp]: "same_but_revents m m"
  by (simp add: same_but_revents_def)

lemma same_but_revents_Some:
  "same_but_revents m m' \<Longrightarrow> m' a = Some c' \<Longrightarrow> \<exists>c. m a = Some c \<and> set_revents 0 c' = set_revents 0 c"
  by (cases "m a") (auto simp: same_but_revents_def dest!: spec [of _ a])

lemma set_revents_simps [simp]:
  "ch_fd (set_revents x c) = ch_fd c" "ch_addr (set_revents x c) = ch_addr c"
  "ch_index (set_revents x c) = ch_index c" "ch_events (set_revents x c) = ch_events c"
  "ch_revents (set_revents x c) = x" "set_revents y (set_revents x c) = set_revents y c"
  by (simp_all add: set_revents_def)

lemma set_revents_0_eq:
  "set_revents 0 c' = set_revents 0 c \<Longrightarrow>
     ch_fd c' = ch_fd c \<and> ch_addr c' = ch_addr c \<and> ch_index c' = ch_index c \<and> ch_events c' = ch_events c"
  by (metis set_revents_simps(1-4))

lemma chan_inv_revents:
  "set_revents 0 c' = set_revents 0 c \<Longrightarrow> chan_inv c' p = chan_inv c p"
  by (drule set_revents_0_eq) (simp add: chan_inv_def registered_def watched_def)

lemma poller_ok_revents:
  fixes m :: "ptr \<Rightarrow> 'cb channel option"
  assumes "poller_ok (m, p)" and "same_but_revents m m'"
  shows "poller_ok (m', p\<lparr>pl_events_size := n\<rparr>)"
proof -
  have inv: "chan_inv c (p\<lparr>pl_events_size := n\<rparr>) = chan_inv c p" for c :: "'cb channel"
    by (simp add: chan_inv_def)
  have view: "poller_view (p\<lparr>pl_events_size := n\<rparr>) = poller_view p"
    by (intro ext) (simp add: poller_view_def)
  have bwd: "\<exists>c'. m' a = Some c' \<and> ch_fd c' = ch_fd c" if "m a = Some c" for a c
    using assms(2) that set_revents_0_eq
    by (force simp: same_but_revents_def dest!: spec [of _ a] split: option.splits)
  show ?thesis
    unfolding poller_ok_def registry_ok_def prod.case view inv fst_conv
  proof (intro conjI allI impI)
    fix a c' assume "m' a = Some c'"
    then obtain c where "m a = Some c" "set_revents 0 c' = set_revents 0 c"
      using same_but_revents_Some [OF assms(2)] by blast
    with assms(1) have c: "chan_inv c p" "ch_addr c = a" "set_revents 0 c' = set_revents 0 c"
      unfolding poller_ok_def registry_ok_def prod.case fst_conv by blast+
    then show "chan_inv c' p" "ch_addr c' = a"
      using chan_inv_revents set_revents_0_eq by blast+
  next
    fix a b c' d' assume "m' a = Some c'" "m' b = Some d'" "ch_fd c' = ch_fd d'"
    moreover from this obtain c d where "m a = Some c" "set_revents 0 c' = set_revents 0 c"
        "m b = Some d" "set_revents 0 d' = set_revents 0 d"
      using same_but_revents_Some [OF assms(2)] by metis
    ultimately show "a = b"
      using assms(1) set_revents_0_eq
      unfolding poller_ok_def registry_ok_def prod.case fst_conv by metis
  next
    fix k assume "poller_view p k \<noteq> (None, None)"
    with assms(1) obtain a c where "m a = Some c" "ch_fd c = k"
      unfolding poller_ok_def registry_ok_def prod.case fst_conv by blast
    with bwd show "\<exists>a c. m' a = Some c \<and> ch_fd c = k" by metis
  qed
qed

lemma fill_events_ok:
  "\<forall>ev \<in> set evs. m (ev_ptr ev) \<noteq> None \<Longrightarrow>
     \<exists>m'. fill_events store_set_revents evs act m = Inr (act @ map ev_ptr evs, m') \<and>
       same_but_revents m m' \<and>
       (\<forall>a. if a \<in> ev_ptr ` set evs
            then \<exists>ev c. ev \<in> set evs \<and> ev_ptr ev = a \<and> m' a = Some c \<and> ch_revents c = ev_events ev
            else m' a = m a)"
proof (induction evs arbitrary: act m)
  case Nil
  then show ?case by simp
next
  case (Cons ev evs)
  let ?a = "ev_ptr ev"
  obtain c where c: "m ?a = Some c" using Cons.prems by auto
  let ?m1 = "m(?a \<mapsto> set_revents (ev_events ev) c)"
  have s: "store_set_revents ?a (ev_events ev) m = Inr ?m1"
    using c by (simp add: store_set_revents_def)
  have "\<forall>ev' \<in> set evs. ?m1 (ev_ptr ev') \<noteq> None" using Cons.prems by simp
  from Cons.IH [OF this, of "act @ [?a]"] obtain m' where
    r: "fill_events store_set_revents evs (act @ [?a]) ?m1 = Inr ((act @ [?a]) @ map ev_ptr evs, m')"
    and same: "same_but_revents ?m1 m'"
    and vals: "\<And>a. if a \<in> ev_ptr ` set evs
       then \<exists>ev c. ev \<in> set evs \<and> ev_ptr ev = a \<and> m' a = Some c \<and> ch_revents c = ev_events ev
       else m' a = ?m1 a"
    by blast
  have "same_but_revents m m'" using same c by (simp add: same_but_revents_def)
  moreover have "if a \<in> ev_ptr ` set (ev # evs)
       then \<exists>ev' c. ev' \<in> set (ev # evs) \<and> ev_ptr ev' = a \<and> m' a = Some c \<and> ch_revents c = ev_events ev'
       else m' a = m a" for a
  proof (cases "a \<in> ev_ptr ` set evs")
    case True
    with vals [of a] show ?thesis by auto
  next
    case False
    with vals [of a] have "m' a = ?m1 a" by simp
    then show ?thesis using False by auto
  qed
  moreover have "fill_events store_set_revents (ev # evs) act m = Inr (act @ map ev_ptr (ev # evs), m')"
    using s r by simp
  ultimately show ?case by blast
qed

lemma sint_of_nat_cint: "n < 2 ^ 31 \<Longrightarrow> sint (of_nat n :: cint) = int n"
  by (simp add: signed_of_nat signed_take_bit_int_eq_self)

lemma interest_channel:
  assumes "poller_ok (m, p)" and "pl_interest p fd = Some r"
  shows "\<exists>c. m (ev_ptr r) = Some c \<and> ch_index c = kAdded \<and> ch_fd c = fd \<and> ev_events r = ch_events c"
proof -
  have "poller_view p fd \<noteq> (None, None)" using assms(2) by (simp add: poller_view_def)
  then obtain a c where ac: "m a = Some c" "ch_fd c = fd" "chan_inv c p" "ch_addr c = a"
    using assms(1) unfolding poller_ok_def registry_ok_def prod.case fst_conv by metis
  then have "watched c = Some r" using assms(2) by (simp add: chan_inv_def)
  with ac show ?thesis by (auto simp: watched_def split: if_splits)
qed

text \<open>The channels that an answer of \<open>epoll_wait\<close> names, after the events have been stored in them.\<close>

lemma fill_events_live:
  assumes live: "\<And>ev. ev \<in> set evs \<Longrightarrow> \<exists>c. m (ev_ptr ev) = Some c \<and> ch_index c = kAdded \<and>
      ev_events ev AND NOT (ch_events c OR EPOLLERR OR EPOLLHUP) = 0"
  shows "\<exists>m'. fill_events store_set_revents evs [] m = Inr (map ev_ptr evs, m') \<and> same_but_revents m m' \<and>
    (\<forall>a \<in> set (map ev_ptr evs). \<exists>c. m' a = Some c \<and> ch_index c = kAdded \<and>
       ch_revents c AND NOT (ch_events c OR EPOLLERR OR EPOLLHUP) = 0)"
proof -
  obtain m' where m': "fill_events store_set_revents evs [] m = Inr (map ev_ptr evs, m')" "same_but_revents m m'"
    and vals: "\<And>a. if a \<in> ev_ptr ` set evs
       then \<exists>ev c. ev \<in> set evs \<and> ev_ptr ev = a \<and> m' a = Some c \<and> ch_revents c = ev_events ev
       else m' a = m a"
    using fill_events_ok [of evs m "[]"] live by fastforce
  have "\<exists>c. m' a = Some c \<and> ch_index c = kAdded \<and> ch_revents c AND NOT (ch_events c OR EPOLLERR OR EPOLLHUP) = 0"
    if "a \<in> set (map ev_ptr evs)" for a
  proof -
    from that vals [of a] obtain ev c' where ev: "ev \<in> set evs" "ev_ptr ev = a" "m' a = Some c'"
        "ch_revents c' = ev_events ev" by auto
    from live [OF ev(1)] ev(2) obtain c where c: "m a = Some c" "ch_index c = kAdded"
        "ev_events ev AND NOT (ch_events c OR EPOLLERR OR EPOLLHUP) = 0" by blast
    from same_but_revents_Some [OF m'(2) ev(3)] c(1) have "set_revents 0 c' = set_revents 0 c"
      by simp
    from set_revents_0_eq [OF this] c ev show ?thesis by metis
  qed
  with m' show ?thesis by blast
qed

text \<open>
  C22: \<open>poll\<close> hands the loop live channels only. With the views in step, every pointer the
  kernel returns is a registered channel of the store, so nothing dangling is dereferenced; each
  active channel ends up with reported events that it asked for, or the error and
  hang-up bits; nothing else changes in the store, and the event array doubles exactly when it was full.
\<close>

theorem poll_returns_live_channels:
  assumes "epoll_kernel sys" and "poller_ok (m, p)"
    and "0 < pl_events_size p" and "pl_events_size p < 2 ^ 31"
  shows "\<exists>active p' m'. poller_poll sys t store_set_revents p m = Inr (active, p', m') \<and>
    poller_ok (m', p') \<and> same_but_revents m m' \<and> length active \<le> pl_events_size p \<and>
    pl_events_size p' = (if length active = pl_events_size p then pl_events_size p * 2
                         else pl_events_size p) \<and>
    (\<forall>a \<in> set active. \<exists>c. m' a = Some c \<and> ch_index c = kAdded \<and>
       ch_revents c AND NOT (ch_events c OR EPOLLERR OR EPOLLHUP) = 0)"
proof -
  let ?n = "pl_events_size p"
  obtain n e evs where w: "sys_epoll_wait sys (pl_interest p) (int ?n) t = (n, e, evs)"
    by (metis prod_cases3)
  note k = epoll_kernel.wait_le [OF assms(1) _ w] epoll_kernel.wait_len [OF assms(1) w]
    epoll_kernel.wait_reg [OF assms(1) w]
  have live: "\<exists>c. m (ev_ptr ev) = Some c \<and> ch_index c = kAdded \<and>
      ev_events ev AND NOT (ch_events c OR EPOLLERR OR EPOLLHUP) = 0" if "ev \<in> set evs" for ev
    using k(3) [OF that] interest_channel [OF assms(2)] by metis
  have same_p: "p\<lparr>pl_events_size := ?n\<rparr> = p" by simp
  show ?thesis
  proof (cases "n > 0")
    case False
    then have "poller_poll sys t store_set_revents p m = Inr ([], p, m)"
      unfolding poller_poll_def sint_of_nat_cint [OF assms(4)] w by simp
    with assms(2,3) show ?thesis by simp
  next
    case True
    obtain m' where m': "fill_events store_set_revents evs [] m = Inr (map ev_ptr evs, m')" "same_but_revents m m'"
      and act: "\<forall>a \<in> set (map ev_ptr evs). \<exists>c. m' a = Some c \<and> ch_index c = kAdded \<and>
        ch_revents c AND NOT (ch_events c OR EPOLLERR OR EPOLLHUP) = 0"
      using fill_events_live [OF live] by blast
    define p' where "p' = (if nat n = ?n then p\<lparr>pl_events_size := ?n * 2\<rparr> else p)"
    have run: "poller_poll sys t store_set_revents p m = Inr (map ev_ptr evs, p', m')"
      unfolding poller_poll_def sint_of_nat_cint [OF assms(4)] w
      using True k(2) m'(1) by (simp add: fillActiveChannels_def p'_def)
    have ok: "poller_ok (m', p')"
      using poller_ok_revents [OF assms(2) m'(2), of "?n * 2"]
        poller_ok_revents [OF assms(2) m'(2), of ?n] same_p by (simp add: p'_def)
    have "length (map ev_ptr evs) \<le> ?n" using k(1,2) assms(3) by simp
    moreover have "pl_events_size p' = (if length (map ev_ptr evs) = ?n then ?n * 2 else ?n)"
      using k(2) by (simp add: p'_def)
    ultimately show ?thesis using run ok m'(2) act by blast
  qed
qed

definition one_added :: "(ptr \<Rightarrow> nat channel option) \<times> poller" where
  "one_added =
     ([10 \<mapsto> (Channel_ctor 10 1 5)\<lparr>ch_events := 3, ch_index := 1\<rparr>],
      \<lparr>pl_loop = 1, pl_channels = [5 \<mapsto> 10], pl_epollfd = 3, pl_events_size = 1,
       pl_interest = [5 \<mapsto> \<lparr>ev_events = 3, ev_ptr = 10\<rparr>]\<rparr>)"

lemma one_added_ok: "poller_ok one_added"
  by (simp add: poller_ok_def registry_ok_def one_added_def Channel_ctor_def poller_view_def
      chan_inv_def registered_def watched_def index_defs)

theorem poll_returns_live_channels_witness:
  "\<exists>p' m'. poller_poll (os_with 0 [] [(5, 17)]) 10000 store_set_revents (snd one_added) (fst one_added)
       = Inr ([10], p', m') \<and> poller_ok (m', p') \<and> pl_events_size p' = 2 \<and>
     (\<exists>c. m' 10 = Some c \<and> ch_revents c AND NOT (ch_events c OR EPOLLERR OR EPOLLHUP) = 0)"
proof -
  have ok: "poller_ok (fst one_added, snd one_added)" using one_added_ok by simp
  have size: "pl_events_size (snd one_added) = 1" by (simp add: one_added_def)
  have ex: "\<exists>p' m'. poller_poll (os_with 0 [] [(5, 17)]) 10000 store_set_revents (snd one_added)
      (fst one_added) = Inr ([10], p', m')"
    by (simp add: one_added_def poller_poll_def os_with_def wait_ready_def List.map_filter_def Let_def
        fillActiveChannels_def store_set_revents_def)
  have bounds: "0 < pl_events_size (snd one_added)" "pl_events_size (snd one_added) < 2 ^ 31"
    by (simp_all add: size)
  from poll_returns_live_channels [OF os_with_epoll.epoll_kernel_axioms ok bounds,
      of 0 "[]" "[(5, 17)]" 10000] ex size
  show ?thesis by auto
qed

text \<open>
  What a registration call does to the kernel. On a consistent channel, any enable or disable
  call, and a \<open>remove\<close> of a channel that is not new, succeeds; afterwards the kernel watches exactly
  the channel's new events under its own pointer, or nothing when the channel was added and now wants
  no events or was removed; \<open>hasChannel\<close> holds exactly when it was not removed; and no other
  descriptor is touched.
\<close>

lemma registration_effect:
  assumes "epoll_kernel sys" and "chan_inv c p" and "chan_legal x c"
  shows "\<exists>c' p'. chan_do sys x c p = Inr (c', p') \<and> chan_inv c' p' \<and>
    ch_events c' = ch_events (new_events x c) \<and>
    pl_interest p' (ch_fd c) =
      (if x = Remove \<or> (ch_index c = kAdded \<and> ch_events c' = kNonEvent) then None
       else Some \<lparr>ev_events = ch_events c', ev_ptr = ch_addr c\<rparr>) \<and>
    hasChannel c' p' = (x \<noteq> Remove) \<and>
    (\<forall>fd. fd \<noteq> ch_fd c \<longrightarrow> pl_channels p' fd = pl_channels p fd \<and> pl_interest p' fd = pl_interest p fd)"
proof -
  let ?c' = "chan_after x c"
  have "chan_do sys x c p = Inr (?c', place ?c' p)"
    by (rule epoll_kernel.chan_do_eq [OF assms(1) chan_inv_slot [OF assms(2)] assms(3)])
  moreover have "chan_inv ?c' (place ?c' p)" by (rule place_inv [OF chan_after_index])
  moreover have "pl_interest (place ?c' p) (ch_fd c) =
      (if x = Remove \<or> (ch_index c = kAdded \<and> ch_events ?c' = kNonEvent) then None
       else Some \<lparr>ev_events = ch_events ?c', ev_ptr = ch_addr c\<rparr>)"
    by (simp add: place_def watched_def) (simp add: chan_after_def updated_def isNonEvent_def)
  moreover have "hasChannel ?c' (place ?c' p) = (x \<noteq> Remove)"
    by (simp add: hasChannel_def place_def registered_def) (simp add: chan_after_def updated_def)
  moreover have "ch_events ?c' = ch_events (new_events x c)"
    by (cases "x = Remove") (simp_all add: chan_after_def)
  ultimately show ?thesis
    by (intro exI [of _ ?c'] exI [of _ "place ?c' p"]) simp
qed

lemma registration_effect_witness:
  "\<exists>c' p'. chan_do (os_with 0 [] []) EnableWriting (the (fst one_added 10)) (snd one_added) = Inr (c', p')
     \<and> pl_interest p' 5 = Some \<lparr>ev_events = 7, ev_ptr = 10\<rparr>"
proof -
  let ?c = "the (fst one_added 10)"
  have inv: "chan_inv ?c (snd one_added)"
    by (simp add: one_added_def Channel_ctor_def chan_inv_def registered_def watched_def index_defs)
  have c: "ch_fd ?c = 5" "ch_addr ?c = 10" "ch_events ?c = 3"
    by (simp_all add: one_added_def Channel_ctor_def)
  have "chan_legal EnableWriting ?c" by (simp add: chan_legal_def)
  from registration_effect [OF os_with_epoll.epoll_kernel_axioms inv this, of 0 "[]" "[]"] c
  show ?thesis by (auto simp del: chan_do.simps)
qed

text \<open>
  A channel can be removed only once. A second \<open>remove\<close>, without a registration in between,
  fails the assertion in \<open>removeChannel\<close> and so aborts the process.
\<close>

lemma remove_twice_aborts:
  "channel_remove sys c p = Inr (c', p') \<Longrightarrow>
     channel_remove sys c' p' = Inl (AssertFail ''removeChannel'')"
proof -
  assume "channel_remove sys c p = Inr (c', p')"
  then have "ch_index c' = kNew"
    by (auto simp: chan_do_remove poller_removeChannel_def Let_def bindE_eq_Inr)
  then show ?thesis by (simp add: chan_do_remove removeChannel_new)
qed

text \<open>
  Disabling everything twice switches a channel on again. The first \<open>disableAll\<close> of an
  added channel takes its descriptor out of the interest list; a second one goes through
  the \<open>kDeleted\<close> branch and adds it back with an empty mask, under which the kernel still reports
  errors and hang-ups to the channel.
\<close>

lemma disableAll_twice_rearms:
  assumes "epoll_kernel sys" and "chan_inv c p" and "ch_index c = kAdded"
  shows "\<exists>c1 p1 c2 p2. disableAll sys c p = Inr (c1, p1) \<and> pl_interest p1 (ch_fd c) = None \<and>
    disableAll sys c1 p1 = Inr (c2, p2) \<and>
    pl_interest p2 (ch_fd c) = Some \<lparr>ev_events = 0, ev_ptr = ch_addr c\<rparr>"
proof -
  let ?c1 = "chan_after DisableAll c" and ?c2 = "chan_after DisableAll (chan_after DisableAll c)"
  have l: "chan_legal DisableAll d" for d :: "'a channel" by (simp add: chan_legal_def)
  note e1 = epoll_kernel.chan_do_eq [OF assms(1) chan_inv_slot [OF assms(2)] l]
  have inv1: "chan_inv ?c1 (place ?c1 p)" by (rule place_inv [OF chan_after_index])
  note e2 = epoll_kernel.chan_do_eq [OF assms(1) chan_inv_slot [OF inv1] l]
  have "pl_interest (place ?c1 p) (ch_fd c) = None"
    using assms(3) by (simp add: place_def watched_def) (simp add: chan_after_def updated_def isNonEvent_def)
  moreover have "pl_interest (place ?c2 (place ?c1 p)) (ch_fd c) =
      Some \<lparr>ev_events = 0, ev_ptr = ch_addr c\<rparr>"
    using assms(3) by (simp add: place_def watched_def) (simp add: chan_after_def updated_def isNonEvent_def)
  ultimately show ?thesis using e1 e2 by simp
qed

lemma disableAll_twice_rearms_witness:
  "\<exists>c1 p1 c2 p2. disableAll (os_with 0 [] []) (the (fst one_added 10)) (snd one_added) = Inr (c1, p1) \<and>
     disableAll (os_with 0 [] []) c1 p1 = Inr (c2, p2) \<and>
     pl_interest p2 5 = Some \<lparr>ev_events = 0, ev_ptr = 10\<rparr>"
proof -
  let ?c = "the (fst one_added 10)"
  have inv: "chan_inv ?c (snd one_added)" "ch_index ?c = kAdded"
    by (simp_all add: one_added_def Channel_ctor_def chan_inv_def registered_def watched_def index_defs)
  have c: "ch_fd ?c = 5" "ch_addr ?c = 10" by (simp_all add: one_added_def Channel_ctor_def)
  from disableAll_twice_rearms [OF os_with_epoll.epoll_kernel_axioms inv, of 0 "[]" "[]"] c
  show ?thesis by auto
qed

end
