(* ===== verification/Callbacks.thy ===== *)
theory Callbacks
  imports Prelude
begin

text \<open>
  The function objects of the program (\<open>src/Callbacks.h\<close> and every \<open>std::bind\<close> of the sources), as
  data: the member functions that channels call, and those that are put into a loop's queue, each with
  the bound object's address and the bound arguments. \<open>SendInLoop\<close> binds what the code binds, the
  address and the length of the message, not its bytes. The user's own functions are known by a number;
  \<open>WriteComplete\<close> and \<open>HighWaterMark\<close> bind a copy of the one that was set.
\<close>

datatype callback =
    EventLoop_handleRead ptr
  | Acceptor_handleRead ptr
  | TcpConnection_handleRead ptr
  | TcpConnection_handleWrite ptr
  | TcpConnection_handleClose ptr
  | TcpConnection_handleError ptr

datatype Functor =
    Acceptor_listen ptr
  | ConnectEstablished ptr
  | ConnectDestroyed ptr
  | RemoveConnectionInLoop ptr ptr
  | SendInLoop ptr ptr size_t
  | ShutdownInLoop ptr
  | WriteComplete nat ptr
  | HighWaterMark nat ptr size_t
  | UserFunctor nat

end
