(* ===== verification/EventLoop.thy ===== *)
theory EventLoop
  imports EPollPoller Callbacks
begin

text \<open>
  The event loop of \<open>src/EventLoop.h\<close> and \<open>src/EventLoop.cc\<close>: its state, its construction, the queue of
  functors with its wake-up rule, and the loop. Operations that call code of other classes (functors,
  channel callbacks) work on a program state \<open>'w\<close>: \<open>getl\<close> reads this loop out of it, \<open>updl\<close> changes it
  there, \<open>exec\<close> runs a functor and \<open>dispatch\<close> a channel's \<open>handleEvent\<close>.
\<close>

subsection \<open>State and construction\<close>

text \<open>
  \<open>el_wakeups\<close> is the counter the kernel keeps behind \<open>wakeupFd_\<close>; the two objects the loop
  owns by pointer are its poller, held here, and its wake-up channel, held by its address.
\<close>

record eventloop =
  el_addr :: ptr
  el_looping :: bool
  el_quit :: bool
  el_threadId :: int
  el_pollReturnTime :: int
  el_poller :: poller
  el_wakeupFd :: int
  el_wakeupChannel :: ptr
  el_activeChannels :: "ptr list"
  el_callingPendingFunctors :: bool
  el_pendingFunctors :: "Functor list"
  el_wakeups :: nat

definition kPollTimeMs :: int where
  "kPollTimeMs = 10000"

definition createEventfd :: "int \<Rightarrow> fault + int" where
  "createEventfd evtfd = (if evtfd < 0 then Inl (FatalExit ''Failed in eventfd'') else Inr evtfd)"

text \<open>
  The constructor, in the order of the member initialisers and the body. \<open>use_poll\<close>, \<open>epollfd\<close> and
  \<open>evtfd\<close> are what \<open>getenv\<close>, \<open>epoll_create1\<close> and \<open>eventfd\<close> return, \<open>other\<close> is \<open>t_loopInThisThread\<close>;
  \<open>this\<close> and \<open>chan\<close> are the addresses of the loop and of its wake-up channel.
\<close>

definition EventLoop_ctor ::
    "os \<Rightarrow> bool \<Rightarrow> int \<Rightarrow> int \<Rightarrow> ptr option \<Rightarrow> int \<Rightarrow> ptr \<Rightarrow> ptr \<Rightarrow>
     fault + eventloop \<times> callback channel" where
  "EventLoop_ctor sys use_poll epollfd evtfd other tid this chan =
     bindE (newDefaultPoller use_poll epollfd this) (\<lambda>pl.
     bindE (createEventfd evtfd) (\<lambda>wakeupFd.
     bindE (guardE (other = None) (FatalExit ''Another EventLoop exists in this thread'')) (\<lambda>_.
     let ch = setReadCallback (EventLoop_handleRead this) (Channel_ctor chan this wakeupFd) in
     case pl of
       None \<Rightarrow> Inl (Undefined ''poller_ is null'')
     | Some p \<Rightarrow>
         bindE (enableReading sys ch p) (\<lambda>(ch', p').
         Inr (\<lparr>el_addr = this, el_looping = False, el_quit = False, el_threadId = tid,
              el_pollReturnTime = 0, el_poller = p', el_wakeupFd = wakeupFd,
              el_wakeupChannel = chan, el_activeChannels = [], el_callingPendingFunctors = False,
              el_pendingFunctors = [], el_wakeups = 0\<rparr>, ch')))))"

text \<open>The destructor, up to the closing of the descriptor: the channel leaves the poller.\<close>

definition EventLoop_dtor ::
    "os \<Rightarrow> callback channel \<Rightarrow> eventloop \<Rightarrow> fault + eventloop \<times> callback channel" where
  "EventLoop_dtor sys ch l =
     bindE (disableAll sys ch (el_poller l)) (\<lambda>(c1, p1).
     bindE (channel_remove sys c1 p1) (\<lambda>(c2, p2).
     Inr (l\<lparr>el_poller := p2\<rparr>, c2)))"

subsection \<open>The queue of functors\<close>

definition isInLoopThread :: "int \<Rightarrow> eventloop \<Rightarrow> bool" where
  "isInLoopThread tid l \<longleftrightarrow> el_threadId l = tid"

definition wakeup :: "os \<Rightarrow> eventloop \<Rightarrow> eventloop" where
  "wakeup sys l = l\<lparr>el_wakeups := snd (sys_evwrite sys (el_wakeups l))\<rparr>"

definition loop_handleRead :: "os \<Rightarrow> eventloop \<Rightarrow> eventloop" where
  "loop_handleRead sys l = l\<lparr>el_wakeups := snd (sys_evread sys (el_wakeups l))\<rparr>"

definition set_quit :: "eventloop \<Rightarrow> eventloop" where
  "set_quit l = l\<lparr>el_quit := True\<rparr>"

definition quit :: "os \<Rightarrow> int \<Rightarrow> eventloop \<Rightarrow> eventloop" where
  "quit sys tid l =
     (let l1 = set_quit l in if \<not> isInLoopThread tid l1 then wakeup sys l1 else l1)"

text \<open>\<open>push_functor\<close> is the block under the mutex.\<close>

definition push_functor :: "Functor \<Rightarrow> eventloop \<Rightarrow> eventloop" where
  "push_functor cb l = l\<lparr>el_pendingFunctors := el_pendingFunctors l @ [cb]\<rparr>"

definition needs_wakeup :: "int \<Rightarrow> eventloop \<Rightarrow> bool" where
  "needs_wakeup tid l \<longleftrightarrow> \<not> isInLoopThread tid l \<or> el_callingPendingFunctors l"

definition queueInLoop :: "os \<Rightarrow> int \<Rightarrow> Functor \<Rightarrow> eventloop \<Rightarrow> eventloop" where
  "queueInLoop sys tid cb l =
     (let l1 = push_functor cb l in if needs_wakeup tid l1 then wakeup sys l1 else l1)"

definition runInLoop ::
    "os \<Rightarrow> ('w \<Rightarrow> eventloop) \<Rightarrow> ((eventloop \<Rightarrow> eventloop) \<Rightarrow> 'w \<Rightarrow> 'w) \<Rightarrow>
     (Functor \<Rightarrow> 'w \<Rightarrow> fault + 'w) \<Rightarrow> int \<Rightarrow> Functor \<Rightarrow> 'w \<Rightarrow> fault + 'w" where
  "runInLoop sys getl updl exec tid cb w =
     (if isInLoopThread tid (getl w) then exec cb w
      else Inr (updl (queueInLoop sys tid cb) w))"

text \<open>\<open>doPendingFunctors\<close>, cut at the point where the mutex is released.\<close>

definition begin_calling :: "eventloop \<Rightarrow> eventloop" where
  "begin_calling l = l\<lparr>el_callingPendingFunctors := True\<rparr>"

definition swap_pending :: "eventloop \<Rightarrow> Functor list \<times> eventloop" where
  "swap_pending l = (el_pendingFunctors l, l\<lparr>el_pendingFunctors := []\<rparr>)"

definition end_calling :: "eventloop \<Rightarrow> eventloop" where
  "end_calling l = l\<lparr>el_callingPendingFunctors := False\<rparr>"

fun run_functors :: "(Functor \<Rightarrow> 'w \<Rightarrow> fault + 'w) \<Rightarrow> Functor list \<Rightarrow> 'w \<Rightarrow> fault + 'w" where
  "run_functors exec [] w = Inr w"
| "run_functors exec (f # fs) w = bindE (exec f w) (run_functors exec fs)"

definition doPendingFunctors ::
    "('w \<Rightarrow> eventloop) \<Rightarrow> ((eventloop \<Rightarrow> eventloop) \<Rightarrow> 'w \<Rightarrow> 'w) \<Rightarrow>
     (Functor \<Rightarrow> 'w \<Rightarrow> fault + 'w) \<Rightarrow> 'w \<Rightarrow> fault + 'w" where
  "doPendingFunctors getl updl exec w =
     (let w1 = updl begin_calling w;
          functors = fst (swap_pending (getl w1));
          w2 = updl (\<lambda>l. snd (swap_pending l)) w1
      in bindE (run_functors exec functors w2) (\<lambda>w3. Inr (updl end_calling w3)))"

subsection \<open>The loop\<close>

fun handle_active :: "(int \<Rightarrow> ptr \<Rightarrow> 'w \<Rightarrow> fault + 'w) \<Rightarrow> int \<Rightarrow> ptr list \<Rightarrow> 'w \<Rightarrow> fault + 'w" where
  "handle_active dispatch t [] w = Inr w"
| "handle_active dispatch t (a # ps) w = bindE (dispatch t a w) (handle_active dispatch t ps)"

definition loop_iteration ::
    "os \<Rightarrow> ('w \<Rightarrow> eventloop) \<Rightarrow> ((eventloop \<Rightarrow> eventloop) \<Rightarrow> 'w \<Rightarrow> 'w) \<Rightarrow>
     (ptr \<Rightarrow> cint \<Rightarrow> 'w \<Rightarrow> fault + 'w) \<Rightarrow> (int \<Rightarrow> ptr \<Rightarrow> 'w \<Rightarrow> fault + 'w) \<Rightarrow>
     (Functor \<Rightarrow> 'w \<Rightarrow> fault + 'w) \<Rightarrow> 'w \<Rightarrow> fault + 'w" where
  "loop_iteration sys getl updl setrev dispatch exec w =
     (let w1 = updl (\<lambda>l. l\<lparr>el_activeChannels := []\<rparr>) w in
      bindE (poller_poll sys kPollTimeMs setrev (el_poller (getl w1)) w1) (\<lambda>(active, p, w2).
      let w3 = updl (\<lambda>l. l\<lparr>el_poller := p, el_activeChannels := active,
                             el_pollReturnTime := sys_now sys\<rparr>) w2 in
      bindE (handle_active dispatch (el_pollReturnTime (getl w3)) (el_activeChannels (getl w3)) w3)
        (doPendingFunctors getl updl exec)))"

text \<open>
  The \<open>while\<close> loop, over the answers the operating system gives in the successive iterations: when
  they are used up and the loop has not been asked to quit, it is still running (\<open>None\<close>).
\<close>

fun loop_while ::
    "os list \<Rightarrow> ('w \<Rightarrow> eventloop) \<Rightarrow> ((eventloop \<Rightarrow> eventloop) \<Rightarrow> 'w \<Rightarrow> 'w) \<Rightarrow>
     (ptr \<Rightarrow> cint \<Rightarrow> 'w \<Rightarrow> fault + 'w) \<Rightarrow> (int \<Rightarrow> ptr \<Rightarrow> 'w \<Rightarrow> fault + 'w) \<Rightarrow>
     (Functor \<Rightarrow> 'w \<Rightarrow> fault + 'w) \<Rightarrow> 'w \<Rightarrow> (fault + 'w) option" where
  "loop_while [] getl updl setrev dispatch exec w = (if el_quit (getl w) then Some (Inr w) else None)"
| "loop_while (sys # syss) getl updl setrev dispatch exec w =
     (if el_quit (getl w) then Some (Inr w)
      else case loop_iteration sys getl updl setrev dispatch exec w of
             Inl e \<Rightarrow> Some (Inl e)
           | Inr w' \<Rightarrow> loop_while syss getl updl setrev dispatch exec w')"

definition loop ::
    "os list \<Rightarrow> ('w \<Rightarrow> eventloop) \<Rightarrow> ((eventloop \<Rightarrow> eventloop) \<Rightarrow> 'w \<Rightarrow> 'w) \<Rightarrow>
     (ptr \<Rightarrow> cint \<Rightarrow> 'w \<Rightarrow> fault + 'w) \<Rightarrow> (int \<Rightarrow> ptr \<Rightarrow> 'w \<Rightarrow> fault + 'w) \<Rightarrow>
     (Functor \<Rightarrow> 'w \<Rightarrow> fault + 'w) \<Rightarrow> 'w \<Rightarrow> (fault + 'w) option" where
  "loop syss getl updl setrev dispatch exec w =
     (let w1 = updl (\<lambda>l. l\<lparr>el_looping := True, el_quit := False\<rparr>) w in
      map_option (\<lambda>r. bindE r (\<lambda>w2. Inr (updl (\<lambda>l. l\<lparr>el_looping := False\<rparr>) w2)))
        (loop_while syss getl updl setrev dispatch exec w1))"

subsection \<open>The interface: operations that keep a contract\<close>

text \<open>
  What the loop promises of a program state is what the functors and callbacks it calls promise: an
  invariant kept, and a relation between the states before and after, reflexive and transitive.
\<close>

definition keeps :: "('w \<Rightarrow> bool) \<Rightarrow> ('w \<Rightarrow> 'w \<Rightarrow> bool) \<Rightarrow> ('w \<Rightarrow> fault + 'w) \<Rightarrow> bool" where
  "keeps ok le f \<longleftrightarrow> (\<forall>w w'. ok w \<longrightarrow> f w = Inr w' \<longrightarrow> ok w' \<and> le w w')"

lemma keepsI: "(\<And>w w'. ok w \<Longrightarrow> f w = Inr w' \<Longrightarrow> ok w' \<and> le w w') \<Longrightarrow> keeps ok le f"
  by (simp add: keeps_def)

lemma keepsD: "keeps ok le f \<Longrightarrow> ok w \<Longrightarrow> f w = Inr w' \<Longrightarrow> ok w' \<and> le w w'"
  by (simp add: keeps_def)

locale contract =
  fixes ok :: "'w \<Rightarrow> bool" and le :: "'w \<Rightarrow> 'w \<Rightarrow> bool"
  assumes le_refl: "le w w"
    and le_trans: "le w w' \<Longrightarrow> le w' w'' \<Longrightarrow> le w w''"
begin

lemma keeps_bind:
  assumes "keeps ok le f" "keeps ok le g"
  shows "keeps ok le (\<lambda>w. bindE (f w) g)"
  using assms le_trans unfolding keeps_def bindE_eq_Inr by blast

lemma keeps_chain:
  assumes "ok w'" "le w w'" "keeps ok le g" "g w' = Inr w''"
  shows "ok w'' \<and> le w w''"
  using assms le_trans unfolding keeps_def by blast

lemma keeps_run_functors:
  "(\<And>f. keeps ok le (exec f)) \<Longrightarrow> keeps ok le (run_functors exec fs)"
proof (induction fs)
  case Nil
  then show ?case using le_refl by (simp add: keeps_def)
next
  case (Cons f fs)
  have "keeps ok le (\<lambda>w. bindE (exec f w) (run_functors exec fs))"
    by (rule keeps_bind [OF Cons.prems Cons.IH [OF Cons.prems]])
  then show ?case by (simp add: keeps_def)
qed

lemma keeps_handle_active:
  "(\<And>a. keeps ok le (dispatch t a)) \<Longrightarrow> keeps ok le (handle_active dispatch t ps)"
proof (induction ps)
  case Nil
  then show ?case using le_refl by (simp add: keeps_def)
next
  case (Cons a ps)
  have "keeps ok le (\<lambda>w. bindE (dispatch t a w) (handle_active dispatch t ps))"
    by (rule keeps_bind [OF Cons.prems Cons.IH [OF Cons.prems]])
  then show ?case by (simp add: keeps_def)
qed

lemma keeps_doPendingFunctors:
  assumes upd: "\<And>f w. ok w \<Longrightarrow> (\<And>l. el_poller (f l) = el_poller l) \<Longrightarrow> ok (updl f w) \<and> le w (updl f w)"
    and exec: "\<And>f. keeps ok le (exec f)"
  shows "keeps ok le (doPendingFunctors getl updl exec)"
proof (rule keepsI)
  fix w w' assume "ok w" "doPendingFunctors getl updl exec w = Inr w'"
  then obtain w1 w2 w3 where w1: "w1 = updl begin_calling w" and w2: "w2 = updl (\<lambda>l. snd (swap_pending l)) w1"
    and run: "run_functors exec (fst (swap_pending (getl w1))) w2 = Inr w3" and w': "w' = updl end_calling w3"
    by (auto simp: doPendingFunctors_def Let_def bindE_eq_Inr)
  have "ok w1 \<and> le w w1" unfolding w1 by (rule upd) (use \<open>ok w\<close> in \<open>simp_all add: begin_calling_def\<close>)
  moreover from this have "ok w2 \<and> le w1 w2" unfolding w2 by (intro upd) (simp_all add: swap_pending_def)
  moreover from this have "ok w3 \<and> le w2 w3" using keepsD [OF keeps_run_functors [OF exec] _ run] by blast
  moreover from this have "ok w' \<and> le w3 w'" unfolding w' by (intro upd) (simp_all add: end_calling_def)
  ultimately show "ok w' \<and> le w w'" using le_trans by blast
qed

end

end
