(* ===== verification/LoopProtocol.thy ===== *)
theory LoopProtocol
  imports EventLoop
begin

text \<open>
  The loop as several threads see it: the loop thread inside \<open>EventLoop::loop\<close> and any number of other
  threads calling \<open>queueInLoop\<close> (or \<open>runInLoop\<close>) and \<open>quit\<close>, interleaved between the points at which
  the code touches shared fields. A thread that calls \<open>queueInLoop\<close> pushes under the mutex, releases
  it, and only then wakes the loop; \<open>quit\<close> sets its flag and only then wakes the loop. The steps
  use the operations of theory \<open>EventLoop\<close>.
\<close>

subsection \<open>States\<close>

text \<open>
  Where the loop thread is: before \<open>loop()\<close>; testing \<open>quit_\<close>; inside \<open>epoll_wait\<close>; in the handlers of
  the active channels (\<open>True\<close>: the wake-up channel is active and not handled yet); between setting
  \<open>callingPendingFunctors_\<close> and the swap; between two functors of the batch; inside a functor;
  before the \<open>wakeup()\<close> of a \<open>queueInLoop\<close> of its own; after the loop.
\<close>

datatype loop_pc =
    LStart
  | LCheck
  | LPoll
  | LHandle bool
  | LSwap
  | LRun "Functor list"
  | LIn "Functor list"
  | LWake loop_pc
  | LExit

datatype other_pc = OIdle | OWake

text \<open>
  \<open>sc_posted\<close> and \<open>sc_done\<close> record the functors in the order in which they were pushed and
  started; \<open>sc_early\<close> that the loop's own thread queued one before \<open>loop()\<close> and no batch has been taken since.
\<close>

record sched =
  sc_loop :: eventloop
  sc_pc :: loop_pc
  sc_other :: "int \<Rightarrow> other_pc"
  sc_posted :: "Functor list"
  sc_done :: "Functor list"
  sc_early :: bool

fun user_code :: "loop_pc \<Rightarrow> bool" where
  "user_code (LHandle b) = True"
| "user_code (LIn fs) = True"
| "user_code LStart = True"
| "user_code _ = False"

fun batch :: "loop_pc \<Rightarrow> Functor list" where
  "batch (LRun fs) = fs"
| "batch (LIn fs) = fs"
| "batch (LWake k) = batch k"
| "batch _ = []"

definition loop_push :: "Functor \<Rightarrow> sched \<Rightarrow> sched" where
  "loop_push f s =
     (let l = push_functor f (sc_loop s) in
      s\<lparr>sc_loop := l,
        sc_pc := if needs_wakeup (el_threadId l) l then LWake (sc_pc s) else sc_pc s,
        sc_posted := sc_posted s @ [f],
        sc_early := sc_early s \<or> sc_pc s = LStart\<rparr>)"

definition other_push :: "int \<Rightarrow> Functor \<Rightarrow> sched \<Rightarrow> sched" where
  "other_push t f s =
     (let l = push_functor f (sc_loop s) in
      s\<lparr>sc_loop := l,
        sc_other := (sc_other s)(t := if needs_wakeup t l then OWake else OIdle),
        sc_posted := sc_posted s @ [f]\<rparr>)"

definition other_quit :: "int \<Rightarrow> sched \<Rightarrow> sched" where
  "other_quit t s =
     (let l = set_quit (sc_loop s) in
      s\<lparr>sc_loop := l, sc_other := (sc_other s)(t := if isInLoopThread t l then OIdle else OWake)\<rparr>)"

inductive sched_step :: "os \<Rightarrow> sched \<Rightarrow> sched \<Rightarrow> bool" for sys where
  start: "sc_pc s = LStart \<Longrightarrow>
    sched_step sys s (s\<lparr>sc_loop := (sc_loop s)\<lparr>el_looping := True, el_quit := False\<rparr>, sc_pc := LCheck\<rparr>)"
| check_quit: "sc_pc s = LCheck \<Longrightarrow> el_quit (sc_loop s) \<Longrightarrow>
    sched_step sys s (s\<lparr>sc_loop := (sc_loop s)\<lparr>el_looping := False\<rparr>, sc_pc := LExit\<rparr>)"
| check_go: "sc_pc s = LCheck \<Longrightarrow> \<not> el_quit (sc_loop s) \<Longrightarrow> sched_step sys s (s\<lparr>sc_pc := LPoll\<rparr>)"
| poll_return: "sc_pc s = LPoll \<Longrightarrow> (b \<Longrightarrow> 0 < el_wakeups (sc_loop s)) \<Longrightarrow>
    sched_step sys s (s\<lparr>sc_pc := LHandle b\<rparr>)"
| handle_wakeup: "sc_pc s = LHandle True \<Longrightarrow>
    sched_step sys s (s\<lparr>sc_loop := loop_handleRead sys (sc_loop s), sc_pc := LHandle False\<rparr>)"
| own_push: "user_code (sc_pc s) \<Longrightarrow> sched_step sys s (loop_push f s)"
| own_wakeup: "sc_pc s = LWake k \<Longrightarrow>
    sched_step sys s (s\<lparr>sc_loop := wakeup sys (sc_loop s), sc_pc := k\<rparr>)"
| own_quit: "user_code (sc_pc s) \<Longrightarrow>
    sched_step sys s (s\<lparr>sc_loop := quit sys (el_threadId (sc_loop s)) (sc_loop s)\<rparr>)"
| handled: "sc_pc s = LHandle False \<Longrightarrow>
    sched_step sys s (s\<lparr>sc_loop := begin_calling (sc_loop s), sc_pc := LSwap\<rparr>)"
| swap: "sc_pc s = LSwap \<Longrightarrow> swap_pending (sc_loop s) = (fs, l) \<Longrightarrow>
    sched_step sys s (s\<lparr>sc_loop := l, sc_pc := LRun fs, sc_early := False\<rparr>)"
| run: "sc_pc s = LRun (f # fs) \<Longrightarrow>
    sched_step sys s (s\<lparr>sc_pc := LIn fs, sc_done := sc_done s @ [f]\<rparr>)"
| ran: "sc_pc s = LIn fs \<Longrightarrow> sched_step sys s (s\<lparr>sc_pc := LRun fs\<rparr>)"
| batch_done: "sc_pc s = LRun [] \<Longrightarrow>
    sched_step sys s (s\<lparr>sc_loop := end_calling (sc_loop s), sc_pc := LCheck\<rparr>)"
| push: "t \<noteq> el_threadId (sc_loop s) \<Longrightarrow> sc_other s t = OIdle \<Longrightarrow> sched_step sys s (other_push t f s)"
| ask_quit: "t \<noteq> el_threadId (sc_loop s) \<Longrightarrow> sc_other s t = OIdle \<Longrightarrow> sched_step sys s (other_quit t s)"
| wake: "t \<noteq> el_threadId (sc_loop s) \<Longrightarrow> sc_other s t = OWake \<Longrightarrow>
    sched_step sys s (s\<lparr>sc_loop := wakeup sys (sc_loop s), sc_other := (sc_other s)(t := OIdle)\<rparr>)"

text \<open>A loop that has been constructed, before \<open>loop()\<close>, nothing queued.\<close>

definition sched_init :: "sched \<Rightarrow> bool" where
  "sched_init s \<longleftrightarrow> sc_pc s = LStart \<and> sc_other s = (\<lambda>_. OIdle) \<and> sc_posted s = [] \<and> sc_done s = [] \<and>
     \<not> sc_early s \<and> el_pendingFunctors (sc_loop s) = [] \<and> \<not> el_callingPendingFunctors (sc_loop s)"

inductive sched_reach :: "os \<Rightarrow> sched \<Rightarrow> bool" for sys where
  init: "sched_init s \<Longrightarrow> sched_reach sys s"
| step: "sched_reach sys s \<Longrightarrow> sched_step sys s t \<Longrightarrow> sched_reach sys t"

subsection \<open>The invariant\<close>

fun calling_pc :: "loop_pc \<Rightarrow> bool" where
  "calling_pc LSwap = True"
| "calling_pc (LRun fs) = True"
| "calling_pc (LIn fs) = True"
| "calling_pc (LWake k) = True"
| "calling_pc _ = False"

fun wake_in_functor :: "loop_pc \<Rightarrow> bool" where
  "wake_in_functor (LWake (LIn fs)) = True"
| "wake_in_functor (LWake k) = False"
| "wake_in_functor _ = True"

definition wake_coming :: "sched \<Rightarrow> bool" where
  "wake_coming s \<longleftrightarrow> 0 < el_wakeups (sc_loop s) \<or> (\<exists>t. sc_other s t = OWake)"

text \<open>The places from which the loop can come to block in \<open>epoll_wait\<close> without taking the queue first.\<close>

fun exposed :: "loop_pc \<Rightarrow> bool" where
  "exposed (LHandle b) = False"
| "exposed LSwap = False"
| "exposed (LWake k) = False"
| "exposed _ = True"

definition sched_inv :: "sched \<Rightarrow> bool" where
  "sched_inv s \<longleftrightarrow>
     el_callingPendingFunctors (sc_loop s) = calling_pc (sc_pc s) \<and>
     wake_in_functor (sc_pc s) \<and>
     sc_done s @ batch (sc_pc s) @ el_pendingFunctors (sc_loop s) = sc_posted s \<and>
     (exposed (sc_pc s) \<and> el_pendingFunctors (sc_loop s) \<noteq> [] \<longrightarrow> sc_early s \<or> wake_coming s) \<and>
     (sc_pc s = LPoll \<and> el_quit (sc_loop s) \<longrightarrow> wake_coming s)"

lemmas loop_op_defs = push_functor_def set_quit_def begin_calling_def end_calling_def
  swap_pending_def isInLoopThread_def needs_wakeup_def loop_push_def other_push_def other_quit_def
  quit_def Let_def

lemma sched_init_inv: "sched_init s \<Longrightarrow> sched_inv s"
  by (simp add: sched_init_def sched_inv_def)

context eventfd_kernel
begin

lemma wakeup_simps [simp]:
  "el_wakeups (wakeup sys l) > 0" "el_pendingFunctors (wakeup sys l) = el_pendingFunctors l"
  "el_callingPendingFunctors (wakeup sys l) = el_callingPendingFunctors l"
  "el_quit (wakeup sys l) = el_quit l" "el_threadId (wakeup sys l) = el_threadId l"
  using evwrite_pos [of "el_wakeups l"] by (cases "sys_evwrite sys (el_wakeups l)"; simp add: wakeup_def)+

lemma wake_coming_wakeup [simp]: "wake_coming (s\<lparr>sc_loop := wakeup sys l, sc_other := oth\<rparr>)"
  "wake_coming (s\<lparr>sc_loop := wakeup sys l, sc_pc := k\<rparr>)"
  by (simp_all add: wake_coming_def)

lemma sched_step_inv: "sched_step sys s t \<Longrightarrow> sched_inv s \<Longrightarrow> sched_inv t"
proof (induction rule: sched_step.induct)
  case (own_push s f)
  then show ?case
    by (cases "sc_pc s") (auto simp: sched_inv_def loop_op_defs wake_coming_def)
next
  case (own_wakeup s k)
  then show ?case by (cases k) (auto simp: sched_inv_def)
next
  case (own_quit s)
  then show ?case
    by (cases "sc_pc s") (auto simp: sched_inv_def loop_op_defs wake_coming_def)
next
  case (push t s f)
  then show ?case
    by (auto simp: sched_inv_def loop_op_defs wake_coming_def)
next
  case (ask_quit t s)
  then show ?case
    by (auto simp: sched_inv_def loop_op_defs wake_coming_def)
qed (auto simp: sched_inv_def loop_op_defs wake_coming_def loop_handleRead_def)

lemma sched_reach_inv: "sched_reach sys s \<Longrightarrow> sched_inv s"
  by (induction rule: sched_reach.induct) (auto intro: sched_init_inv sched_step_inv)

end

subsection \<open>Properties\<close>

text \<open>
  C11: no lost wake-up. Whenever the loop is inside \<open>epoll_wait\<close> and a functor is queued, the event
  descriptor is readable, so \<open>epoll_wait\<close> returns at once, or another thread is between its
  push and its \<open>wakeup()\<close>; except for a functor that the loop's own thread queued before \<open>loop()\<close>.
\<close>

theorem no_lost_wakeup:
  assumes "eventfd_kernel sys" and "sched_reach sys s" and "sc_pc s = LPoll"
    and "el_pendingFunctors (sc_loop s) \<noteq> []" and "\<not> sc_early s"
  shows "0 < el_wakeups (sc_loop s) \<or> (\<exists>t. sc_other s t = OWake)"
  using eventfd_kernel.sched_reach_inv [OF assms(1,2)] assms(3-5)
  by (simp add: sched_inv_def wake_coming_def)

definition demo_loop :: eventloop where
  "demo_loop = \<lparr>el_addr = 1, el_looping = False, el_quit = False, el_threadId = 100,
     el_pollReturnTime = 0,
     el_poller = \<lparr>pl_loop = 1, pl_channels = [4 \<mapsto> 2], pl_epollfd = 3, pl_events_size = 16,
                  pl_interest = [4 \<mapsto> \<lparr>ev_events = 3, ev_ptr = 2\<rparr>]\<rparr>,
     el_wakeupFd = 4,
     el_wakeupChannel = 2,
     el_activeChannels = [], el_callingPendingFunctors = False, el_pendingFunctors = [],
     el_wakeups = 0\<rparr>"

definition demo_sched :: sched where
  "demo_sched = \<lparr>sc_loop = demo_loop, sc_pc = LStart, sc_other = (\<lambda>_. OIdle), sc_posted = [],
     sc_done = [], sc_early = False\<rparr>"

lemma demo_sched_init: "sched_init demo_sched"
  by (simp add: sched_init_def demo_sched_def demo_loop_def)

text \<open>The state with the loop in \<open>epoll_wait\<close>, nothing having happened.\<close>

definition polling :: "sched \<Rightarrow> sched" where
  "polling s = s\<lparr>sc_loop := (sc_loop s)\<lparr>el_looping := True, el_quit := False\<rparr>, sc_pc := LPoll\<rparr>"

lemma polling_steps:
  assumes "sc_pc s = LStart"
  shows "rtranclp (sched_step sys) s (polling s)"
proof -
  let ?s1 = "s\<lparr>sc_loop := (sc_loop s)\<lparr>el_looping := True, el_quit := False\<rparr>, sc_pc := LCheck\<rparr>"
  have "sched_step sys s ?s1" by (rule sched_step.start [OF assms])
  moreover have "sched_step sys ?s1 (?s1\<lparr>sc_pc := LPoll\<rparr>)"
    by (rule sched_step.check_go) simp_all
  ultimately show ?thesis unfolding polling_def by (simp add: converse_rtranclp_into_rtranclp)
qed

lemma sched_reach_steps:
  "rtranclp (sched_step sys) s t \<Longrightarrow> sched_reach sys s \<Longrightarrow> sched_reach sys t"
  by (induction rule: rtranclp_induct) (auto intro: sched_reach.step)

lemma polling_reach: "sched_init s \<Longrightarrow> sched_reach sys (polling s)"
  by (rule sched_reach_steps [OF polling_steps sched_reach.init]) (simp add: sched_init_def)+

theorem no_lost_wakeup_witness:
  "\<exists>s. sched_reach (os_with 0 [] []) s \<and> sc_pc s = LPoll \<and>
     el_pendingFunctors (sc_loop s) = [UserFunctor 1] \<and> sc_other s 7 = OWake \<and>
     (0 < el_wakeups (sc_loop s) \<or> (\<exists>t. sc_other s t = OWake))"
proof -
  let ?s = "other_push 7 (UserFunctor 1) (polling demo_sched)"
  have "sched_step (os_with 0 [] []) (polling demo_sched) ?s"
    by (rule sched_step.push) (simp_all add: polling_def demo_sched_def demo_loop_def)
  with polling_reach [OF demo_sched_init] have r: "sched_reach (os_with 0 [] []) ?s"
    by (rule sched_reach.step)
  have f: "sc_pc ?s = LPoll" "el_pendingFunctors (sc_loop ?s) = [UserFunctor 1]" "\<not> sc_early ?s"
      "sc_other ?s 7 = OWake"
    by (simp_all add: loop_op_defs polling_def demo_sched_def demo_loop_def)
  with no_lost_wakeup [OF os_with_eventfd.eventfd_kernel_axioms r f(1)] r show ?thesis by auto
qed

text \<open>
  C20: functors run in the order of the pushes, each at most once, and none is dropped. In every reachable state the functors
  already started, followed by the rest of the batch being run, followed by the queue, are exactly the
  functors pushed so far, in the order in which their threads got the mutex. So a step either starts none, or starts
  the first of those not started yet; and what has been pushed stays pushed. Those that are
  left in the queue when \<open>loop()\<close> has returned are not run any more.
\<close>

theorem functors_fifo_once:
  assumes "eventfd_kernel sys" and "sched_reach sys s"
  shows "sc_done s @ batch (sc_pc s) @ el_pendingFunctors (sc_loop s) = sc_posted s \<and>
    (\<forall>s'. sched_step sys s s' \<longrightarrow> (\<exists>fs. sc_posted s' = sc_posted s @ fs) \<and>
       (sc_done s' = sc_done s \<or> length (sc_done s) < length (sc_posted s) \<and>
          sc_done s' = sc_done s @ [sc_posted s ! length (sc_done s)])) \<and>
    (sc_pc s = LExit \<longrightarrow> (\<forall>s'. sched_step sys s s' \<longrightarrow> sc_pc s' = LExit \<and> sc_done s' = sc_done s))"
proof (intro conjI allI impI)
  have inv: "sched_inv s" by (rule eventfd_kernel.sched_reach_inv [OF assms])
  then show eq: "sc_done s @ batch (sc_pc s) @ el_pendingFunctors (sc_loop s) = sc_posted s" by (simp add: sched_inv_def)
  fix s' assume step: "sched_step sys s s'"
  show "\<exists>fs. sc_posted s' = sc_posted s @ fs" using step by cases (auto simp: loop_op_defs)
  show "sc_done s' = sc_done s \<or> length (sc_done s) < length (sc_posted s) \<and>
      sc_done s' = sc_done s @ [sc_posted s ! length (sc_done s)]"
    using step
  proof cases
    case (run f fs)
    then show ?thesis using eq [symmetric] by simp
  qed (simp_all add: loop_op_defs)
  assume exit: "sc_pc s = LExit"
  show "sc_pc s' = LExit" using step exit by cases (auto simp: loop_op_defs)
  show "sc_done s' = sc_done s" using step exit by cases (auto simp: loop_op_defs)
qed

text \<open>Two functors are queued while the loop sleeps, the first is started, and a third is queued while it runs.\<close>

theorem functors_fifo_once_witness:
  "\<exists>s. sched_reach (os_with 0 [] []) s \<and> sc_posted s = [UserFunctor 1, UserFunctor 2, UserFunctor 3] \<and>
     sc_done s = [UserFunctor 1] \<and> batch (sc_pc s) = [UserFunctor 2] \<and> el_pendingFunctors (sc_loop s) = [UserFunctor 3] \<and>
     sc_done s @ batch (sc_pc s) @ el_pendingFunctors (sc_loop s) = sc_posted s"
proof -
  let ?sys = "os_with 0 [] []"
  let ?s1 = "other_push 7 (UserFunctor 1) (polling demo_sched)"
  let ?s2 = "other_push 8 (UserFunctor 2) ?s1"
  let ?s3 = "?s2\<lparr>sc_pc := LHandle False\<rparr>"
  let ?s4 = "?s3\<lparr>sc_loop := begin_calling (sc_loop ?s3), sc_pc := LSwap\<rparr>"
  let ?s5 = "?s4\<lparr>sc_loop := (sc_loop ?s4)\<lparr>el_pendingFunctors := []\<rparr>, sc_pc := LRun [UserFunctor 1, UserFunctor 2], sc_early := False\<rparr>"
  let ?s6 = "?s5\<lparr>sc_pc := LIn [UserFunctor 2], sc_done := sc_done ?s5 @ [UserFunctor 1]\<rparr>"
  let ?s7 = "other_push 9 (UserFunctor 3) ?s6"
  note defs = loop_op_defs polling_def demo_sched_def demo_loop_def
  have "sched_reach ?sys ?s1"
    by (rule sched_reach.step [OF polling_reach [OF demo_sched_init] sched_step.push]) (simp_all add: defs)
  from sched_reach.step [OF this sched_step.push] have "sched_reach ?sys ?s2" by (simp add: defs)
  from sched_reach.step [OF this sched_step.poll_return [where b = False]] have "sched_reach ?sys ?s3" by (simp add: defs)
  from sched_reach.step [OF this sched_step.handled] have "sched_reach ?sys ?s4" by simp
  from sched_reach.step [OF this sched_step.swap] have "sched_reach ?sys ?s5" by (simp add: defs)
  from sched_reach.step [OF this sched_step.run] have "sched_reach ?sys ?s6" by simp
  from sched_reach.step [OF this sched_step.push] have r: "sched_reach ?sys ?s7" by (simp add: defs)
  note all = functors_fifo_once [OF os_with_eventfd.eventfd_kernel_axioms r]
  have "sc_posted ?s7 = [UserFunctor 1, UserFunctor 2, UserFunctor 3]" "sc_done ?s7 = [UserFunctor 1]"
      "batch (sc_pc ?s7) = [UserFunctor 2]" "el_pendingFunctors (sc_loop ?s7) = [UserFunctor 3]"
    by (simp_all add: defs)
  then show ?thesis using r conjunct1 [OF all] by blast
qed

text \<open>
  C24: a request to quit reaches the running loop. Once \<open>quit_\<close> is set after the start of \<open>loop()\<close>,
  a loop inside \<open>epoll_wait\<close> has a wake-up under way, the flag stays set, and the loop never
  enters \<open>epoll_wait\<close> again.
\<close>

theorem quit_reaches_loop:
  assumes "eventfd_kernel sys" and "sched_reach sys s" and "el_quit (sc_loop s)" and "sc_pc s \<noteq> LStart"
  shows "(sc_pc s = LPoll \<longrightarrow> 0 < el_wakeups (sc_loop s) \<or> (\<exists>t. sc_other s t = OWake)) \<and>
    (\<forall>s'. sched_step sys s s' \<longrightarrow> el_quit (sc_loop s') \<and> sc_pc s' \<noteq> LStart \<and>
          (sc_pc s' = LPoll \<longrightarrow> sc_pc s = LPoll))"
proof -
  have inv: "sched_inv s" by (rule eventfd_kernel.sched_reach_inv [OF assms(1,2)])
  have "el_quit (sc_loop s') \<and> sc_pc s' \<noteq> LStart \<and> (sc_pc s' = LPoll \<longrightarrow> sc_pc s = LPoll)"
    if "sched_step sys s s'" for s'
    using that assms(3,4) inv
    by cases (auto simp: loop_op_defs loop_handleRead_def wakeup_def sched_inv_def
        elim: wake_in_functor.elims)
  then show ?thesis
    using inv assms(3) by (simp add: sched_inv_def wake_coming_def)
qed

theorem quit_reaches_loop_witness:
  "\<exists>s. sched_reach (os_with 0 [] []) s \<and> sc_pc s = LPoll \<and> el_quit (sc_loop s) \<and>
     (0 < el_wakeups (sc_loop s) \<or> (\<exists>t. sc_other s t = OWake))"
proof -
  let ?s = "other_quit 7 (polling demo_sched)"
  have "sched_step (os_with 0 [] []) (polling demo_sched) ?s"
    by (rule sched_step.ask_quit) (simp_all add: polling_def demo_sched_def demo_loop_def)
  with polling_reach [OF demo_sched_init] have r: "sched_reach (os_with 0 [] []) ?s"
    by (rule sched_reach.step)
  have f: "el_quit (sc_loop ?s)" "sc_pc ?s = LPoll"
    by (simp_all add: loop_op_defs polling_def demo_sched_def demo_loop_def)
  then have "sc_pc ?s \<noteq> LStart" by simp
  from quit_reaches_loop [OF os_with_eventfd.eventfd_kernel_axioms r f(1) this] r f show ?thesis by blast
qed

subsection \<open>Rounds of the loop\<close>

text \<open>The loop thread alone runs the rest of a batch, then takes the queue: explicit states.\<close>

lemma run_batch:
  "sc_pc s = LRun fs \<Longrightarrow>
     rtranclp (sched_step sys) s (s\<lparr>sc_pc := LRun [], sc_done := sc_done s @ fs\<rparr>)"
proof (induction fs arbitrary: s)
  case Nil
  then have "s\<lparr>sc_pc := LRun [], sc_done := sc_done s @ []\<rparr> = s" by simp
  then show ?case by simp
next
  case (Cons f fs)
  let ?s1 = "s\<lparr>sc_pc := LIn fs, sc_done := sc_done s @ [f]\<rparr>"
  let ?s2 = "?s1\<lparr>sc_pc := LRun fs\<rparr>"
  have "sched_step sys s ?s1" by (rule sched_step.run [OF Cons.prems])
  moreover have "sched_step sys ?s1 ?s2" by (rule sched_step.ran) simp
  moreover have "rtranclp (sched_step sys) ?s2 (?s2\<lparr>sc_pc := LRun [], sc_done := sc_done ?s2 @ fs\<rparr>)"
    by (rule Cons.IH) simp
  ultimately show ?case by (simp add: converse_rtranclp_into_rtranclp)
qed

definition round_end :: "sched \<Rightarrow> sched" where
  "round_end s = s\<lparr>
     sc_loop := end_calling (snd (swap_pending (begin_calling (sc_loop s)))),
     sc_pc := LCheck, sc_early := False, sc_done := sc_done s @ el_pendingFunctors (sc_loop s)\<rparr>"

lemma finish_round:
  assumes "sc_pc s = LHandle False"
  shows "rtranclp (sched_step sys) s (round_end s)"
proof -
  define s1 where "s1 = s\<lparr>sc_loop := begin_calling (sc_loop s), sc_pc := LSwap\<rparr>"
  define s2 where "s2 = s1\<lparr>sc_loop := snd (swap_pending (sc_loop s1)),
     sc_pc := LRun (el_pendingFunctors (sc_loop s)), sc_early := False\<rparr>"
  define s3 where "s3 = s2\<lparr>sc_pc := LRun [], sc_done := sc_done s2 @ el_pendingFunctors (sc_loop s)\<rparr>"
  have "sched_step sys s s1" unfolding s1_def by (rule sched_step.handled [OF assms])
  moreover have "sched_step sys s1 s2"
    unfolding s2_def by (rule sched_step.swap) (simp_all add: s1_def swap_pending_def begin_calling_def)
  moreover have "rtranclp (sched_step sys) s2 s3"
    unfolding s3_def by (rule run_batch) (simp add: s2_def)
  moreover have "sched_step sys s3 (s3\<lparr>sc_loop := end_calling (sc_loop s3), sc_pc := LCheck\<rparr>)"
    by (rule sched_step.batch_done) (simp add: s3_def)
  moreover have "s3\<lparr>sc_loop := end_calling (sc_loop s3), sc_pc := LCheck\<rparr> = round_end s"
    by (simp add: s3_def s2_def s1_def round_end_def)
  ultimately show ?thesis
    by (metis rtranclp.rtrancl_into_rtrancl converse_rtranclp_into_rtranclp)
qed

text \<open>A round in which the wake-up channel, readable, is handled.\<close>

definition woken :: "os \<Rightarrow> sched \<Rightarrow> sched" where
  "woken sys s = s\<lparr>sc_loop := loop_handleRead sys (sc_loop s), sc_pc := LHandle False\<rparr>"

lemma woken_round:
  assumes "sc_pc s = LPoll" and "0 < el_wakeups (sc_loop s)"
  shows "rtranclp (sched_step sys) s (round_end (woken sys s))"
proof -
  let ?s1 = "s\<lparr>sc_pc := LHandle True\<rparr>"
  have "sched_step sys s ?s1" by (rule sched_step.poll_return) (use assms in simp_all)
  moreover have "sched_step sys ?s1 (woken sys s)"
    using sched_step.handle_wakeup [of ?s1 sys] by (simp add: woken_def)
  moreover have "rtranclp (sched_step sys) (woken sys s) (round_end (woken sys s))"
    by (rule finish_round) (simp add: woken_def)
  ultimately show ?thesis by (meson converse_rtranclp_into_rtranclp)
qed

lemma round_end_simps [simp]:
  "sc_pc (round_end s) = LCheck" "sc_other (round_end s) = sc_other s"
  "sc_posted (round_end s) = sc_posted s"
  "sc_done (round_end s) = sc_done s @ el_pendingFunctors (sc_loop s)"
  "el_pendingFunctors (sc_loop (round_end s)) = []"
  "el_quit (sc_loop (round_end s)) = el_quit (sc_loop s)"
  "el_wakeups (sc_loop (round_end s)) = el_wakeups (sc_loop s)"
  by (simp_all add: round_end_def begin_calling_def end_calling_def swap_pending_def)

lemma woken_simps [simp]:
  "sc_pc (woken sys s) = LHandle False" "sc_other (woken sys s) = sc_other s"
  "sc_posted (woken sys s) = sc_posted s" "sc_done (woken sys s) = sc_done s"
  "el_pendingFunctors (sc_loop (woken sys s)) = el_pendingFunctors (sc_loop s)"
  "el_quit (sc_loop (woken sys s)) = el_quit (sc_loop s)"
  by (simp_all add: woken_def loop_handleRead_def)

text \<open>
  C23: a woken loop drains the queue. From any reachable state with the loop in \<open>epoll_wait\<close> and the
  event descriptor readable, the loop thread by itself can finish a round after which every functor
  pushed so far has been run and the queue is empty.
\<close>

theorem woken_loop_drains:
  assumes "eventfd_kernel sys" and "sched_reach sys s" and "sc_pc s = LPoll"
    and "0 < el_wakeups (sc_loop s)"
  shows "\<exists>s'. rtranclp (sched_step sys) s s' \<and> sc_pc s' = LCheck \<and> sc_posted s' = sc_posted s \<and>
    sc_done s' = sc_posted s \<and> el_pendingFunctors (sc_loop s') = []"
proof -
  have "sc_done s @ el_pendingFunctors (sc_loop s) = sc_posted s"
    using eventfd_kernel.sched_reach_inv [OF assms(1,2)] assms(3) by (simp add: sched_inv_def)
  with woken_round [OF assms(3,4), of sys] show ?thesis
    by (intro exI [of _ "round_end (woken sys s)"]) simp
qed

theorem woken_loop_drains_witness:
  "\<exists>s s'. sched_reach (os_with 0 [] []) s \<and> rtranclp (sched_step (os_with 0 [] [])) s s' \<and>
     sc_done s' = [UserFunctor 1]"
proof -
  let ?sys = "os_with 0 [] []"
  let ?s1 = "other_push 7 (UserFunctor 1) (polling demo_sched)"
  let ?s2 = "?s1\<lparr>sc_loop := wakeup ?sys (sc_loop ?s1), sc_other := (sc_other ?s1)(7 := OIdle)\<rparr>"
  have "sched_step ?sys (polling demo_sched) ?s1"
    by (rule sched_step.push) (simp_all add: polling_def demo_sched_def demo_loop_def)
  moreover have "sched_step ?sys ?s1 ?s2"
    by (rule sched_step.wake) (simp_all add: loop_op_defs polling_def demo_sched_def demo_loop_def)
  ultimately have r: "sched_reach ?sys ?s2"
    using polling_reach [OF demo_sched_init, of ?sys] by (blast intro: sched_reach.step)
  have "sc_pc ?s2 = LPoll" "0 < el_wakeups (sc_loop ?s2)" "sc_posted ?s2 = [UserFunctor 1]"
    using os_with_eventfd.wakeup_simps by (simp_all add: loop_op_defs polling_def demo_sched_def demo_loop_def)
  with woken_loop_drains [OF os_with_eventfd.eventfd_kernel_axioms r] r show ?thesis by force
qed

text \<open>
  A \<open>quit()\<close> that comes before \<open>loop()\<close> is lost. From a constructed loop, another thread can complete
  a whole \<open>quit()\<close>, and the loop thread can then start, go round once, and end up inside \<open>epoll_wait\<close>
  with the flag cleared, nothing queued, no wake-up pending and no thread about to send one.
\<close>

lemma quit_before_loop_lost:
  assumes "eventfd_kernel sys" and "sched_init s" and "t \<noteq> el_threadId (sc_loop s)"
  shows "\<exists>s'. sched_step sys s (other_quit t s) \<and> rtranclp (sched_step sys) (other_quit t s) s' \<and>
    sc_pc s' = LPoll \<and> \<not> el_quit (sc_loop s') \<and> el_pendingFunctors (sc_loop s') = [] \<and>
    el_wakeups (sc_loop s') = 0 \<and> sc_other s' = (\<lambda>_. OIdle)"
proof -
  from assms(2) have i: "sc_pc s = LStart" "sc_other s = (\<lambda>_. OIdle)" "el_pendingFunctors (sc_loop s) = []"
    by (simp_all add: sched_init_def)
  define s1 where "s1 = other_quit t s"
  define s2 where "s2 = s1\<lparr>sc_loop := wakeup sys (sc_loop s1), sc_other := (sc_other s1)(t := OIdle)\<rparr>"
  define s4 where "s4 = round_end (woken sys (polling s2))"
  have st0: "sched_step sys s s1"
    unfolding s1_def using assms(3) i by (intro sched_step.ask_quit) simp_all
  have st1: "sched_step sys s1 s2"
    unfolding s2_def by (rule sched_step.wake) (use i assms(3) in \<open>simp_all add: s1_def loop_op_defs\<close>)
  have s2: "sc_pc s2 = LStart" "sc_other s2 = (\<lambda>_. OIdle)" "el_pendingFunctors (sc_loop s2) = []"
      "0 < el_wakeups (sc_loop s2)"
    using i eventfd_kernel.wakeup_simps [OF assms(1)] by (auto simp: s2_def s1_def loop_op_defs)
  have st2: "rtranclp (sched_step sys) s2 (polling s2)" by (rule polling_steps [OF s2(1)])
  have w: "0 < el_wakeups (sc_loop (polling s2))" using s2(4) by (simp add: polling_def)
  have st3: "rtranclp (sched_step sys) (polling s2) s4"
    unfolding s4_def by (rule woken_round [OF _ w]) (simp add: polling_def)
  have s4: "sc_pc s4 = LCheck" "\<not> el_quit (sc_loop s4)" "el_pendingFunctors (sc_loop s4) = []"
      "sc_other s4 = (\<lambda>_. OIdle)" "el_wakeups (sc_loop s4) = 0"
    using s2 eventfd_kernel.evread_pos [OF assms(1) w]
    by (simp_all add: s4_def) (simp_all add: polling_def woken_def loop_handleRead_def)
  have "sched_step sys s4 (s4\<lparr>sc_pc := LPoll\<rparr>)" by (rule sched_step.check_go [OF s4(1,2)])
  with st1 st2 st3 have "rtranclp (sched_step sys) s1 (s4\<lparr>sc_pc := LPoll\<rparr>)"
    by (meson converse_rtranclp_into_rtranclp rtranclp.rtrancl_into_rtrancl rtranclp_trans)
  with st0 s4 show ?thesis unfolding s1_def by (intro exI [of _ "s4\<lparr>sc_pc := LPoll\<rparr>"]) simp
qed

lemma quit_before_loop_lost_witness:
  "\<exists>s'. rtranclp (sched_step (os_with 0 [] [])) (other_quit 7 demo_sched) s' \<and>
     sc_pc s' = LPoll \<and> \<not> el_quit (sc_loop s') \<and> el_wakeups (sc_loop s') = 0"
proof -
  have "(7 :: int) \<noteq> el_threadId (sc_loop demo_sched)" by (simp add: demo_sched_def demo_loop_def)
  from quit_before_loop_lost [OF os_with_eventfd.eventfd_kernel_axioms demo_sched_init this]
  show ?thesis by blast
qed

text \<open>
  A functor that the loop's own thread queues before \<open>loop()\<close> can wait for the poll timeout. No
  wake-up is sent for it, and the loop can enter \<open>epoll_wait\<close> with the functor queued, the
  event descriptor not readable and no thread about to make it so.
\<close>

lemma early_functor_waits:
  assumes "sched_init s" and "el_wakeups (sc_loop s) = 0"
  shows "\<exists>s'. sched_reach sys s' \<and> sc_pc s' = LPoll \<and> el_pendingFunctors (sc_loop s') = [f] \<and>
    el_wakeups (sc_loop s') = 0 \<and> sc_other s' = (\<lambda>_. OIdle)"
proof -
  from assms(1) have i: "sc_pc s = LStart" "sc_other s = (\<lambda>_. OIdle)" "el_pendingFunctors (sc_loop s) = []"
      "\<not> el_callingPendingFunctors (sc_loop s)"
    by (simp_all add: sched_init_def)
  let ?s1 = "loop_push f s"
  have s1: "sc_pc ?s1 = LStart" "el_pendingFunctors (sc_loop ?s1) = [f]" "sc_other ?s1 = (\<lambda>_. OIdle)"
      "el_wakeups (sc_loop ?s1) = 0"
    using i assms(2) by (simp_all add: loop_op_defs)
  have "sched_step sys s ?s1" by (rule sched_step.own_push) (simp add: i)
  then have "sched_reach sys ?s1" by (rule sched_reach.step [OF sched_reach.init [OF assms(1)]])
  then have "sched_reach sys (polling ?s1)" by (rule sched_reach_steps [OF polling_steps [OF s1(1)]])
  with s1 show ?thesis by (intro exI [of _ "polling ?s1"]) (simp add: polling_def)
qed

lemma early_functor_waits_witness:
  "\<exists>s'. sched_reach (os_with 0 [] []) s' \<and> sc_pc s' = LPoll \<and>
     el_pendingFunctors (sc_loop s') = [UserFunctor 1] \<and> el_wakeups (sc_loop s') = 0"
proof -
  have "el_wakeups (sc_loop demo_sched) = 0" by (simp add: demo_sched_def demo_loop_def)
  from early_functor_waits [OF demo_sched_init this] show ?thesis by blast
qed

end
