(* ===== verification/Buffer.thy ===== *)
theory Buffer
  imports Posix
begin

text \<open>
  The byte buffer of \<open>src/Buffer.h\<close> and \<open>src/Buffer.cc\<close>: a vector of bytes and two indexes,
  with every operation of the class on 64-bit \<open>size_t\<close> arithmetic, the invariant of the diagram
  in the header, the refinement to a plain list of bytes, and the two system-call wrappers.
  Pointers into the vector are offsets from its beginning.
\<close>

subsection \<open>The vector\<close>

text \<open>\<open>std::vector<char>::max_size()\<close>.\<close>

definition vector_max :: nat where
  "vector_max = 2 ^ 63 - 1"

definition vector_resize :: "size_t \<Rightarrow> byte list \<Rightarrow> fault + byte list" where
  "vector_resize n xs =
     (if unat n \<le> vector_max
      then Inr (take (unat n) xs @ replicate (unat n - length xs) 0)
      else Inl (LengthError ''vector::resize''))"

text \<open>
  \<open>std::copy\<close> inside one array: a forward loop; the standard requires both ranges
  to be inside the array and the destination not to start inside the source range.
\<close>

fun copy_loop :: "nat \<Rightarrow> nat \<Rightarrow> nat \<Rightarrow> byte list \<Rightarrow> byte list" where
  "copy_loop 0 src dst xs = xs"
| "copy_loop (Suc n) src dst xs = copy_loop n (Suc src) (Suc dst) (xs[dst := xs ! src])"

definition std_copy_within :: "size_t \<Rightarrow> size_t \<Rightarrow> size_t \<Rightarrow> byte list \<Rightarrow> fault + byte list" where
  "std_copy_within f l d xs =
     (let n = unat l - unat f in
      bindE (guardE (f \<le> l \<and> unat l \<le> length xs \<and> unat d + n \<le> length xs)
               (Undefined ''std::copy: out of range'')) (\<lambda>_.
      bindE (guardE (\<not> (f \<le> d \<and> d < l))
               (Undefined ''std::copy: overlap'')) (\<lambda>_.
      Inr (copy_loop n (unat f) (unat d) xs))))"

text \<open>Storing foreign bytes at an offset (\<open>std::copy\<close> from outside, or the kernel in \<open>readv\<close>).\<close>

definition store_at :: "size_t \<Rightarrow> byte list \<Rightarrow> byte list \<Rightarrow> fault + byte list" where
  "store_at i ys xs =
     (if unat i + length ys \<le> length xs
      then Inr (take (unat i) xs @ ys @ drop (unat i + length ys) xs)
      else Inl (Undefined ''write past the end of the vector''))"

subsection \<open>The class\<close>

record buffer =
  storage :: "byte list"
  readerIndex :: size_t
  writerIndex :: size_t

definition kCheapPrepend :: size_t where
  "kCheapPrepend = 8"

definition kInitialSize :: size_t where
  "kInitialSize = 1024"

definition Buffer_ctor :: "size_t \<Rightarrow> fault + buffer" where
  "Buffer_ctor initialSize =
     bindE (vector_resize (kCheapPrepend + initialSize) []) (\<lambda>v.
     Inr \<lparr>storage = v, readerIndex = kCheapPrepend, writerIndex = kCheapPrepend\<rparr>)"

definition buffer_size :: "buffer \<Rightarrow> size_t" where
  "buffer_size b = of_nat (length (storage b))"

definition readableBytes :: "buffer \<Rightarrow> size_t" where
  "readableBytes b = writerIndex b - readerIndex b"

definition writableBytes :: "buffer \<Rightarrow> size_t" where
  "writableBytes b = buffer_size b - writerIndex b"

definition prependableBytes :: "buffer \<Rightarrow> size_t" where
  "prependableBytes b = readerIndex b"

definition peek :: "buffer \<Rightarrow> size_t" where
  "peek b = readerIndex b"

definition beginWrite :: "buffer \<Rightarrow> size_t" where
  "beginWrite b = writerIndex b"

definition retrieveAll :: "buffer \<Rightarrow> buffer" where
  "retrieveAll b = b\<lparr>readerIndex := kCheapPrepend, writerIndex := kCheapPrepend\<rparr>"

definition retrieve :: "size_t \<Rightarrow> buffer \<Rightarrow> buffer" where
  "retrieve len b =
     (if len < readableBytes b then b\<lparr>readerIndex := readerIndex b + len\<rparr>
      else retrieveAll b)"

text \<open>The \<open>len\<close> bytes at an offset, as \<open>std::string(peek(), len)\<close> and \<open>write(fd, peek(), len)\<close> read them.\<close>

definition bytes_at :: "size_t \<Rightarrow> size_t \<Rightarrow> buffer \<Rightarrow> fault + byte list" where
  "bytes_at i len b =
     (if unat i + unat len \<le> length (storage b)
      then Inr (take (unat len) (drop (unat i) (storage b)))
      else Inl (Undefined ''read past the end of the vector''))"

definition retrieveAsString :: "size_t \<Rightarrow> buffer \<Rightarrow> fault + byte list \<times> buffer" where
  "retrieveAsString len b =
     bindE (bytes_at (peek b) len b) (\<lambda>result. Inr (result, retrieve len b))"

definition retrieveAllAsString :: "buffer \<Rightarrow> fault + byte list \<times> buffer" where
  "retrieveAllAsString b = retrieveAsString (readableBytes b) b"

definition hasWritten :: "size_t \<Rightarrow> buffer \<Rightarrow> buffer" where
  "hasWritten len b = b\<lparr>writerIndex := writerIndex b + len\<rparr>"

definition makeSpace :: "size_t \<Rightarrow> buffer \<Rightarrow> fault + buffer" where
  "makeSpace len b =
     (if writableBytes b + prependableBytes b < len + kCheapPrepend then
        bindE (vector_resize (writerIndex b + len) (storage b)) (\<lambda>v. Inr (b\<lparr>storage := v\<rparr>))
      else
        let readable = readableBytes b in
        bindE (std_copy_within (readerIndex b) (writerIndex b) kCheapPrepend (storage b)) (\<lambda>v.
        Inr (b\<lparr>storage := v, readerIndex := kCheapPrepend,
               writerIndex := kCheapPrepend + readable\<rparr>)))"

definition ensureWritableBytes :: "size_t \<Rightarrow> buffer \<Rightarrow> fault + buffer" where
  "ensureWritableBytes len b =
     bindE (if writableBytes b < len then makeSpace len b else Inr b) (\<lambda>b'.
     bindE (guardE (len \<le> writableBytes b') (AssertFail ''writableBytes() >= len'')) (\<lambda>_.
     Inr b'))"

text \<open>
  \<open>append(data, len)\<close>: the caller's bytes are the list, their number the length.
\<close>

definition append_buf :: "byte list \<Rightarrow> buffer \<Rightarrow> fault + buffer" where
  "append_buf data b =
     (let len = of_nat (length data) in
      bindE (ensureWritableBytes len b) (\<lambda>b'.
      bindE (store_at (beginWrite b') data (storage b')) (\<lambda>v.
      Inr (hasWritten len (b'\<lparr>storage := v\<rparr>)))))"

definition extrabuf_size :: nat where
  "extrabuf_size = 65536"

text \<open>
  \<open>readFd\<close>: the result, the saved \<open>errno\<close> when there is one, and the buffer.
\<close>

definition readFd_iov :: "buffer \<Rightarrow> nat list" where
  "readFd_iov b =
     (if unat (writableBytes b) < extrabuf_size
      then [unat (writableBytes b), extrabuf_size] else [unat (writableBytes b)])"

definition readFd :: "os \<Rightarrow> int \<Rightarrow> buffer \<Rightarrow> fault + int \<times> errno option \<times> buffer" where
  "readFd sys fd b =
     (let writeable = writableBytes b;
          (n, e, bs) = sys_readv sys fd (readFd_iov b);
          extra = drop (unat writeable) bs
      in bindE (store_at (beginWrite b) (take (unat writeable) bs) (storage b)) (\<lambda>v.
         let b1 = b\<lparr>storage := v\<rparr> in
         if n < 0 then Inr (n, Some e, b1)
         else if of_int n \<le> writeable then
           Inr (n, None, b1\<lparr>writerIndex := writerIndex b1 + of_int n\<rparr>)
         else
           let rest = unat (of_int n - writeable :: size_t) in
           bindE (guardE (rest \<le> extrabuf_size) (Undefined ''read past extrabuf'')) (\<lambda>_.
           bindE (append_buf (take rest (extra @ replicate (extrabuf_size - length extra) 0))
                    (b1\<lparr>writerIndex := buffer_size b1\<rparr>)) (\<lambda>b2.
           Inr (n, None, b2)))))"

definition writeFd :: "os \<Rightarrow> int \<Rightarrow> buffer \<Rightarrow> fault + int \<times> errno option \<times> buffer" where
  "writeFd sys fd b =
     bindE (bytes_at (peek b) (readableBytes b) b) (\<lambda>bs.
     let (n, e) = sys_write sys fd bs in
     if n < 0 then Inr (n, Some e, b)
     else if n = 0 then Inr (n, None, b)
     else Inr (n, None, retrieve (of_int n) b))"

subsection \<open>Invariant and abstraction\<close>

definition buffer_inv :: "buffer \<Rightarrow> bool" where
  "buffer_inv b \<longleftrightarrow>
     unat kCheapPrepend \<le> unat (readerIndex b) \<and>
     unat (readerIndex b) \<le> unat (writerIndex b) \<and>
     unat (writerIndex b) \<le> length (storage b) \<and>
     length (storage b) \<le> vector_max"

definition content :: "buffer \<Rightarrow> byte list" where
  "content b = take (unat (writerIndex b) - unat (readerIndex b))
                 (drop (unat (readerIndex b)) (storage b))"

lemma unat_kCheapPrepend [simp]: "unat kCheapPrepend = 8"
  by (simp add: kCheapPrepend_def)

lemma vector_max_less: "n \<le> vector_max \<Longrightarrow> n < 2 ^ 63"
  by (simp add: vector_max_def)

lemma buffer_invD:
  assumes "buffer_inv b"
  shows "8 \<le> unat (readerIndex b)" "unat (readerIndex b) \<le> unat (writerIndex b)"
    "unat (writerIndex b) \<le> length (storage b)" "length (storage b) < 2 ^ 63"
  using assms by (auto simp: buffer_inv_def vector_max_def)

lemma buffer_invI:
  assumes "8 \<le> unat (readerIndex b)" "unat (readerIndex b) \<le> unat (writerIndex b)"
    "unat (writerIndex b) \<le> length (storage b)" "length (storage b) \<le> vector_max"
  shows "buffer_inv b"
  using assms by (simp add: buffer_inv_def)

lemma unat_buffer_size: "buffer_inv b \<Longrightarrow> unat (buffer_size b) = length (storage b)"
  unfolding buffer_size_def by (rule unat_of_nat_size) (auto dest: buffer_invD)

lemma unat_readable:
  "buffer_inv b \<Longrightarrow> unat (readableBytes b) = unat (writerIndex b) - unat (readerIndex b)"
  unfolding readableBytes_def
  by (rule unat_diff_size) (simp add: word_le_nat_alt buffer_invD)

lemma unat_writable:
  "buffer_inv b \<Longrightarrow> unat (writableBytes b) = length (storage b) - unat (writerIndex b)"
  unfolding writableBytes_def
  by (subst unat_diff_size) (auto simp: word_le_nat_alt unat_buffer_size buffer_invD)

lemma length_content: "buffer_inv b \<Longrightarrow> length (content b) = unat (readableBytes b)"
  using buffer_invD(2,3) [of b] by (simp add: content_def unat_readable)

lemma unat_room:
  "buffer_inv b \<Longrightarrow> unat (writableBytes b + prependableBytes b) =
     length (storage b) - unat (writerIndex b) + unat (readerIndex b)"
  using buffer_invD [of b]
  by (subst unat_add_size) (simp_all add: unat_writable prependableBytes_def)

lemma copy_loop_length [simp]: "length (copy_loop n src dst xs) = length xs"
  by (induction n src dst xs rule: copy_loop.induct) simp_all

lemma copy_loop_eq:
  "dst \<le> src \<Longrightarrow> src + n \<le> length xs \<Longrightarrow>
     copy_loop n src dst xs = take dst xs @ take n (drop src xs) @ drop (dst + n) xs"
proof (induction n src dst xs rule: copy_loop.induct)
  case (1 src dst xs)
  then show ?case by simp
next
  case (2 n src dst xs)
  let ?ys = "xs[dst := xs ! src]"
  have "copy_loop (Suc n) src dst xs =
      take (Suc dst) ?ys @ take n (drop (Suc src) ?ys) @ drop (Suc dst + n) ?ys"
    using 2 by simp
  also have "take (Suc dst) ?ys = take dst xs @ [xs ! src]"
    using 2 by (simp add: take_Suc_conv_app_nth)
  also have "take n (drop (Suc src) ?ys) = take n (drop (Suc src) xs)"
    using 2 by simp
  also have "drop (Suc dst + n) ?ys = drop (Suc dst + n) xs"
    by simp
  also have "(take dst xs @ [xs ! src]) @ take n (drop (Suc src) xs) @ drop (Suc dst + n) xs =
      take dst xs @ take (Suc n) (drop src xs) @ drop (dst + Suc n) xs"
    using 2 by (simp add: Cons_nth_drop_Suc [symmetric])
  finally show ?case .
qed

lemma content_eq_window:
  assumes "unat (readerIndex b') + length xs = unat (writerIndex b')"
    and "storage b' = pre @ xs @ post" and "length pre = unat (readerIndex b')"
  shows "content b' = xs"
  using assms by (simp add: content_def)

lemma storage_split:
  assumes "buffer_inv b"
  shows "storage b = take (unat (readerIndex b)) (storage b) @ content b
           @ drop (unat (writerIndex b)) (storage b)"
proof -
  have "content b @ drop (unat (writerIndex b)) (storage b) = drop (unat (readerIndex b)) (storage b)"
    using buffer_invD [OF assms] take_drop_append
      [of "unat (writerIndex b) - unat (readerIndex b)" "unat (readerIndex b)" "storage b"]
    by (simp add: content_def)
  then show ?thesis by simp
qed

subsection \<open>Retrieving\<close>

lemma retrieveAll_inv: "buffer_inv b \<Longrightarrow> buffer_inv (retrieveAll b)"
  by (simp add: retrieveAll_def buffer_inv_def)

lemma content_retrieveAll [simp]: "content (retrieveAll b) = []"
  by (simp add: retrieveAll_def content_def)

lemma retrieve_less:
  assumes "buffer_inv b" and "len < readableBytes b"
  shows "unat (readerIndex (retrieve len b)) = unat (readerIndex b) + unat len"
proof -
  have "unat len < unat (writerIndex b) - unat (readerIndex b)"
    using assms by (simp add: word_less_nat_alt unat_readable)
  then have "unat (readerIndex b) + unat len < 2 ^ 64"
    using unat_lt_size [of "writerIndex b"] by linarith
  then show ?thesis using assms by (simp add: retrieve_def unat_add_size)
qed

lemma retrieve_inv [inv_intro]: "buffer_inv b \<Longrightarrow> buffer_inv (retrieve len b)"
proof (cases "len < readableBytes b")
  case True
  assume inv: "buffer_inv b"
  with True have "unat len < unat (writerIndex b) - unat (readerIndex b)"
    by (simp add: word_less_nat_alt unat_readable)
  with inv True buffer_invD [OF inv] show ?thesis
    using retrieve_less [OF inv True] by (simp add: buffer_inv_def retrieve_def)
next
  case False
  assume "buffer_inv b"
  then show ?thesis using False retrieveAll_inv by (simp add: retrieve_def)
qed

lemma content_retrieve:
  assumes "buffer_inv b"
  shows "content (retrieve len b) = drop (unat len) (content b)"
proof (cases "len < readableBytes b")
  case True
  then have "storage (retrieve len b) = storage b" "writerIndex (retrieve len b) = writerIndex b"
    by (simp_all add: retrieve_def)
  then show ?thesis
    using retrieve_less [OF assms True]
    by (simp add: content_def drop_take add.commute)
next
  case False
  then have "length (content b) \<le> unat len"
    using assms by (simp add: length_content word_less_nat_alt)
  with False show ?thesis by (simp add: retrieve_def)
qed

lemma bytes_at_content:
  assumes "buffer_inv b"
  shows "bytes_at (peek b) (readableBytes b) b = Inr (content b)"
  using buffer_invD [OF assms] assms
  by (simp add: bytes_at_def peek_def unat_readable content_def)

subsection \<open>Making space and appending\<close>

lemma vector_resize_grow:
  assumes "unat n \<le> vector_max" and "length xs \<le> unat n"
  shows "vector_resize n xs = Inr (xs @ replicate (unat n - length xs) 0)"
  using assms by (simp add: vector_resize_def)

lemma std_copy_within_move:
  assumes "unat l \<le> length xs" and "f \<le> l" and "d < f"
  shows "std_copy_within f l d xs =
    Inr (take (unat d) xs @ take (unat l - unat f) (drop (unat f) xs)
         @ drop (unat d + (unat l - unat f)) xs)"
proof -
  let ?n = "unat l - unat f"
  have df: "unat d \<le> unat f" and fl: "unat f \<le> unat l" and nfd: "\<not> f \<le> d"
    using assms by (simp_all add: word_less_nat_alt word_le_nat_alt)
  have "copy_loop ?n (unat f) (unat d) xs =
      take (unat d) xs @ take ?n (drop (unat f) xs) @ drop (unat d + ?n) xs"
    by (rule copy_loop_eq) (use df fl assms in simp_all)
  moreover have "unat d + ?n \<le> length xs"
    using df fl assms by linarith
  ultimately show ?thesis
    using assms nfd by (simp add: std_copy_within_def Let_def)
qed

text \<open>When making space fails, moves the data to the front, or grows the vector.\<close>

lemma makeSpace_grow:
  assumes inv: "buffer_inv b" and len: "unat len \<le> vector_max"
    and small: "length (storage b) - unat (writerIndex b) + unat (readerIndex b) < unat len + 8"
    and fits: "unat (writerIndex b) + unat len \<le> vector_max"
    and grows: "length (storage b) < unat (writerIndex b) + unat len"
  shows "makeSpace len b = Inr (b\<lparr>storage := storage b
           @ replicate (unat (writerIndex b) + unat len - length (storage b)) 0\<rparr>)"
proof -
  have "unat (len + kCheapPrepend) = unat len + 8"
    by (subst unat_add_size) (use len in \<open>simp_all add: vector_max_def\<close>)
  with inv small have "writableBytes b + prependableBytes b < len + kCheapPrepend"
    by (simp add: word_less_nat_alt unat_room)
  moreover have u: "unat (writerIndex b + len) = unat (writerIndex b) + unat len"
    by (rule unat_add_size) (use fits in \<open>simp add: vector_max_def\<close>)
  moreover have "vector_resize (writerIndex b + len) (storage b) =
      Inr (storage b @ replicate (unat (writerIndex b) + unat len - length (storage b)) 0)"
    by (subst vector_resize_grow) (use u fits grows in simp_all)
  ultimately show ?thesis by (simp add: makeSpace_def)
qed

lemma makeSpace_too_long:
  assumes inv: "buffer_inv b" and len: "unat len \<le> vector_max"
    and small: "length (storage b) - unat (writerIndex b) + unat (readerIndex b) < unat len + 8"
    and big: "vector_max < unat (writerIndex b) + unat len"
  shows "makeSpace len b = Inl (LengthError ''vector::resize'')"
proof -
  have "unat (len + kCheapPrepend) = unat len + 8"
    by (subst unat_add_size) (use len in \<open>simp_all add: vector_max_def\<close>)
  with inv small have "writableBytes b + prependableBytes b < len + kCheapPrepend"
    by (simp add: word_less_nat_alt unat_room)
  moreover have "unat (writerIndex b + len) = unat (writerIndex b) + unat len"
    by (rule unat_add_size) (use buffer_invD [OF inv] len in \<open>simp add: vector_max_def\<close>)
  ultimately show ?thesis using big by (simp add: makeSpace_def vector_resize_def)
qed

definition moved :: "buffer \<Rightarrow> buffer" where
  "moved b = b\<lparr>
     storage := take 8 (storage b) @ content b @ drop (8 + length (content b)) (storage b),
     readerIndex := kCheapPrepend,
     writerIndex := kCheapPrepend + readableBytes b\<rparr>"

lemma makeSpace_move:
  assumes inv: "buffer_inv b" and len: "unat len \<le> vector_max"
    and room: "unat len + 8 \<le> length (storage b) - unat (writerIndex b) + unat (readerIndex b)"
    and tight: "length (storage b) - unat (writerIndex b) < unat len"
  shows "makeSpace len b = Inr (moved b)"
proof -
  have "unat (len + kCheapPrepend) = unat len + 8"
    by (subst unat_add_size) (use len in \<open>simp_all add: vector_max_def\<close>)
  with inv room have noresize: "\<not> writableBytes b + prependableBytes b < len + kCheapPrepend"
    by (simp add: word_less_nat_alt unat_room)
  have "std_copy_within (readerIndex b) (writerIndex b) kCheapPrepend (storage b) =
      Inr (take 8 (storage b) @ content b @ drop (8 + length (content b)) (storage b))"
    using std_copy_within_move [of "writerIndex b" "storage b" "readerIndex b" kCheapPrepend]
      buffer_invD [OF inv] room tight
    by (simp add: word_le_nat_alt word_less_nat_alt content_def length_content [OF inv]
        unat_readable [OF inv])
  with noresize show ?thesis
    by (simp add: makeSpace_def Let_def moved_def)
qed

lemma moved_facts:
  assumes inv: "buffer_inv b"
  shows "buffer_inv (moved b)" "content (moved b) = content b"
    "length (storage (moved b)) = length (storage b)"
    "unat (writerIndex (moved b)) = 8 + length (content b)"
proof -
  have wi: "unat (writerIndex (moved b)) = 8 + length (content b)"
    using buffer_invD [OF inv]
    by (simp add: moved_def length_content inv unat_readable unat_add_size)
  have room: "8 + length (content b) \<le> length (storage b)"
    using buffer_invD [OF inv] by (simp add: length_content inv unat_readable)
  then show len: "length (storage (moved b)) = length (storage b)"
    by (simp add: moved_def)
  show "unat (writerIndex (moved b)) = 8 + length (content b)" by (rule wi)
  show "buffer_inv (moved b)"
    using wi room len inv by (simp add: buffer_inv_def) (simp add: moved_def)
  show "content (moved b) = content b"
    by (rule content_eq_window [where pre = "take 8 (storage b)"
          and post = "drop (8 + length (content b)) (storage b)"])
      (use wi room in \<open>simp_all add: moved_def\<close>)
qed

lemma grown_facts:
  assumes inv: "buffer_inv b" and "length (storage b) + k \<le> vector_max"
  shows "buffer_inv (b\<lparr>storage := storage b @ replicate k 0\<rparr>)"
    "content (b\<lparr>storage := storage b @ replicate k 0\<rparr>) = content b"
  using assms buffer_invD [OF inv] by (simp_all add: buffer_inv_def content_def)

text \<open>The room test of \<open>makeSpace\<close> and \<open>ensureWritableBytes\<close>, on natural numbers.\<close>

definition has_room :: "nat \<Rightarrow> buffer \<Rightarrow> bool" where
  "has_room n b \<longleftrightarrow>
     n \<le> length (storage b) - unat (writerIndex b) \<or>
     n + 8 \<le> length (storage b) - unat (writerIndex b) + unat (readerIndex b) \<or>
     unat (writerIndex b) + n \<le> vector_max"

lemma ensureWritableBytes_ok:
  assumes inv: "buffer_inv b" and len: "unat len \<le> vector_max" and room: "has_room (unat len) b"
  shows "\<exists>b'. ensureWritableBytes len b = Inr b' \<and> buffer_inv b' \<and> content b' = content b \<and>
           unat (writerIndex b') + unat len \<le> length (storage b') \<and>
           unat (writerIndex b') \<le> unat (writerIndex b)"
proof -
  let ?W = "unat (writerIndex b)" and ?R = "unat (readerIndex b)" and ?S = "length (storage b)"
  note invD = buffer_invD [OF inv]
  have assertion: "len \<le> writableBytes b'"
    if "buffer_inv b'" "unat (writerIndex b') + unat len \<le> length (storage b')" for b'
    using that by (simp add: word_le_nat_alt unat_writable)
  consider (direct) "unat len \<le> ?S - ?W"
    | (move) "?S - ?W < unat len" "unat len + 8 \<le> ?S - ?W + ?R"
    | (grow) "?S - ?W < unat len" "?S - ?W + ?R < unat len + 8" "?W + unat len \<le> vector_max"
    using room unfolding has_room_def not_le [symmetric] by blast
  then show ?thesis
  proof cases
    case direct
    with invD have "?W + unat len \<le> ?S" by linarith
    with direct inv assertion [OF inv] show ?thesis
      by (auto simp: ensureWritableBytes_def word_less_nat_alt unat_writable)
  next
    case move
    have "unat (writerIndex (moved b)) + unat len \<le> length (storage (moved b))"
      using move invD moved_facts(3,4) [OF inv] by (simp add: length_content inv unat_readable)
    moreover have "unat (writerIndex (moved b)) \<le> ?W"
      using invD moved_facts(4) [OF inv] by (simp add: length_content inv unat_readable)
    ultimately show ?thesis
      using move makeSpace_move [OF inv len move(2,1)] moved_facts [OF inv] assertion [of "moved b"]
      by (simp add: ensureWritableBytes_def word_less_nat_alt unat_writable inv)
  next
    case grow
    let ?k = "?W + unat len - ?S"
    let ?b' = "b\<lparr>storage := storage b @ replicate ?k 0\<rparr>"
    have lt: "?S < ?W + unat len" using grow(1) by linarith
    then have "?S + ?k \<le> vector_max" using grow(3) by linarith
    from grown_facts [OF inv this] have b': "buffer_inv ?b'" "content ?b' = content b" .
    have fit: "unat (writerIndex ?b') + unat len \<le> length (storage ?b')" using lt by simp
    from makeSpace_grow [OF inv len grow(2,3) lt] grow(1) b' fit assertion [OF b'(1) fit]
    show ?thesis
      by (simp add: ensureWritableBytes_def word_less_nat_alt unat_writable inv)
  qed
qed

lemma ensureWritableBytes_fails:
  assumes inv: "buffer_inv b" and len: "unat len \<le> vector_max" and room: "\<not> has_room (unat len) b"
  shows "ensureWritableBytes len b = Inl (LengthError ''vector::resize'')"
proof -
  have "writableBytes b < len"
    using room by (simp add: has_room_def word_less_nat_alt unat_writable inv)
  moreover have "makeSpace len b = Inl (LengthError ''vector::resize'')"
    by (rule makeSpace_too_long [OF inv len]) (use room in \<open>auto simp: has_room_def\<close>)
  ultimately show ?thesis by (simp add: ensureWritableBytes_def)
qed

lemma store_content:
  assumes inv: "buffer_inv b" and fit: "unat (writerIndex b) + length xs \<le> length (storage b)"
  shows "\<exists>v. store_at (beginWrite b) xs (storage b) = Inr v \<and> length v = length (storage b) \<and>
     buffer_inv (b\<lparr>storage := v, writerIndex := writerIndex b + of_nat (length xs)\<rparr>) \<and>
     content (b\<lparr>storage := v, writerIndex := writerIndex b + of_nat (length xs)\<rparr>) = content b @ xs"
proof -
  let ?W = "unat (writerIndex b)"
  let ?v = "take ?W (storage b) @ xs @ drop (?W + length xs) (storage b)"
  let ?b' = "b\<lparr>storage := ?v, writerIndex := writerIndex b + of_nat (length xs)\<rparr>"
  note invD = buffer_invD [OF inv]
  have w: "unat (writerIndex b + of_nat (length xs)) = ?W + length xs"
    using invD fit by (simp add: unat_add_size unat_of_nat_size)
  have st: "store_at (beginWrite b) xs (storage b) = Inr ?v"
    using fit by (simp add: store_at_def beginWrite_def)
  have len: "length ?v = length (storage b)" using fit by simp
  have inv': "buffer_inv ?b'"
    using inv invD fit w len by (simp add: buffer_inv_def)
  have "take ?W (storage b) = take (unat (readerIndex b)) (storage b) @ content b"
    using invD by (simp add: content_def take_add [symmetric])
  then have "content ?b' = content b @ xs"
    by (intro content_eq_window [where pre = "take (unat (readerIndex b)) (storage b)"
          and post = "drop (?W + length xs) (storage b)"])
      (use invD w length_content [OF inv] unat_readable [OF inv] in simp_all)
  with st len inv' show ?thesis by blast
qed

lemma append_buf_ok:
  assumes inv: "buffer_inv b" and len: "length xs \<le> vector_max" and room: "has_room (length xs) b"
  shows "\<exists>b'. append_buf xs b = Inr b' \<and> buffer_inv b' \<and> content b' = content b @ xs \<and>
           unat (writerIndex b') \<le> unat (writerIndex b) + length xs"
proof -
  have u: "unat (of_nat (length xs) :: size_t) = length xs"
    by (rule unat_of_nat_size) (use len in \<open>simp add: vector_max_def\<close>)
  from ensureWritableBytes_ok [of b "of_nat (length xs)"] inv len room u
  obtain b' where b': "ensureWritableBytes (of_nat (length xs)) b = Inr b'" "buffer_inv b'"
      "content b' = content b" "unat (writerIndex b') + length xs \<le> length (storage b')"
      "unat (writerIndex b') \<le> unat (writerIndex b)"
    by auto
  have "unat (writerIndex b' + of_nat (length xs)) = unat (writerIndex b') + length xs"
    by (subst unat_add_size) (use u b'(4) buffer_invD(4) [OF b'(2)] in simp_all)
  with store_content [OF b'(2,4)] b' show ?thesis
    by (auto simp: append_buf_def Let_def hasWritten_def)
qed

lemma append_buf_fails:
  assumes inv: "buffer_inv b" and len: "length xs \<le> vector_max" and room: "\<not> has_room (length xs) b"
  shows "append_buf xs b = Inl (LengthError ''vector::resize'')"
proof -
  have u: "unat (of_nat (length xs) :: size_t) = length xs"
    by (rule unat_of_nat_size) (use len in \<open>simp add: vector_max_def\<close>)
  with ensureWritableBytes_fails [of b "of_nat (length xs)"] inv len room show ?thesis
    by (simp add: append_buf_def Let_def)
qed

subsection \<open>The system-call wrappers\<close>

lemma of_int_size: "0 \<le> n \<Longrightarrow> (of_int n :: size_t) = of_nat (nat n)"
  by (metis of_int_of_nat_eq nat_0_le)

lemma readFd_iov_sum:
  "sum_list (readFd_iov b) < 2 ^ 63 + extrabuf_size \<or> \<not> buffer_inv b"
  using buffer_invD(4) [of b] by (auto simp: readFd_iov_def unat_writable extrabuf_size_def)

lemma readFd_fits:
  assumes inv: "buffer_inv b" and r: "sys_readv sys fd (readFd_iov b) = (n, e, bs)"
    and n: "n \<le> 0 \<or> nat n \<le> unat (writableBytes b)" and len: "length bs = nat n"
  shows "\<exists>b'. readFd sys fd b = Inr (n, if n < 0 then Some e else None, b') \<and>
     buffer_inv b' \<and> content b' = content b @ bs \<and> length (storage b') = length (storage b)"
proof -
  have fit: "unat (writerIndex b) + length bs \<le> length (storage b)"
    using n len buffer_invD(3) [OF inv] by (auto simp: unat_writable inv)
  have tk: "take (unat (writableBytes b)) bs = bs"
    using n len by (auto simp: take_all_iff)
  have le: "length bs < 2 ^ 64" using fit buffer_invD(4) [OF inv] by simp
  have small: "of_int n \<le> writableBytes b" if "0 \<le> n"
  proof -
    have "unat (of_int n :: size_t) = length bs"
      unfolding of_int_size [OF that] len [symmetric] by (rule unat_of_nat_size [OF le])
    then show ?thesis using fit by (simp add: word_le_nat_alt unat_writable [OF inv])
  qed
  from store_content [OF inv fit] obtain v where
    v: "store_at (beginWrite b) bs (storage b) = Inr v" "length v = length (storage b)"
       "buffer_inv (b\<lparr>storage := v, writerIndex := writerIndex b + of_nat (length bs)\<rparr>)"
       "content (b\<lparr>storage := v, writerIndex := writerIndex b + of_nat (length bs)\<rparr>) = content b @ bs"
    by blast
  show ?thesis
  proof (cases "n < 0")
    case True
    then have "bs = []" using len by simp
    with True v tk have "readFd sys fd b = Inr (n, Some e, b\<lparr>storage := v\<rparr>)"
      unfolding readFd_def Let_def r prod.case by simp
    with True v \<open>bs = []\<close> show ?thesis by simp
  next
    case False
    then have on: "of_int n = (of_nat (length bs) :: size_t)"
      unfolding len by (intro of_int_size) simp
    have "of_int n \<le> writableBytes b" using False by (intro small) simp
    with False v(1) tk have "readFd sys fd b =
        Inr (n, None, b\<lparr>storage := v, writerIndex := writerIndex b + of_int n\<rparr>)"
      unfolding readFd_def Let_def r prod.case by simp
    with False v(2-4) show ?thesis unfolding on by simp
  qed
qed

lemma readFd_spills:
  assumes inv: "buffer_inv b" and r: "sys_readv sys fd (readFd_iov b) = (n, e, bs)"
    and n: "unat (writableBytes b) < nat n" "nat n \<le> unat (writableBytes b) + extrabuf_size"
    and len: "length bs = nat n"
  shows "(\<exists>b'. readFd sys fd b = Inr (n, None, b') \<and> buffer_inv b' \<and> content b' = content b @ bs) \<or>
    readFd sys fd b = Inl (LengthError ''vector::resize'') \<and> vector_max < length (storage b) + extrabuf_size"
proof -
  let ?w = "unat (writableBytes b)"
  let ?first = "take ?w bs" and ?extra = "drop ?w bs"
  have w: "unat (writerIndex b) + ?w = length (storage b)"
    using buffer_invD(3) [OF inv] by (simp add: unat_writable inv)
  have lf: "length ?first = ?w" using n len by simp
  from store_content [OF inv, of ?first] lf w obtain v where
    v: "store_at (beginWrite b) ?first (storage b) = Inr v" "length v = length (storage b)"
       "buffer_inv (b\<lparr>storage := v, writerIndex := writerIndex b + of_nat ?w\<rparr>)"
       "content (b\<lparr>storage := v, writerIndex := writerIndex b + of_nat ?w\<rparr>) = content b @ ?first"
    by auto
  define b1 where "b1 = b\<lparr>storage := v, writerIndex := buffer_size (b\<lparr>storage := v\<rparr>)\<rparr>"
  have wi: "writerIndex b + of_nat ?w = buffer_size (b\<lparr>storage := v\<rparr>)"
    using v(2) by (simp add: buffer_size_def writableBytes_def)
  have b1: "buffer_inv b1" "content b1 = content b @ ?first" "length (storage b1) = length (storage b)"
    using v wi by (simp_all add: b1_def)
  have w1: "unat (writerIndex b1) = length (storage b)"
    using b1(3) v(2) unat_buffer_size [OF inv] by (simp add: b1_def buffer_size_def)
  have nn: "0 \<le> n" using n(1) by linarith
  have small: "nat n < 2 ^ 64"
  proof -
    have "nat n \<le> length (storage b) + extrabuf_size" using n(2) w by linarith
    also have "\<dots> < 2 ^ 64" using buffer_invD(4) [OF inv] by (simp add: extrabuf_size_def)
    finally show ?thesis .
  qed
  have on: "(of_int n :: size_t) = of_nat (nat n)" using nn by (rule of_int_size)
  have un: "unat (of_int n :: size_t) = nat n"
    unfolding on by (rule unat_of_nat_size [OF small])
  have big: "\<not> of_int n \<le> writableBytes b" using un n by (simp add: word_le_nat_alt)
  then have rest: "unat (of_int n - writableBytes b) = length ?extra"
    using un len by (subst unat_diff_size) simp_all
  have le: "length ?extra \<le> extrabuf_size" using n len by simp
  have mx: "length ?extra \<le> vector_max" using le by (simp add: extrabuf_size_def vector_max_def)
  have tk: "take (length ?extra) (?extra @ replicate (extrabuf_size - length ?extra) 0) = ?extra"
    by simp
  have run: "readFd sys fd b = bindE (append_buf ?extra b1) (\<lambda>b2. Inr (n, None, b2))"
    using nn big le tk unfolding readFd_def Let_def r prod.case v(1) bindE_simps rest b1_def
    by simp
  show ?thesis
  proof (cases "has_room (length ?extra) b1")
    case True
    from append_buf_ok [OF b1(1) mx True] obtain b2 where
      b2: "append_buf ?extra b1 = Inr b2" "buffer_inv b2" "content b2 = content b1 @ ?extra" by blast
    moreover have "content b2 = content b @ bs" using b2(3) b1(2) by simp
    ultimately show ?thesis using run by simp
  next
    case False
    then have "vector_max < length (storage b) + extrabuf_size"
      using w1 le by (simp add: has_room_def)
    then show ?thesis using run append_buf_fails [OF b1(1) mx False] by simp
  qed
qed

lemma readFd_result:
  assumes "posix_io sys" and inv: "buffer_inv b"
  obtains n e bs b' where "sys_readv sys fd (readFd_iov b) = (n, e, bs)" "length bs = nat n"
      "readFd sys fd b = Inr (n, if n < 0 then Some e else None, b')" "buffer_inv b'"
      "content b' = content b @ bs"
    | "readFd sys fd b = Inl (LengthError ''vector::resize'')"
      "vector_max < length (storage b) + extrabuf_size"
proof -
  obtain n e bs where r: "sys_readv sys fd (readFd_iov b) = (n, e, bs)" by (metis prod_cases3)
  note len = posix_io.readv_len [OF assms(1) r]
  show thesis
  proof (cases "n \<le> 0 \<or> nat n \<le> unat (writableBytes b)")
    case True
    from readFd_fits [OF inv r True len] that(1) r len show thesis by blast
  next
    case False
    then have n: "unat (writableBytes b) < nat n" "\<not> n < 0" by auto
    have "sum_list (readFd_iov b) \<le> unat (writableBytes b) + extrabuf_size" by (simp add: readFd_iov_def)
    then have "nat n \<le> unat (writableBytes b) + extrabuf_size"
      using posix_io.readv_le [OF assms(1) r] by linarith
    from readFd_spills [OF inv r n(1) this len] that r len n(2) show thesis by auto
  qed
qed

lemma writeFd_eq:
  assumes "buffer_inv b" and "sys_write sys fd (content b) = (n, e)"
  shows "writeFd sys fd b =
    Inr (n, if n < 0 then Some e else None, if n > 0 then retrieve (of_int n) b else b)"
  using assms by (simp add: writeFd_def bytes_at_content)

subsection \<open>The interface: a bounded byte queue\<close>

text \<open>
  What the connection code relies on: bytes go in at one end and come out at the other, in order,
  and nothing fails while the fill level (the write position, here) stays within the capacity.
\<close>

datatype queue_op = Put "byte list" | Get size_t

fun queue_run ::
    "(byte list \<Rightarrow> 'b \<Rightarrow> fault + 'b) \<Rightarrow> (size_t \<Rightarrow> 'b \<Rightarrow> fault + byte list \<times> 'b) \<Rightarrow>
     queue_op list \<Rightarrow> 'b \<Rightarrow> fault + byte list \<times> 'b" where
  "queue_run put get [] b = Inr ([], b)"
| "queue_run put get (Put xs # ops) b = bindE (put xs b) (queue_run put get ops)"
| "queue_run put get (Get n # ops) b =
     bindE (get n b) (\<lambda>(ys, b').
     bindE (queue_run put get ops b') (\<lambda>(zs, b''). Inr (ys @ zs, b'')))"

fun puts :: "queue_op list \<Rightarrow> byte list" where
  "puts [] = []"
| "puts (Put xs # ops) = xs @ puts ops"
| "puts (Get n # ops) = puts ops"

text \<open>Every \<open>Get\<close> asks for no more than the queue, holding \<open>k\<close> bytes at the start, has by then.\<close>

fun gets_ok :: "queue_op list \<Rightarrow> nat \<Rightarrow> bool" where
  "gets_ok [] k = True"
| "gets_ok (Put xs # ops) k = gets_ok ops (k + length xs)"
| "gets_ok (Get n # ops) k = (unat n \<le> k \<and> gets_ok ops (k - unat n))"

locale byte_queue =
  fixes qinv :: "'b \<Rightarrow> bool"
    and items :: "'b \<Rightarrow> byte list"
    and level :: "'b \<Rightarrow> nat"
    and cap :: nat
    and put :: "byte list \<Rightarrow> 'b \<Rightarrow> fault + 'b"
    and get :: "size_t \<Rightarrow> 'b \<Rightarrow> fault + byte list \<times> 'b"
  assumes put_ok: "qinv b \<Longrightarrow> level b + length xs \<le> cap \<Longrightarrow>
      \<exists>b'. put xs b = Inr b' \<and> qinv b' \<and> items b' = items b @ xs \<and> level b' \<le> level b + length xs"
    and get_ok: "qinv b \<Longrightarrow> unat n \<le> length (items b) \<Longrightarrow>
      \<exists>b'. get n b = Inr (take (unat n) (items b), b') \<and> qinv b' \<and>
        items b' = drop (unat n) (items b) \<and> level b' \<le> level b"
begin

lemma run_ok:
  "qinv b \<Longrightarrow> level b + length (puts ops) \<le> cap \<Longrightarrow> gets_ok ops (length (items b)) \<Longrightarrow>
     \<exists>out b'. queue_run put get ops b = Inr (out, b') \<and> qinv b' \<and>
       out @ items b' = items b @ puts ops \<and> level b' \<le> level b + length (puts ops)"
proof (induction ops arbitrary: b)
  case Nil
  then show ?case by simp
next
  case (Cons oper ops)
  show ?case
  proof (cases oper)
    case (Put xs)
    with Cons.prems put_ok [of b xs] obtain b1 where
      b1: "put xs b = Inr b1" "qinv b1" "items b1 = items b @ xs" "level b1 \<le> level b + length xs"
      by auto
    with Put Cons.prems Cons.IH [of b1] show ?thesis by fastforce
  next
    case (Get n)
    with Cons.prems get_ok [of b n] obtain b1 where
      b1: "get n b = Inr (take (unat n) (items b), b1)" "qinv b1"
          "items b1 = drop (unat n) (items b)" "level b1 \<le> level b"
      by auto
    with Get Cons.prems Cons.IH [of b1] obtain out b' where
      r: "queue_run put get ops b1 = Inr (out, b')" "qinv b'" "out @ items b' = items b1 @ puts ops"
         "level b' \<le> level b1 + length (puts ops)"
      by auto
    have "take (unat n) (items b) @ out @ items b' = items b @ puts ops"
      unfolding r(3) b1(3) by simp
    with Get b1 r show ?thesis by auto
  qed
qed

end

lemma level_retrieve: "buffer_inv b \<Longrightarrow> unat (writerIndex (retrieve n b)) \<le> unat (writerIndex b)"
  using buffer_invD(1,2) [of b] by (auto simp: retrieve_def retrieveAll_def)

lemma bytes_at_prefix:
  assumes "buffer_inv b" and "unat n \<le> length (content b)"
  shows "bytes_at (peek b) n b = Inr (take (unat n) (content b))"
proof -
  have "unat n \<le> unat (writerIndex b) - unat (readerIndex b)"
    using assms by (simp add: length_content unat_readable)
  with buffer_invD(2,3) [OF assms(1)] show ?thesis
    by (simp add: bytes_at_def peek_def content_def min_absorb1)
qed

lemma retrieveAsString_ok:
  assumes "buffer_inv b" and "unat n \<le> length (content b)"
  shows "retrieveAsString n b = Inr (take (unat n) (content b), retrieve n b)"
  using bytes_at_prefix [OF assms] by (simp add: retrieveAsString_def)

lemma append_buf_level:
  assumes "buffer_inv b" and "unat (writerIndex b) + length xs \<le> vector_max"
  shows "\<exists>b'. append_buf xs b = Inr b' \<and> buffer_inv b' \<and> content b' = content b @ xs \<and>
           unat (writerIndex b') \<le> unat (writerIndex b) + length xs"
  by (rule append_buf_ok) (use assms in \<open>simp_all add: has_room_def\<close>)

interpretation bq: byte_queue buffer_inv content "\<lambda>b. unat (writerIndex b)" vector_max
    append_buf retrieveAsString
proof unfold_locales
  fix b :: buffer and xs :: "byte list"
  assume "buffer_inv b" "unat (writerIndex b) + length xs \<le> vector_max"
  then show "\<exists>b'. append_buf xs b = Inr b' \<and> buffer_inv b' \<and> content b' = content b @ xs \<and>
      unat (writerIndex b') \<le> unat (writerIndex b) + length xs"
    by (rule append_buf_level)
next
  fix b :: buffer and n :: size_t
  assume "buffer_inv b" "unat n \<le> length (content b)"
  then show "\<exists>b'. retrieveAsString n b = Inr (take (unat n) (content b), b') \<and> buffer_inv b' \<and>
      content b' = drop (unat n) (content b) \<and> unat (writerIndex b') \<le> unat (writerIndex b)"
    by (simp add: retrieveAsString_ok retrieve_inv content_retrieve level_retrieve)
qed

subsection \<open>Properties\<close>

lemma Buffer_ctor_ok:
  "unat n + 8 \<le> vector_max \<Longrightarrow> \<exists>b. Buffer_ctor n = Inr b \<and> buffer_inv b \<and> content b = []
     \<and> unat (writableBytes b) = unat n"
proof -
  assume n: "unat n + 8 \<le> vector_max"
  have "unat (kCheapPrepend + n) = 8 + unat n"
    by (subst unat_add_size) (use n in \<open>simp_all add: vector_max_def\<close>)
  with n have *: "vector_resize (kCheapPrepend + n) [] = Inr (replicate (8 + unat n) 0)"
    by (simp add: vector_resize_def)
  let ?b = "\<lparr>storage = replicate (8 + unat n) 0, readerIndex = kCheapPrepend,
             writerIndex = kCheapPrepend\<rparr>"
  have "buffer_inv ?b" using n by (simp add: buffer_inv_def)
  moreover from this have "unat (writableBytes ?b) = unat n" by (simp add: unat_writable)
  moreover have "content ?b = []" by (simp add: content_def)
  ultimately show ?thesis using * by (simp add: Buffer_ctor_def)
qed

text \<open>
  C12: \<open>append\<close> refines list append. On a well-formed buffer it either stores all the bytes
  after the ones that are there, keeping the buffer well-formed, or throws \<open>length_error\<close>; it
  throws exactly when neither the free tail, nor the free tail and the freed front together, nor
  a grown vector can hold them. No assertion fails and no access is out of range.
\<close>

theorem append_refines:
  assumes "buffer_inv b" and "length xs \<le> vector_max"
  shows "if has_room (length xs) b
         then \<exists>b'. append_buf xs b = Inr b' \<and> buffer_inv b' \<and> content b' = content b @ xs
         else append_buf xs b = Inl (LengthError ''vector::resize'')"
  using append_buf_ok [OF assms] append_buf_fails [OF assms] by auto

definition small_buffer :: buffer where
  "small_buffer = \<lparr>storage = [0,0,0,0,0,0,0,0,0,0,7,9], readerIndex = 10, writerIndex = 12\<rparr>"

lemma small_buffer_inv: "buffer_inv small_buffer"
  by (simp add: buffer_inv_def small_buffer_def vector_max_def)

theorem append_refines_witness:
  "\<exists>b'. append_buf [1, 2] small_buffer = Inr b' \<and> buffer_inv b' \<and> content b' = [7, 9, 1, 2]"
proof -
  have len: "length [1, 2 :: byte] \<le> vector_max" by (simp add: vector_max_def)
  have room: "has_room (length [1, 2 :: byte]) small_buffer"
    by (simp add: has_room_def small_buffer_def)
  have "content small_buffer = [7, 9]" by (simp add: content_def small_buffer_def)
  with append_refines [OF small_buffer_inv len] room show ?thesis by simp
qed

text \<open>
  C13: the buffer is a first-in first-out byte stream. Through any sequence of appends and
  reads that never asks for more than is there, within the maximal vector size, nothing fails and
  the bytes read followed by the bytes left are exactly the initial bytes followed by those appended.
\<close>

theorem buffer_is_stream:
  assumes "buffer_inv b" and "unat (writerIndex b) + length (puts ops) \<le> vector_max"
    and "gets_ok ops (length (content b))"
  shows "\<exists>out b'. queue_run append_buf retrieveAsString ops b = Inr (out, b') \<and> buffer_inv b' \<and>
           out @ content b' = content b @ puts ops"
  using bq.run_ok [OF assms] by blast

theorem buffer_is_stream_witness:
  "\<exists>out b'. queue_run append_buf retrieveAsString [Put [1, 2, 3], Get 4, Put [4]] small_buffer
       = Inr (out, b') \<and> buffer_inv b' \<and> out @ content b' = [7, 9, 1, 2, 3, 4]"
proof -
  let ?ops = "[Put [1, 2, 3], Get 4, Put [4]]"
  have c: "content small_buffer = [7, 9]" by (simp add: content_def small_buffer_def)
  have "gets_ok ?ops (length (content small_buffer))" by (simp add: c)
  moreover have "unat (writerIndex small_buffer) + length (puts ?ops) \<le> vector_max"
    by (simp add: small_buffer_def vector_max_def)
  ultimately show ?thesis using buffer_is_stream [OF small_buffer_inv, of ?ops] c by simp
qed

text \<open>
  C14: \<open>readFd\<close> loses nothing. Whatever \<open>readv\<close> answers within its contract, on a well-formed buffer
  with 64K left before the maximal vector size, \<open>readFd\<close> returns that answer, the bytes it
  delivered (across the free tail and the stack buffer) are appended to the content in
  order, and a call with less than 64K free takes in at most 131071 bytes.
\<close>

theorem readFd_appends:
  assumes "posix_io sys" and "buffer_inv b" and "length (storage b) + extrabuf_size \<le> vector_max"
    and "sys_readv sys fd (readFd_iov b) = (n, e, bs)"
  shows "(\<exists>b'. readFd sys fd b = Inr (n, if n < 0 then Some e else None, b') \<and> buffer_inv b' \<and>
            content b' = content b @ bs) \<and>
         (unat (writableBytes b) < extrabuf_size \<longrightarrow> n \<le> 131071)"
proof -
  note io = posix_io.readv_le [OF assms(1,4)] posix_io.readv_len [OF assms(1,4)]
  have iov: "sum_list (readFd_iov b) =
      (if unat (writableBytes b) < extrabuf_size then unat (writableBytes b) + extrabuf_size
       else unat (writableBytes b))"
    by (simp add: readFd_iov_def)
  have "n \<le> 131071" if "unat (writableBytes b) < extrabuf_size"
  proof -
    have "sum_list (readFd_iov b) \<le> 131071" using iov that by (simp add: extrabuf_size_def)
    with io(1) show ?thesis by linarith
  qed
  moreover have "\<exists>b'. readFd sys fd b = Inr (n, if n < 0 then Some e else None, b') \<and>
      buffer_inv b' \<and> content b' = content b @ bs"
    using assms(3,4) by (cases rule: readFd_result [OF assms(1,2), of fd]) auto
  ultimately show ?thesis by blast
qed

theorem readFd_appends_witness:
  "\<exists>b'. readFd (os_with 0 [1, 2, 3] []) 5 small_buffer = Inr (3, None, b') \<and> buffer_inv b' \<and>
     content b' = [7, 9, 1, 2, 3]"
proof -
  have c: "content small_buffer = [7, 9]" by (simp add: content_def small_buffer_def)
  have w: "unat (writableBytes small_buffer) = 0"
    by (simp add: writableBytes_def buffer_size_def small_buffer_def)
  have mx: "length (storage small_buffer) + extrabuf_size \<le> vector_max"
    by (simp add: small_buffer_def extrabuf_size_def vector_max_def)
  have r: "sys_readv (os_with 0 [1, 2, 3] []) 5 (readFd_iov small_buffer) = (3, EAGAIN, [1, 2, 3])"
    by (simp add: os_with_def readFd_iov_def w extrabuf_size_def)
  from readFd_appends [OF os_with_io.posix_io_axioms small_buffer_inv mx r] c
  show ?thesis by simp
qed

text \<open>
  \<open>writeFd\<close> hands \<open>write\<close> exactly the readable bytes and drops exactly the prefix the kernel
  accepted: the accepted bytes followed by what is left are the old content; on an error or a
  zero result nothing is dropped. No access is out of range.
\<close>

lemma writeFd_drops_accepted:
  assumes "posix_io sys" and "buffer_inv b" and "sys_write sys fd (content b) = (n, e)"
  shows "\<exists>b'. writeFd sys fd b = Inr (n, if n < 0 then Some e else None, b') \<and> buffer_inv b' \<and>
           take (nat n) (content b) @ content b' = content b"
proof -
  have n: "n \<le> int (length (content b))" by (rule posix_io.write_le [OF assms(1,3)])
  have "length (content b) < 2 ^ 64"
    unfolding length_content [OF assms(2)] by (rule unat_lt_size)
  then have u: "unat (of_int n :: size_t) = nat n" if "0 < n"
    unfolding of_int_size [OF less_imp_le [OF that]]
    using n by (intro unat_of_nat_size) linarith
  let ?b' = "if n > 0 then retrieve (of_int n) b else b"
  have "writeFd sys fd b = Inr (n, if n < 0 then Some e else None, ?b')"
    by (rule writeFd_eq [OF assms(2,3)])
  moreover have "take (nat n) (content b) @ content ?b' = content b"
    using u assms(2) by (simp add: content_retrieve)
  ultimately show ?thesis using assms(2) retrieve_inv by (intro exI [of _ ?b']) simp
qed

lemma writeFd_drops_accepted_witness:
  "\<exists>b'. writeFd (os_with 1 [] []) 5 small_buffer = Inr (1, None, b') \<and> buffer_inv b' \<and>
     [7] @ content b' = [7, 9]"
proof -
  have c: "content small_buffer = [7, 9]" by (simp add: content_def small_buffer_def)
  have w: "sys_write (os_with 1 [] []) 5 (content small_buffer) = (1, EAGAIN)"
    by (simp add: os_with_def c)
  from writeFd_drops_accepted [OF os_with_io.posix_io_axioms small_buffer_inv w] c
  show ?thesis by simp
qed

lemma append_in_place_aux:
  assumes inv: "buffer_inv b" and len: "length xs \<le> vector_max"
    and room: "length xs + 8 \<le> length (storage b) - unat (writerIndex b) + unat (readerIndex b)"
    and r: "append_buf xs b = Inr b'"
  shows "length (storage b') = length (storage b)"
proof -
  have u: "unat (of_nat (length xs) :: size_t) = length xs"
    by (rule unat_of_nat_size) (use len in \<open>simp add: vector_max_def\<close>)
  have e: "length (storage b1) = length (storage b)"
    if "ensureWritableBytes (of_nat (length xs)) b = Inr b1" for b1
  proof (cases "writableBytes b < of_nat (length xs)")
    case True
    then have "length (storage b) - unat (writerIndex b) < length xs"
      by (simp add: word_less_nat_alt unat_writable inv u)
    then have "makeSpace (of_nat (length xs)) b = Inr (moved b)"
      using makeSpace_move [OF inv, of "of_nat (length xs)"] len room u by simp
    with that True show ?thesis
      by (auto simp: ensureWritableBytes_def bindE_eq_Inr guardE_eq_Inr moved_facts(3) [OF inv])
  next
    case False
    with that show ?thesis by (auto simp: ensureWritableBytes_def bindE_eq_Inr guardE_eq_Inr)
  qed
  from r obtain b1 v where "ensureWritableBytes (of_nat (length xs)) b = Inr b1"
      "store_at (beginWrite b1) xs (storage b1) = Inr v"
      "b' = hasWritten (of_nat (length xs)) (b1\<lparr>storage := v\<rparr>)"
    by (auto simp: append_buf_def Let_def bindE_eq_Inr)
  with e show ?thesis by (auto simp: store_at_def hasWritten_def split: if_splits)
qed

text \<open>
  C15: space is reused before the vector grows. When the free tail and the freed front together
  (less the 8 reserved bytes) can hold the new bytes, \<open>append\<close> succeeds inside the vector it has,
  sliding the content to the front if it must.
\<close>

theorem append_reuses_space:
  assumes "buffer_inv b" and "length xs \<le> vector_max"
    and "length xs + 8 \<le> length (storage b) - unat (writerIndex b) + unat (readerIndex b)"
  shows "\<exists>b'. append_buf xs b = Inr b' \<and> length (storage b') = length (storage b) \<and>
           content b' = content b @ xs"
proof -
  have "has_room (length xs) b" using assms(3) by (simp add: has_room_def)
  then obtain b' where "append_buf xs b = Inr b'" "content b' = content b @ xs"
    using append_buf_ok [OF assms(1,2)] by blast
  then show ?thesis using append_in_place_aux [OF assms] by blast
qed

theorem append_reuses_space_witness:
  "\<exists>b'. append_buf [5, 6] small_buffer = Inr b' \<and> length (storage b') = 12 \<and>
     content b' = [7, 9, 5, 6]"
proof -
  have "content small_buffer = [7, 9]" "length (storage small_buffer) = 12"
    by (simp_all add: content_def small_buffer_def)
  moreover have "length [5, 6 :: byte] + 8 \<le> length (storage small_buffer)
      - unat (writerIndex small_buffer) + unat (readerIndex small_buffer)"
    by (simp add: small_buffer_def)
  moreover have "length [5, 6 :: byte] \<le> vector_max" by (simp add: vector_max_def)
  ultimately show ?thesis using append_reuses_space [OF small_buffer_inv, of "[5, 6]"] by simp
qed

text \<open>
  \<open>retrieveAsString\<close> does not check its argument. Asked for more bytes than are readable it
  either reads past the end of the vector or, when the vector is long enough, returns a string
  that continues after the content with bytes that were never received, and empties the buffer.
\<close>

lemma retrieveAsString_overread:
  assumes "buffer_inv b" and "length (content b) < unat n"
  shows "if unat (readerIndex b) + unat n \<le> length (storage b)
         then \<exists>junk. junk \<noteq> [] \<and> retrieveAsString n b = Inr (content b @ junk, retrieveAll b)
         else retrieveAsString n b = Inl (Undefined ''read past the end of the vector'')"
proof -
  let ?R = "unat (readerIndex b)" and ?k = "length (content b)"
  let ?junk = "take (unat n - ?k) (drop (?R + ?k) (storage b))"
  have k: "?R + ?k = unat (writerIndex b)"
    using buffer_invD(2) [OF assms(1)] by (simp add: length_content unat_readable assms(1))
  have "unat n = ?k + (unat n - ?k)" using assms(2) by simp
  then have "take (unat n) (drop ?R (storage b)) =
      take ?k (drop ?R (storage b)) @ take (unat n - ?k) (drop ?k (drop ?R (storage b)))"
    by (metis take_add)
  also have "take ?k (drop ?R (storage b)) = content b"
    using k by (simp add: content_def)
  finally have split: "take (unat n) (drop ?R (storage b)) = content b @ ?junk"
    by (simp add: add.commute)
  have "\<not> n < readableBytes b"
    using assms by (simp add: word_less_nat_alt length_content)
  then have "retrieve n b = retrieveAll b" by (simp add: retrieve_def)
  moreover have "?junk \<noteq> []" if "?R + unat n \<le> length (storage b)"
    using that assms(2) by auto
  ultimately show ?thesis
    using split by (auto simp: retrieveAsString_def bytes_at_def peek_def)
qed

lemma retrieveAsString_overread_witness:
  "retrieveAsString 3 (small_buffer\<lparr>writerIndex := 11\<rparr>)
      = Inl (Undefined ''read past the end of the vector'') \<and>
   (\<exists>junk. junk \<noteq> [] \<and> retrieveAsString 2 (small_buffer\<lparr>writerIndex := 11\<rparr>)
      = Inr ([7] @ junk, retrieveAll (small_buffer\<lparr>writerIndex := 11\<rparr>)))"
proof -
  let ?b = "small_buffer\<lparr>writerIndex := 11\<rparr>"
  have inv: "buffer_inv ?b" by (simp add: buffer_inv_def small_buffer_def vector_max_def)
  have c: "content ?b = [7]" by (simp add: content_def small_buffer_def)
  have s: "unat (readerIndex ?b) = 10" "length (storage ?b) = 12"
    by (simp_all add: small_buffer_def)
  from retrieveAsString_overread [OF inv, of 3] retrieveAsString_overread [OF inv, of 2] c s
  show ?thesis by auto
qed

end
