(* ===== verification/InetAddress.thy ===== *)
theory InetAddress
  imports Format
begin

text \<open>
  Socket addresses: \<open>src/InetAddress.h\<close> and \<open>src/InetAddress.cc\<close>. The port and the address are kept in
  network byte order; the host is little-endian, as \<open>x86_64\<close> is. \<open>inet_ntop\<close> for \<open>AF_INET\<close> prints
  the four bytes in memory order; what \<open>inet_aton\<close> makes of a string is an argument.
\<close>

subsection \<open>Byte order\<close>

definition htons :: "16 word \<Rightarrow> 16 word" where
  "htons x = push_bit 8 x OR drop_bit 8 x"

definition ntohs :: "16 word \<Rightarrow> 16 word" where
  "ntohs x = push_bit 8 x OR drop_bit 8 x"

definition htonl :: "32 word \<Rightarrow> 32 word" where
  "htonl x = push_bit 24 x OR (push_bit 8 x AND 0xFF0000) OR (drop_bit 8 x AND 0xFF00) OR drop_bit 24 x"

text \<open>The bytes of a 32-bit field in memory order.\<close>

definition mem_bytes :: "32 word \<Rightarrow> byte list" where
  "mem_bytes x = [ucast x, ucast (drop_bit 8 x), ucast (drop_bit 16 x), ucast (drop_bit 24 x)]"

fun join_dots :: "string list \<Rightarrow> string" where
  "join_dots [] = []"
| "join_dots [s] = s"
| "join_dots (s # ss) = s @ CHR ''.'' # join_dots ss"

definition inet_ntop :: "32 word \<Rightarrow> string" where
  "inet_ntop x = join_dots (map (\<lambda>b. nat_str (unat b)) (mem_bytes x))"

subsection \<open>The class\<close>

definition AF_INET :: "16 word" where "AF_INET = 2"
definition kInaddrAny :: "32 word" where "kInaddrAny = 0"
definition kInaddrLoopback :: "32 word" where "kInaddrLoopback = 0x7F000001"

record inet_address =
  sin_family :: "16 word"
  sin_port :: "16 word"
  s_addr :: "32 word"

definition InetAddress_port :: "16 word \<Rightarrow> bool \<Rightarrow> inet_address" where
  "InetAddress_port port loopbackOnly =
     (let ip = if loopbackOnly then kInaddrLoopback else kInaddrAny
      in \<lparr>sin_family = AF_INET, sin_port = htons port, s_addr = htonl ip\<rparr>)"

text \<open>A string that \<open>inet_aton\<close> rejects leaves the zeroed address in place.\<close>

definition InetAddress_ip :: "(string \<Rightarrow> 32 word option) \<Rightarrow> 16 word \<Rightarrow> string \<Rightarrow> inet_address" where
  "InetAddress_ip aton port ip =
     \<lparr>sin_family = AF_INET, sin_port = htons port,
      s_addr = (case aton ip of None \<Rightarrow> 0 | Some a \<Rightarrow> a)\<rparr>"

definition toIp :: "inet_address \<Rightarrow> string" where
  "toIp a = inet_ntop (s_addr a)"

definition toIpPort :: "inet_address \<Rightarrow> string" where
  "toIpPort a = inet_ntop (s_addr a) @ CHR '':'' # nat_str (unat (ntohs (sin_port a)))"

definition toPort :: "inet_address \<Rightarrow> 16 word" where
  "toPort a = ntohs (sin_port a)"

subsection \<open>Lemmas\<close>

lemma unat_eq_unat: "unat x = unat y \<longleftrightarrow> x = (y :: 'a::len word)"
  by (metis word_unat_eq_iff)

lemma ntohs_htons [simp]: "ntohs (htons x) = x"
  by (rule bit_word_eqI)
    (auto simp: ntohs_def htons_def bit_or_iff bit_push_bit_iff bit_drop_bit_eq)

lemma ntohs_inj [simp]: "ntohs x = ntohs y \<longleftrightarrow> x = y"
  by (metis htons_def ntohs_def ntohs_htons)

lemma mem_bytes_inj: "mem_bytes x = mem_bytes y \<Longrightarrow> x = y"
proof (rule bit_word_eqI)
  fix n
  assume *: "mem_bytes x = mem_bytes y" and n: "n < LENGTH(32)"
  have b: "bit x (k + i) = bit y (k + i)"
    if "(ucast (drop_bit k x) :: byte) = ucast (drop_bit k y)" "i < 8" "k + i < 32" for k i
  proof -
    have "bit (ucast (drop_bit k x) :: byte) i = bit (ucast (drop_bit k y) :: byte) i"
      using that(1) by simp
    then show ?thesis using that(2,3) by (simp add: bit_ucast_iff bit_drop_bit_eq)
  qed
  consider "n < 8" | "8 \<le> n" "n < 16" | "16 \<le> n" "n < 24" | "24 \<le> n" "n < 32" using n by force
  then show "bit x n = bit y n"
  proof cases
    case 1
    then show ?thesis using b [of 0 n] * by (simp add: mem_bytes_def)
  next
    case 2
    then show ?thesis using b [of 8 "n - 8"] * by (simp add: mem_bytes_def)
  next
    case 3
    then show ?thesis using b [of 16 "n - 16"] * by (simp add: mem_bytes_def)
  next
    case 4
    then show ?thesis using b [of 24 "n - 24"] * by (simp add: mem_bytes_def)
  qed
qed

lemma inet_ntop_inj: "inet_ntop x = inet_ntop y \<Longrightarrow> x = y"
proof (rule mem_bytes_inj)
  assume *: "inet_ntop x = inet_ntop y"
  then have "map (\<lambda>b. nat_str (unat b)) (mem_bytes x) = map (\<lambda>b. nat_str (unat b)) (mem_bytes y)"
    by (simp add: inet_ntop_def mem_bytes_def append_sep_eq)
  moreover have "inj (\<lambda>b :: byte. nat_str (unat b))" by (rule injI) (simp add: unat_eq_unat)
  ultimately show "mem_bytes x = mem_bytes y" by (simp add: inj_map_eq_map)
qed

lemma inet_ntop_no_colon: "CHR '':'' \<notin> set (inet_ntop x)"
  by (simp add: inet_ntop_def mem_bytes_def)

lemma length_byte_str: "length (nat_str (unat (b :: byte))) \<le> 3"
proof -
  have "unat b < 2 ^ 8" using unsigned_less [of b] by simp
  then show ?thesis by (intro length_nat_str) simp_all
qed

lemma length_inet_ntop: "length (inet_ntop x) \<le> 15"
proof -
  have "length (inet_ntop x) = (\<Sum>b \<leftarrow> mem_bytes x. length (nat_str (unat b))) + 3"
    by (simp add: inet_ntop_def mem_bytes_def)
  also have "\<dots> \<le> 15"
    using length_byte_str [of "mem_bytes x ! 0"] length_byte_str [of "mem_bytes x ! 1"]
      length_byte_str [of "mem_bytes x ! 2"] length_byte_str [of "mem_bytes x ! 3"]
    by (simp add: mem_bytes_def)
  finally show ?thesis .
qed

lemma length_toIpPort: "length (toIpPort a) \<le> 21"
proof -
  have "unat (ntohs (sin_port a)) < 2 ^ 16" using unsigned_less [of "ntohs (sin_port a)"] by simp
  then have "length (nat_str (unat (ntohs (sin_port a)))) \<le> 5" by (intro length_nat_str) simp_all
  with length_inet_ntop [of "s_addr a"] show ?thesis by (simp add: toIpPort_def)
qed

subsection \<open>Properties\<close>

text \<open>
  C30: the printed form of an address identifies it. \<open>toIpPort\<close> gives different strings for
  different address and port pairs, and at most 21 characters, so neither its own 64-byte buffer nor the one
  in \<open>TcpServer::newConnection\<close> overflows or truncates; and \<open>toPort\<close> gives back the port an address
  was made with.
\<close>

theorem toIpPort_identifies:
  "(toIpPort a = toIpPort b \<longleftrightarrow> s_addr a = s_addr b \<and> sin_port a = sin_port b) \<and>
   length (toIpPort a) \<le> 21 \<and>
   toPort (InetAddress_port port lo) = port \<and> toPort (InetAddress_ip aton port ip) = port"
proof -
  have "toIpPort a = toIpPort b \<longleftrightarrow>
      inet_ntop (s_addr a) = inet_ntop (s_addr b) \<and> sin_port a = sin_port b"
    by (simp add: toIpPort_def append_sep_eq inet_ntop_no_colon unat_eq_unat)
  also have "\<dots> \<longleftrightarrow> s_addr a = s_addr b \<and> sin_port a = sin_port b"
    using inet_ntop_inj [of "s_addr a" "s_addr b"] by auto
  finally show ?thesis
    using length_toIpPort by (simp add: toPort_def InetAddress_port_def InetAddress_ip_def)
qed

end
