(* ===== verification/Socket.thy ===== *)
theory Socket
  imports InetAddress Posix
begin

text \<open>
  The socket wrapper of \<open>src/Socket.h\<close> and \<open>src/Socket.cc\<close>. The object holds only the descriptor; the
  other fields are what the kernel keeps for it and the rest of the model speaks about: the
  bytes \<open>write\<close> has accepted on it, whether its write side is shut down, its options, and whether it is
  bound, listening and still open. The results of the system calls are arguments.
\<close>

record socket =
  sockfd :: int
  sk_open :: bool
  sk_sent :: "byte list"
  sk_shut_wr :: bool
  sk_bound :: "inet_address option"
  sk_listening :: bool
  sk_nodelay :: bool
  sk_reuseaddr :: bool
  sk_reuseport :: bool
  sk_keepalive :: bool

definition Socket_ctor :: "int \<Rightarrow> socket" where
  "Socket_ctor fd =
     \<lparr>sockfd = fd, sk_open = True, sk_sent = [], sk_shut_wr = False, sk_bound = None,
      sk_listening = False, sk_nodelay = False, sk_reuseaddr = False, sk_reuseport = False,
      sk_keepalive = False\<rparr>"

definition Socket_dtor :: "socket \<Rightarrow> socket" where
  "Socket_dtor s = s\<lparr>sk_open := False\<rparr>"

definition bindAddress :: "int \<Rightarrow> inet_address \<Rightarrow> socket \<Rightarrow> fault + socket" where
  "bindAddress ret localaddr s =
     (if ret < 0 then Inl (FatalExit ''bind sockfd fail'') else Inr (s\<lparr>sk_bound := Some localaddr\<rparr>))"

definition socket_listen :: "int \<Rightarrow> socket \<Rightarrow> fault + socket" where
  "socket_listen ret s =
     (if ret < 0 then Inl (FatalExit ''listen sockfd fail'') else Inr (s\<lparr>sk_listening := True\<rparr>))"

text \<open>
  \<open>accept\<close>: \<open>(connfd, e, addr)\<close> is the answer of \<open>accept4\<close>. Some errors are handed back to the caller
  with \<open>errno\<close> restored, the others end the program.
\<close>

definition socket_accept ::
    "int \<times> errno \<times> inet_address \<Rightarrow> inet_address \<Rightarrow> fault + int \<times> errno \<times> inet_address" where
  "socket_accept answer peeraddr =
     (let (connfd, savedErrno, addr) = answer in
      if connfd < 0 then
        (case savedErrno of
           EAGAIN \<Rightarrow> Inr (connfd, savedErrno, peeraddr)
         | ECONNABORTED \<Rightarrow> Inr (connfd, savedErrno, peeraddr)
         | EINTR \<Rightarrow> Inr (connfd, savedErrno, peeraddr)
         | EPROTO \<Rightarrow> Inr (connfd, savedErrno, peeraddr)
         | EPERM \<Rightarrow> Inr (connfd, savedErrno, peeraddr)
         | EMFILE \<Rightarrow> Inr (connfd, savedErrno, peeraddr)
         | EBADF \<Rightarrow> Inl (FatalExit ''unexpected error of ::accept'')
         | EFAULT \<Rightarrow> Inl (FatalExit ''unexpected error of ::accept'')
         | EINVAL \<Rightarrow> Inl (FatalExit ''unexpected error of ::accept'')
         | ENFILE \<Rightarrow> Inl (FatalExit ''unexpected error of ::accept'')
         | ENOBUFS \<Rightarrow> Inl (FatalExit ''unexpected error of ::accept'')
         | ENOMEM \<Rightarrow> Inl (FatalExit ''unexpected error of ::accept'')
         | ENOTSOCK \<Rightarrow> Inl (FatalExit ''unexpected error of ::accept'')
         | EOPNOTSUPP \<Rightarrow> Inl (FatalExit ''unexpected error of ::accept'')
         | _ \<Rightarrow> Inl (FatalExit ''unknown error of ::accept''))
      else Inr (connfd, savedErrno, addr))"

definition shutdownWrite :: "os \<Rightarrow> socket \<Rightarrow> socket" where
  "shutdownWrite sys s = (if sys_shutdown sys (sockfd s) < 0 then s else s\<lparr>sk_shut_wr := True\<rparr>)"

definition setTcpNoDelay :: "bool \<Rightarrow> socket \<Rightarrow> socket" where
  "setTcpNoDelay on s = s\<lparr>sk_nodelay := on\<rparr>"

definition setReuseAddr :: "bool \<Rightarrow> socket \<Rightarrow> socket" where
  "setReuseAddr on s = s\<lparr>sk_reuseaddr := on\<rparr>"

definition setReusePort :: "bool \<Rightarrow> socket \<Rightarrow> socket" where
  "setReusePort on s = s\<lparr>sk_reuseport := on\<rparr>"

definition setKeepAlive :: "bool \<Rightarrow> socket \<Rightarrow> socket" where
  "setKeepAlive on s = s\<lparr>sk_keepalive := on\<rparr>"

text \<open>What a \<open>write\<close> that returned \<open>n\<close> leaves in the kernel.\<close>

definition kernel_took :: "int \<Rightarrow> byte list \<Rightarrow> socket \<Rightarrow> socket" where
  "kernel_took n bs s = s\<lparr>sk_sent := sk_sent s @ take (nat n) bs\<rparr>"

lemma socket_simps [simp]:
  "sockfd (shutdownWrite sys s) = sockfd s" "sk_sent (shutdownWrite sys s) = sk_sent s"
  "sk_open (shutdownWrite sys s) = sk_open s"
  "sockfd (kernel_took n bs s) = sockfd s" "sk_shut_wr (kernel_took n bs s) = sk_shut_wr s"
  "sk_open (kernel_took n bs s) = sk_open s"
  "sk_sent (kernel_took n bs s) = sk_sent s @ take (nat n) bs"
  by (simp_all add: shutdownWrite_def kernel_took_def)

end
