(* ===== verification/EventLoopThreadPool.thy ===== *)
theory EventLoopThreadPool
  imports Format "HOL-Library.Multiset"
begin

text \<open>
  The pool of I/O loops: \<open>src/EventLoopThreadPool.h\<close> and \<open>src/EventLoopThreadPool.cc\<close>. What
  \<open>EventLoopThread::startLoop\<close> does to the rest of the program, and the address it returns, is the argument
  \<open>startLoop\<close> of \<open>start\<close>; a thread object is represented by its name.
\<close>

subsection \<open>The class\<close>

record threadpool =
  tp_baseLoop :: ptr
  tp_name :: string
  tp_started :: bool
  tp_numThreads :: int
  tp_next :: int
  tp_threads :: "string list"
  tp_loops :: "ptr list"

definition EventLoopThreadPool_ctor :: "ptr \<Rightarrow> string \<Rightarrow> threadpool" where
  "EventLoopThreadPool_ctor baseLoop name =
     \<lparr>tp_baseLoop = baseLoop, tp_name = name, tp_started = False, tp_numThreads = 0, tp_next = 0,
      tp_threads = [], tp_loops = []\<rparr>"

definition setThreadNum :: "int \<Rightarrow> threadpool \<Rightarrow> threadpool" where
  "setThreadNum numThreads p = p\<lparr>tp_numThreads := numThreads\<rparr>"

definition thread_name :: "string \<Rightarrow> int \<Rightarrow> string" where
  "thread_name name i = snprintf (length name + 32) (name @ int_str i)"

type_synonym 'w init_cb = "(ptr \<Rightarrow> 'w \<Rightarrow> fault + 'w) option"

fun start_threads ::
    "('w init_cb \<Rightarrow> string \<Rightarrow> 'w \<Rightarrow> fault + ptr \<times> 'w) \<Rightarrow> 'w init_cb \<Rightarrow> int list \<Rightarrow>
     threadpool \<Rightarrow> 'w \<Rightarrow> fault + threadpool \<times> 'w" where
  "start_threads startLoop cb [] p w = Inr (p, w)"
| "start_threads startLoop cb (i # is) p w =
     (let buf = thread_name (tp_name p) i;
          p1 = p\<lparr>tp_threads := tp_threads p @ [buf]\<rparr>
      in bindE (startLoop cb buf w) (\<lambda>(l, w').
         start_threads startLoop cb is (p1\<lparr>tp_loops := tp_loops p1 @ [l]\<rparr>) w'))"

definition start ::
    "('w init_cb \<Rightarrow> string \<Rightarrow> 'w \<Rightarrow> fault + ptr \<times> 'w) \<Rightarrow> 'w init_cb \<Rightarrow>
     threadpool \<Rightarrow> 'w \<Rightarrow> fault + threadpool \<times> 'w" where
  "start startLoop cb p w =
     bindE (start_threads startLoop cb [0 .. tp_numThreads p - 1] (p\<lparr>tp_started := True\<rparr>) w) (\<lambda>(p', w').
     if tp_numThreads p' = 0
     then (case cb of None \<Rightarrow> Inr (p', w')
           | Some f \<Rightarrow> bindE (f (tp_baseLoop p') w') (\<lambda>w''. Inr (p', w'')))
     else Inr (p', w'))"

text \<open>Indexing the vector with \<open>next_\<close> is unchecked.\<close>

definition getNextLoop :: "threadpool \<Rightarrow> fault + ptr \<times> threadpool" where
  "getNextLoop p =
     (if tp_loops p \<noteq> []
      then (if 0 \<le> tp_next p \<and> nat (tp_next p) < length (tp_loops p)
            then (let l = tp_loops p ! nat (tp_next p);
                      p1 = p\<lparr>tp_next := tp_next p + 1\<rparr>;
                      p2 = (if tp_next p1 \<ge> int (length (tp_loops p1)) then p1\<lparr>tp_next := 0\<rparr> else p1)
                  in Inr (l, p2))
            else Inl (Undefined ''loops_[next_]''))
      else Inr (tp_baseLoop p, p))"

definition getAllLoops :: "threadpool \<Rightarrow> ptr list" where
  "getAllLoops p = (if tp_loops p = [] then [tp_baseLoop p] else tp_loops p)"

text \<open>Several calls in a row.\<close>

fun getNextLoops :: "nat \<Rightarrow> threadpool \<Rightarrow> fault + ptr list \<times> threadpool" where
  "getNextLoops 0 p = Inr ([], p)"
| "getNextLoops (Suc k) p =
     bindE (getNextLoop p) (\<lambda>(l, p'). bindE (getNextLoops k p') (\<lambda>(ls, p''). Inr (l # ls, p'')))"

subsection \<open>Invariant and lemmas\<close>

definition pool_ok :: "threadpool \<Rightarrow> bool" where
  "pool_ok p \<longleftrightarrow> 0 \<le> tp_next p \<and> (tp_loops p = [] \<or> tp_next p < int (length (tp_loops p)))"

text \<open>
  The cursor of a pool without loops has not moved; so it is in range once the loops are there. No loop is
  the null pointer.
\<close>

definition pool_fit :: "threadpool \<Rightarrow> bool" where
  "pool_fit p \<longleftrightarrow> pool_ok p \<and> (tp_loops p = [] \<longrightarrow> tp_next p = 0) \<and> 0 \<notin> set (tp_loops p)"

definition cursor :: "nat \<Rightarrow> threadpool \<Rightarrow> threadpool" where
  "cursor k p = p\<lparr>tp_next := int ((nat (tp_next p) + k) mod length (getAllLoops p))\<rparr>"

lemma getAllLoops_nonempty: "getAllLoops p \<noteq> []"
  by (simp add: getAllLoops_def)

lemma getNextLoop_eq:
  assumes "pool_ok p" "tp_loops p \<noteq> []"
  shows "getNextLoop p = Inr (tp_loops p ! nat (tp_next p), cursor 1 p)"
proof -
  let ?n = "nat (tp_next p)" and ?len = "length (tp_loops p)"
  have n: "?n < ?len" "0 \<le> tp_next p" using assms by (auto simp: pool_ok_def)
  show ?thesis
  proof (cases "Suc ?n = ?len")
    case True
    then have "tp_next p + 1 = int ?len" using n by simp
    with True n assms show ?thesis
      by (simp add: getNextLoop_def cursor_def getAllLoops_def)
  next
    case False
    then have "Suc ?n < ?len" using n by simp
    then have "tp_next p + 1 < int ?len" "(?n + 1) mod ?len = ?n + 1" using n by simp_all
    with n assms show ?thesis
      by (simp add: getNextLoop_def cursor_def getAllLoops_def)
  qed
qed

lemma cursor_loops [simp]: "tp_loops (cursor k p) = tp_loops p" "getAllLoops (cursor k p) = getAllLoops p"
  by (simp_all add: cursor_def getAllLoops_def)

lemma cursor_next: "nat (tp_next (cursor k p)) = (nat (tp_next p) + k) mod length (getAllLoops p)"
  by (simp add: cursor_def)

lemma cursor_ok: "tp_loops p \<noteq> [] \<Longrightarrow> pool_ok (cursor k p)"
  by (simp add: pool_ok_def cursor_def getAllLoops_def)

lemma cursor_cursor: "cursor j (cursor k p) = cursor (k + j) p"
  by (simp add: cursor_def getAllLoops_def mod_simps add.assoc)

lemma cursor_0: "pool_ok p \<Longrightarrow> tp_loops p \<noteq> [] \<Longrightarrow> cursor 0 p = p"
  by (simp add: cursor_def getAllLoops_def pool_ok_def nat_less_iff)

lemma getNextLoop_fit:
  assumes "pool_fit p"
  obtains l p' where "getNextLoop p = Inr (l, p')" "pool_fit p'" "tp_baseLoop p' = tp_baseLoop p"
    "tp_loops p' = tp_loops p" "l \<in> set (getAllLoops p)"
proof (cases "tp_loops p = []")
  case True
  then show ?thesis using assms that [of "tp_baseLoop p" p] by (simp add: getNextLoop_def getAllLoops_def)
next
  case False
  then have ok: "pool_ok p" "nat (tp_next p) < length (tp_loops p)" using assms by (auto simp: pool_fit_def pool_ok_def)
  moreover have "0 \<notin> set (tp_loops p)" "tp_baseLoop (cursor (Suc 0) p) = tp_baseLoop p"
    "tp_loops (cursor (Suc 0) p) = tp_loops p"
    using assms by (simp_all add: pool_fit_def cursor_def)
  ultimately show ?thesis
    by (intro that [OF getNextLoop_eq [OF ok(1) False]])
      (use False cursor_ok [OF False] in \<open>simp_all add: pool_fit_def getAllLoops_def\<close>)
qed

lemma getNextLoops_eq:
  assumes "pool_ok p" "tp_loops p \<noteq> []"
  shows "getNextLoops k p =
    Inr (map (\<lambda>i. tp_loops p ! ((nat (tp_next p) + i) mod length (tp_loops p))) [0..<k], cursor k p)"
  using assms
proof (induction k arbitrary: p)
  case 0
  then show ?case by (simp add: cursor_0)
next
  case (Suc k)
  let ?n = "nat (tp_next p)" and ?len = "length (tp_loops p)"
  have *: "nat (tp_next (cursor (Suc 0) p)) = Suc ?n mod ?len"
    using Suc.prems by (simp add: cursor_next getAllLoops_def)
  have "?n mod ?len = ?n" using Suc.prems by (auto simp: pool_ok_def)
  moreover have "map (\<lambda>i. tp_loops p ! ((?n + i) mod ?len)) [0..<Suc k] =
      tp_loops p ! (?n mod ?len) # map (\<lambda>i. tp_loops p ! ((?n + Suc i) mod ?len)) [0..<k]"
    by (simp add: upt_conv_Cons map_Suc_upt [symmetric] del: upt_Suc)
  ultimately show ?case
    using Suc.IH [OF cursor_ok [of p 1]] Suc.prems
    by (simp add: getNextLoop_eq cursor_cursor * mod_simps del: upt_Suc)
qed

lemma map_mod_rotate:
  "xs \<noteq> [] \<Longrightarrow> map (\<lambda>i. xs ! ((s + i) mod length xs)) [0..<length xs] = rotate s xs"
  by (rule nth_equalityI) (simp_all add: nth_rotate)

lemma mset_rotate: "mset (rotate s xs) = mset xs"
proof (induction s)
  case (Suc s)
  moreover have "mset (rotate1 ys) = mset ys" for ys :: "'a list" by (cases ys) simp_all
  ultimately show ?case by simp
qed simp

lemma rounds_mset:
  assumes "xs \<noteq> []"
  shows "mset (map (\<lambda>i. xs ! ((s + i) mod length xs)) [0..<q * length xs]) = repeat_mset q (mset xs)"
proof (induction q)
  case 0
  show ?case by simp
next
  case (Suc q)
  let ?n = "length xs" and ?f = "\<lambda>i. xs ! ((s + i) mod length xs)"
  have shift: "map ?f [q * ?n..<q * ?n + ?n] = map ?f [0..<?n]"
  proof (rule nth_equalityI)
    fix i assume "i < length (map ?f [q * ?n..<q * ?n + ?n])"
    moreover have "(s + (q * ?n + i)) mod ?n = (s + i) mod ?n"
      by (metis add.left_commute mod_mult_self3)
    ultimately show "map ?f [q * ?n..<q * ?n + ?n] ! i = map ?f [0..<?n] ! i" by simp
  qed simp
  have "[0..<Suc q * ?n] = [0..<q * ?n] @ [q * ?n..<q * ?n + ?n]"
    by (metis add.commute le_add1 less_eq_nat.simps(1) mult_Suc upt_add_eq_append)
  then have "mset (map ?f [0..<Suc q * ?n]) =
      mset (map ?f [0..<q * ?n]) + mset (map ?f [0..<?n])" by (simp add: shift)
  with Suc show ?case using assms by (simp add: map_mod_rotate mset_rotate)
qed

text \<open>
  \<open>spawned startLoop cb ns w ls w'\<close>: \<open>startLoop\<close> has been called once for each of the names \<open>ns\<close>, in their order
  and each call in the state the one before left, the calls returned the loops \<open>ls\<close>, and led from \<open>w\<close> to \<open>w'\<close>.
\<close>

fun spawned ::
    "('w init_cb \<Rightarrow> string \<Rightarrow> 'w \<Rightarrow> fault + ptr \<times> 'w) \<Rightarrow> 'w init_cb \<Rightarrow> string list \<Rightarrow>
     'w \<Rightarrow> ptr list \<Rightarrow> 'w \<Rightarrow> bool" where
  "spawned startLoop cb [] w ls w' \<longleftrightarrow> ls = [] \<and> w' = w"
| "spawned startLoop cb (n # ns) w ls w' \<longleftrightarrow>
     (case ls of [] \<Rightarrow> False
      | l # ls' \<Rightarrow> (case startLoop cb n w of
          Inl e \<Rightarrow> False
        | Inr (l', v) \<Rightarrow> l' = l \<and> spawned startLoop cb ns v ls' w'))"

lemma spawned_length: "spawned startLoop cb ns w ls w' \<Longrightarrow> length ls = length ns"
  by (induction startLoop cb ns w ls w' rule: spawned.induct) (auto split: list.splits sum.splits prod.splits)

lemma start_threads_result:
  assumes "start_threads startLoop cb is p w = Inr (p', w')"
  shows "\<exists>ls. spawned startLoop cb (map (thread_name (tp_name p)) is) w ls w' \<and>
    p' = p\<lparr>tp_threads := tp_threads p @ map (thread_name (tp_name p)) is,
           tp_loops := tp_loops p @ ls\<rparr>"
  using assms
proof (induction "is" arbitrary: p w)
  case Nil
  then show ?case by (simp add: exI [of _ "[]"])
next
  case (Cons i "is")
  let ?p1 = "p\<lparr>tp_threads := tp_threads p @ [thread_name (tp_name p) i]\<rparr>"
  from Cons.prems obtain l w1 where call: "startLoop cb (thread_name (tp_name p) i) w = Inr (l, w1)" and
      "start_threads startLoop cb is (?p1\<lparr>tp_loops := tp_loops p @ [l]\<rparr>) w1 = Inr (p', w')"
    by (auto simp: bindE_eq_Inr Let_def)
  from Cons.IH [OF this(2)] obtain ls where "spawned startLoop cb (map (thread_name (tp_name p)) is) w1 ls w'"
      "p' = p\<lparr>tp_threads := (tp_threads p @ [thread_name (tp_name p) i]) @ map (thread_name (tp_name p)) is,
              tp_loops := (tp_loops p @ [l]) @ ls\<rparr>"
    by auto
  then show ?case using call by (intro exI [of _ "l # ls"]) simp
qed

lemma start_threads_loops:
  assumes "start_threads startLoop cb is p w = Inr (p', w')"
    and "\<And>i l v v'. i \<in> set is \<Longrightarrow> startLoop cb (thread_name (tp_name p) i) v = Inr (l, v') \<Longrightarrow> P l"
    and "\<forall>l \<in> set (tp_loops p). P l"
  shows "\<forall>l \<in> set (tp_loops p'). P l"
  using assms
proof (induction "is" arbitrary: p w)
  case Nil
  then show ?case by simp
next
  case (Cons i "is")
  let ?p1 = "p\<lparr>tp_threads := tp_threads p @ [thread_name (tp_name p) i]\<rparr>"
  from Cons.prems(1) obtain l w1 where 1: "startLoop cb (thread_name (tp_name p) i) w = Inr (l, w1)"
      "start_threads startLoop cb is (?p1\<lparr>tp_loops := tp_loops p @ [l]\<rparr>) w1 = Inr (p', w')"
    by (auto simp: bindE_eq_Inr Let_def)
  have "P l" using Cons.prems(2) [of i, OF _ 1(1)] by simp
  with Cons.prems(2,3) show ?case by (intro Cons.IH [OF 1(2)]) auto
qed

lemma start_threads_fit:
  assumes "start_threads startLoop cb is p w = Inr (p', w')"
    and "\<And>i l v v'. i \<in> set is \<Longrightarrow> startLoop cb (thread_name (tp_name p) i) v = Inr (l, v') \<Longrightarrow> l \<noteq> 0"
  shows "tp_baseLoop p' = tp_baseLoop p" "pool_fit p \<Longrightarrow> pool_fit p'"
proof -
  obtain ls where p': "p' = p\<lparr>tp_threads := tp_threads p @ map (thread_name (tp_name p)) is, tp_loops := tp_loops p @ ls\<rparr>"
    using start_threads_result [OF assms(1)] by blast
  then show "tp_baseLoop p' = tp_baseLoop p" by simp
  assume p: "pool_fit p"
  then have "\<forall>l \<in> set (tp_loops p). l \<noteq> 0" by (metis pool_fit_def)
  then have "\<forall>l \<in> set (tp_loops p'). l \<noteq> 0" by (intro start_threads_loops [OF assms(1,2)])
  then show "pool_fit p'" using p p' by (cases "tp_loops p"; cases ls) (auto simp: pool_fit_def pool_ok_def)
qed

lemma thread_name_fits:
  assumes "0 \<le> i" "i < 2 ^ 31"
  shows "thread_name name i = name @ nat_str (nat i)"
proof -
  have "nat i < 10 ^ 10" using assms by (simp add: nat_less_iff)
  then have "length (nat_str (nat i)) \<le> 10" by (rule length_nat_str [rotated]) simp
  then show ?thesis using assms by (simp add: thread_name_def snprintf_def int_str_def)
qed

lemma start_threads_returns:
  assumes "\<And>nm w. returns (startLoop cb nm w)"
  shows "returns (start_threads startLoop cb is p w)"
proof (induction "is" arbitrary: p w)
  case (Cons i "is")
  obtain l w' where "startLoop cb (thread_name (tp_name p) i) w = Inr (l, w')"
    using assms [of "thread_name (tp_name p) i" w] by (auto simp: returns_iff)
  then show ?case using Cons by (simp add: Let_def)
qed simp

lemma getNextLoops_base:
  "tp_loops p = [] \<Longrightarrow> getNextLoops k p = Inr (replicate k (tp_baseLoop p), p)"
  by (induction k) (simp_all add: getNextLoop_def)

lemma getNextLoops_all:
  assumes "pool_ok p"
  shows "\<exists>p'. getNextLoops k p =
      Inr (map (\<lambda>i. getAllLoops p ! ((nat (tp_next p) + i) mod length (getAllLoops p))) [0..<k], p') \<and>
    pool_ok p' \<and> getAllLoops p' = getAllLoops p \<and> (length (getAllLoops p) dvd k \<longrightarrow> p' = p)"
proof (cases "tp_loops p = []")
  case True
  then have "map (\<lambda>i. getAllLoops p ! ((nat (tp_next p) + i) mod length (getAllLoops p))) [0..<k] =
      replicate k (tp_baseLoop p)"
    by (simp add: getAllLoops_def map_replicate_const)
  then show ?thesis using True assms by (simp add: getNextLoops_base)
next
  case False
  have "length (getAllLoops p) dvd k \<Longrightarrow> cursor k p = cursor 0 p" by (auto simp: cursor_def)
  then show ?thesis
    using False assms cursor_0 [of p] cursor_ok [of p k] getNextLoops_eq [of p k]
    by (auto simp: getAllLoops_def)
qed

subsection \<open>Properties\<close>

text \<open>
  C29: starting the pool. A new pool told to use \<open>k\<close> threads calls \<open>startLoop\<close> exactly once for each of \<open>k\<close>
  threads, one after the other and each with the user's initialisation, on threads named by the pool's name and their
  number, all different; it keeps exactly the loops these calls return, in their order, and with \<open>k > 0\<close> the state is
  the one the last call leaves. With no threads it runs the user's initialisation on the base loop, which is then the
  only loop it hands out.
\<close>

theorem start_spawns:
  assumes "0 \<le> k" "k < 2 ^ 31"
    and "\<And>nm w. returns (startLoop cb nm w)"
    and "\<And>f w. cb = Some f \<Longrightarrow> returns (f base w)"
  shows "\<exists>p w'. start startLoop cb (setThreadNum k (EventLoopThreadPool_ctor base name)) w = Inr (p, w') \<and>
    tp_threads p = map (\<lambda>i. name @ nat_str i) [0..<nat k] \<and> distinct (tp_threads p) \<and>
    length (tp_loops p) = nat k \<and> tp_started p \<and> pool_ok p \<and>
    (0 < k \<longrightarrow> spawned startLoop cb (tp_threads p) w (tp_loops p) w' \<and> getAllLoops p = tp_loops p) \<and>
    (k = 0 \<longrightarrow> getAllLoops p = [base] \<and> (case cb of None \<Rightarrow> w' = w | Some f \<Rightarrow> f base w = Inr w'))"
proof -
  let ?p0 = "(setThreadNum k (EventLoopThreadPool_ctor base name))\<lparr>tp_started := True\<rparr>"
  have simps: "tp_numThreads ?p0 = k" "tp_name ?p0 = name" "tp_threads ?p0 = []" "tp_loops ?p0 = []"
      "tp_baseLoop ?p0 = base" "tp_next ?p0 = 0" "tp_started ?p0"
    by (simp_all add: setThreadNum_def EventLoopThreadPool_ctor_def)
  obtain p w1 where run: "start_threads startLoop cb [0..k - 1] ?p0 w = Inr (p, w1)"
    using start_threads_returns [of startLoop cb, OF assms(3)] by (force simp: returns_iff)
  obtain ls where sp: "spawned startLoop cb (map (thread_name name) [0..k - 1]) w ls w1" and ls:
      "p = ?p0\<lparr>tp_threads := map (thread_name name) [0..k - 1], tp_loops := ls\<rparr>"
    using start_threads_result [OF run] simps by auto
  have len: "length ls = nat k" using spawned_length [OF sp] by simp
  have names: "map (thread_name name) [0..k - 1] = map (\<lambda>i. name @ nat_str i) [0..<nat k]"
    using assms(1,2) by (intro nth_equalityI) (simp_all add: thread_name_fits)
  have p: "tp_threads p = map (\<lambda>i. name @ nat_str i) [0..<nat k]" "distinct (tp_threads p)"
      "length (tp_loops p) = nat k" "tp_started p" "pool_ok p" "tp_numThreads p = k"
      "tp_baseLoop p = base" "k = 0 \<Longrightarrow> getAllLoops p = [base]"
      "spawned startLoop cb (tp_threads p) w (tp_loops p) w1" "0 < k \<Longrightarrow> getAllLoops p = tp_loops p"
    using ls simps len sp by (auto simp: names distinct_map inj_on_def pool_ok_def getAllLoops_def)
  have start: "start startLoop cb (setThreadNum k (EventLoopThreadPool_ctor base name)) w =
      (if k = 0 then (case cb of None \<Rightarrow> Inr (p, w1) | Some f \<Rightarrow> bindE (f base w1) (\<lambda>w2. Inr (p, w2)))
       else Inr (p, w1))"
    using run simps p by (cases cb) (simp_all add: start_def setThreadNum_def)
  have "\<exists>w'. start startLoop cb (setThreadNum k (EventLoopThreadPool_ctor base name)) w = Inr (p, w') \<and>
      (0 < k \<longrightarrow> w' = w1) \<and> (k = 0 \<longrightarrow> (case cb of None \<Rightarrow> w' = w | Some f \<Rightarrow> f base w = Inr w'))"
  proof (cases cb)
    case None
    then show ?thesis using start run by auto
  next
    case (Some f)
    obtain w2 where "f base w1 = Inr w2" using assms(4) [OF Some, of w1] by (auto simp: returns_iff)
    then show ?thesis using start run Some by auto
  qed
  with p show ?thesis by blast
qed

theorem start_spawns_witness:
  "\<exists>p w'. start (\<lambda>cb nm (w :: nat). Inr (100 + w, Suc w)) None
       (setThreadNum 3 (EventLoopThreadPool_ctor 7 ''pool'')) 0 = Inr (p, w') \<and>
     tp_threads p = [''pool0'', ''pool1'', ''pool2''] \<and> tp_loops p = [100, 101, 102] \<and> w' = 3"
proof -
  obtain p w' where p: "start (\<lambda>cb nm (w :: nat). Inr (100 + w, Suc w)) None
       (setThreadNum 3 (EventLoopThreadPool_ctor 7 ''pool'')) 0 = Inr (p, w')"
      "tp_threads p = map (\<lambda>i. ''pool'' @ nat_str i) [0..<3]" "length (tp_loops p) = 3"
      "spawned (\<lambda>cb nm (w :: nat). Inr (100 + w, Suc w)) None (tp_threads p) 0 (tp_loops p) w'"
    using start_spawns [of 3 "\<lambda>cb nm (w :: nat). Inr (100 + w, Suc w)" None 7 "''pool''" 0] by auto
  have names: "map (\<lambda>i. ''pool'' @ nat_str i) [0..<3] = [''pool0'', ''pool1'', ''pool2'']" by code_simp
  with p(2-4) have "tp_loops p = [100, 101, 102] \<and> w' = 3"
    by (auto simp: length_Suc_conv numeral_3_eq_3)
  with p(1,2) names show ?thesis by auto
qed

text \<open>
  C28: connections are handed out round robin. From a pool whose cursor is in range, the \<open>i\<close>-th of any
  number of calls of \<open>getNextLoop\<close> gives the loop \<open>i\<close> places after the cursor, modulo the number of
  loops (the base loop when the pool has none), the unchecked index is never out of range, and
  the cursor stays in range.
\<close>

theorem round_robin:
  assumes "pool_ok p"
  shows "\<exists>p'. getNextLoops k p =
      Inr (map (\<lambda>i. getAllLoops p ! ((nat (tp_next p) + i) mod length (getAllLoops p))) [0..<k], p') \<and>
    pool_ok p' \<and> getAllLoops p' = getAllLoops p"
  using getNextLoops_all [OF assms] by blast

definition pool3 :: threadpool where
  "pool3 = (EventLoopThreadPool_ctor 7 ''pool'')\<lparr>tp_loops := [10, 20, 30], tp_next := 2\<rparr>"

theorem round_robin_witness:
  "\<exists>p'. getNextLoops 4 pool3 = Inr ([30, 10, 20, 30], p')"
proof -
  have "pool_ok pool3" by (simp add: pool3_def pool_ok_def EventLoopThreadPool_ctor_def)
  then obtain p' where "getNextLoops 4 pool3 = Inr (map (\<lambda>i. getAllLoops pool3 !
      ((nat (tp_next pool3) + i) mod length (getAllLoops pool3))) [0..<4], p')"
    using round_robin [of pool3 4] by blast
  moreover have "map (\<lambda>i. getAllLoops pool3 !
      ((nat (tp_next pool3) + i) mod length (getAllLoops pool3))) [0..<4] = [30, 10, 20, 30]"
    by code_simp
  ultimately show ?thesis by simp
qed

text \<open>
  The load is even. Over \<open>q\<close> whole rounds every loop of the pool is handed out exactly \<open>q\<close> times,
  and the pool is back where it was.
\<close>

lemma rounds_are_fair:
  assumes "pool_ok p"
  shows "\<exists>ls. getNextLoops (q * length (getAllLoops p)) p = Inr (ls, p) \<and>
    mset ls = repeat_mset q (mset (getAllLoops p))"
proof -
  let ?n = "length (getAllLoops p)"
  let ?ls = "map (\<lambda>i. getAllLoops p ! ((nat (tp_next p) + i) mod ?n)) [0..<q * ?n]"
  have "getNextLoops (q * ?n) p = Inr (?ls, p)"
    using getNextLoops_all [OF assms, of "q * ?n"] by (metis dvd_triv_right)
  moreover have "mset ?ls = repeat_mset q (mset (getAllLoops p))"
    by (rule rounds_mset) (rule getAllLoops_nonempty)
  ultimately show ?thesis by blast
qed

lemma rounds_are_fair_witness:
  "\<exists>ls. getNextLoops 6 pool3 = Inr (ls, pool3) \<and> count (mset ls) 10 = 2"
proof -
  have "pool_ok pool3" by (simp add: pool3_def pool_ok_def EventLoopThreadPool_ctor_def)
  then obtain ls where ls: "getNextLoops (2 * length (getAllLoops pool3)) pool3 = Inr (ls, pool3)"
      "mset ls = repeat_mset 2 (mset (getAllLoops pool3))"
    using rounds_are_fair [of pool3 2] by blast
  have all: "getAllLoops pool3 = [10, 20, 30]" by (simp add: pool3_def getAllLoops_def)
  from ls(2) have "count (mset ls) 10 = 2" by (simp add: all)
  with ls(1) show ?thesis by (simp add: all)
qed

end
