(* ===== verification/World.thy ===== *)
theory World
  imports EventLoop Buffer Socket EventLoopThreadPool "HOL-Library.Sublist"
begin

text \<open>
  The objects of the program and the store they live in: connections, acceptors, servers, loops and
  channels are found by their addresses, as the code's pointers find them, so that two connections of
  one loop share that loop's poller and queue. An address without an object is one whose object
  has been destroyed; following it is undefined behaviour. \<open>w_strings\<close> holds the \<open>std::string\<close> objects of
  user code whose character pointers the library keeps.
\<close>

subsection \<open>Records\<close>

datatype StateE = kDisconnected | kConnecting | kConnected | kDisconnecting

text \<open>
  The order in which a connection goes through its states (the numbers of the enumeration differ:
  \<open>kDisconnected\<close> is 0 there).
\<close>

fun stage :: "StateE \<Rightarrow> nat" where
  "stage kConnecting = 0"
| "stage kConnected = 1"
| "stage kDisconnecting = 2"
| "stage kDisconnected = 3"

lemma stage_inj: "stage x = stage y \<Longrightarrow> x = y"
  by (cases x; cases y) simp_all

instantiation StateE :: linorder
begin

definition less_eq_StateE :: "StateE \<Rightarrow> StateE \<Rightarrow> bool" where
  "less_eq_StateE x y \<longleftrightarrow> stage x \<le> stage y"

definition less_StateE :: "StateE \<Rightarrow> StateE \<Rightarrow> bool" where
  "less_StateE x y \<longleftrightarrow> stage x < stage y"

instance
  by standard (auto simp: less_eq_StateE_def less_StateE_def intro: stage_inj)

end

lemma kDisconnected_top [simp]: "x \<le> kDisconnected"
  by (cases x) (simp_all add: less_eq_StateE_def)

text \<open>The library's default callbacks, or a function of the user. An empty \<open>std::function\<close> is \<open>None\<close>.\<close>

datatype connection_cb = DefaultConnectionCallback | UserConnectionCallback nat
datatype message_cb = DefaultMessageCallback | UserMessageCallback nat

text \<open>\<open>src/TcpConnection.h\<close>. \<open>closeCallback\<close> is the server whose \<open>removeConnection\<close> is bound.\<close>

record tcp_connection =
  tc_loop :: ptr
  tc_name :: string
  tc_state :: StateE
  tc_reading :: bool
  tc_socket :: socket
  tc_channel :: ptr
  tc_localAddr :: inet_address
  tc_peerAddr :: inet_address
  connectionCallback :: "connection_cb option"
  messageCallback :: "message_cb option"
  writeCompleteCallback :: "nat option"
  highWaterMarkCallback :: "nat option"
  tc_closeCallback :: "ptr option"
  highWaterMark :: size_t
  inputBuffer :: buffer
  outputBuffer :: buffer

text \<open>\<open>src/Acceptor.h\<close>. \<open>newConnectionCallback\<close> is the server whose \<open>newConnection\<close> is bound.\<close>

record acceptor =
  ac_loop :: ptr
  ac_socket :: socket
  ac_channel :: ptr
  newConnectionCallback :: "ptr option"
  ac_listening :: bool
  ac_idleFd :: int

text \<open>\<open>src/TcpServer.h\<close>.\<close>

record tcp_server =
  sv_loop :: ptr
  sv_ipPort :: string
  sv_name :: string
  sv_acceptor :: ptr
  sv_threadPool :: threadpool
  sv_connectionCallback :: "connection_cb option"
  sv_messageCallback :: "message_cb option"
  sv_writeCompleteCallback :: "nat option"
  sv_threadInitCallback :: "nat option"
  sv_started :: cint
  sv_nextConnId :: int
  sv_connections :: "string \<Rightarrow> ptr option"

record world =
  w_conns :: "ptr \<Rightarrow> tcp_connection option"
  w_chans :: "ptr \<Rightarrow> callback channel option"
  w_loops :: "ptr \<Rightarrow> eventloop option"
  w_acceptors :: "ptr \<Rightarrow> acceptor option"
  w_servers :: "ptr \<Rightarrow> tcp_server option"
  w_strings :: "ptr \<Rightarrow> byte list option"

subsection \<open>Access\<close>

definition the_conn :: "world \<Rightarrow> ptr \<Rightarrow> fault + tcp_connection" where
  "the_conn w a = (case w_conns w a of None \<Rightarrow> Inl (Undefined ''TcpConnection'') | Some c \<Rightarrow> Inr c)"

definition the_chan :: "world \<Rightarrow> ptr \<Rightarrow> fault + callback channel" where
  "the_chan w a = (case w_chans w a of None \<Rightarrow> Inl (Undefined ''Channel'') | Some c \<Rightarrow> Inr c)"

definition the_loop :: "world \<Rightarrow> ptr \<Rightarrow> fault + eventloop" where
  "the_loop w a = (case w_loops w a of None \<Rightarrow> Inl (Undefined ''EventLoop'') | Some l \<Rightarrow> Inr l)"

definition the_server :: "world \<Rightarrow> ptr \<Rightarrow> fault + tcp_server" where
  "the_server w a = (case w_servers w a of None \<Rightarrow> Inl (Undefined ''TcpServer'') | Some s \<Rightarrow> Inr s)"

definition put_conn :: "ptr \<Rightarrow> tcp_connection \<Rightarrow> world \<Rightarrow> world" where
  "put_conn a c w = w\<lparr>w_conns := (w_conns w)(a \<mapsto> c)\<rparr>"

definition put_chan :: "ptr \<Rightarrow> callback channel \<Rightarrow> world \<Rightarrow> world" where
  "put_chan a c w = w\<lparr>w_chans := (w_chans w)(a \<mapsto> c)\<rparr>"

definition put_loop :: "ptr \<Rightarrow> eventloop \<Rightarrow> world \<Rightarrow> world" where
  "put_loop a l w = w\<lparr>w_loops := (w_loops w)(a \<mapsto> l)\<rparr>"

definition put_server :: "ptr \<Rightarrow> tcp_server \<Rightarrow> world \<Rightarrow> world" where
  "put_server a s w = w\<lparr>w_servers := (w_servers w)(a \<mapsto> s)\<rparr>"

text \<open>\<open>len\<close> bytes through a pointer to a string's characters.\<close>

definition read_mem :: "ptr \<Rightarrow> size_t \<Rightarrow> world \<Rightarrow> fault + byte list" where
  "read_mem p len w =
     (case w_strings w p of
        None \<Rightarrow> Inl (Undefined ''message points to a destroyed string'')
      | Some bs \<Rightarrow> if unat len \<le> length bs then Inr (take (unat len) bs)
                   else Inl (Undefined ''message is shorter than len''))"

subsection \<open>Calls that go through a pointer\<close>

text \<open>An operation of a channel that reaches the poller of its loop.\<close>

definition chan_call :: "os \<Rightarrow> chan_op \<Rightarrow> ptr \<Rightarrow> world \<Rightarrow> fault + world" where
  "chan_call sys x a w =
     bindE (the_chan w a) (\<lambda>ch.
     bindE (the_loop w (ch_loop ch)) (\<lambda>l.
     bindE (chan_do sys x ch (el_poller l)) (\<lambda>(ch', p').
     Inr (put_loop (ch_loop ch) (l\<lparr>el_poller := p'\<rparr>) (put_chan a ch' w)))))"

definition loop_at :: "ptr \<Rightarrow> world \<Rightarrow> eventloop" where
  "loop_at lp w = the (w_loops w lp)"

definition upd_loop :: "ptr \<Rightarrow> (eventloop \<Rightarrow> eventloop) \<Rightarrow> world \<Rightarrow> world" where
  "upd_loop lp f w = put_loop lp (f (loop_at lp w)) w"

definition queue_call :: "os \<Rightarrow> int \<Rightarrow> ptr \<Rightarrow> Functor \<Rightarrow> world \<Rightarrow> fault + world" where
  "queue_call sys tid lp f w =
     bindE (the_loop w lp) (\<lambda>_. Inr (upd_loop lp (queueInLoop sys tid f) w))"

definition run_call ::
    "os \<Rightarrow> int \<Rightarrow> ptr \<Rightarrow> (Functor \<Rightarrow> world \<Rightarrow> fault + world) \<Rightarrow> Functor \<Rightarrow> world \<Rightarrow> fault + world" where
  "run_call sys tid lp exec f w =
     bindE (the_loop w lp) (\<lambda>_. runInLoop sys (loop_at lp) (upd_loop lp) exec tid f w)"

subsection \<open>A connection with its channel and its loop\<close>

text \<open>
  Everything a member function of a connection reads or writes, put back in one place; the
  rewrite rules let a proof run an operation on such a world.
\<close>

definition install ::
    "ptr \<Rightarrow> tcp_connection \<Rightarrow> callback channel \<Rightarrow> eventloop \<Rightarrow> world \<Rightarrow> world" where
  "install a c ch l w =
     w\<lparr>w_conns := (w_conns w)(a \<mapsto> c), w_chans := (w_chans w)(tc_channel c \<mapsto> ch),
       w_loops := (w_loops w)(tc_loop c \<mapsto> l)\<rparr>"

lemma install_id:
  "w_conns w a = Some c \<Longrightarrow> w_chans w (tc_channel c) = Some ch \<Longrightarrow> w_loops w (tc_loop c) = Some l \<Longrightarrow>
     install a c ch l w = w"
  by (simp add: install_def map_upd_triv)

lemma install_the [simp]:
  "the_conn (install a c ch l w) a = Inr c"
  "the_chan (install a c ch l w) (tc_channel c) = Inr ch"
  "the_loop (install a c ch l w) (tc_loop c) = Inr l"
  "loop_at (tc_loop c) (install a c ch l w) = l"
  by (simp_all add: install_def the_conn_def the_chan_def the_loop_def loop_at_def)

lemma install_sel [simp]:
  "w_conns (install a c ch l w) = (w_conns w)(a \<mapsto> c)"
  "w_chans (install a c ch l w) = (w_chans w)(tc_channel c \<mapsto> ch)"
  "w_loops (install a c ch l w) = (w_loops w)(tc_loop c \<mapsto> l)"
  "w_strings (install a c ch l w) = w_strings w"
  "w_servers (install a c ch l w) = w_servers w"
  "w_acceptors (install a c ch l w) = w_acceptors w"
  by (simp_all add: install_def)

lemma install_put:
  "tc_channel c' = tc_channel c \<Longrightarrow> tc_loop c' = tc_loop c \<Longrightarrow>
     put_conn a c' (install a c ch l w) = install a c' ch l w"
  "put_chan (tc_channel c) ch' (install a c ch l w) = install a c ch' l w"
  "put_loop (tc_loop c) l' (install a c ch l w) = install a c ch l' w"
  "upd_loop (tc_loop c) f (install a c ch l w) = install a c ch (f l) w"
  by (simp_all add: install_def put_conn_def put_chan_def put_loop_def upd_loop_def loop_at_def)

lemma install_install:
  "tc_channel c' = tc_channel c \<Longrightarrow> tc_loop c' = tc_loop c \<Longrightarrow>
     install a c' ch' l' (install a c ch l w) = install a c' ch' l' w"
  by (simp add: install_def)

lemma install_read_mem [simp]: "read_mem p len (install a c ch l w) = read_mem p len w"
  by (simp add: read_mem_def)

lemma install_queue_call [simp]:
  "queue_call sys tid (tc_loop c) f (install a c ch l w) =
     Inr (install a c ch (queueInLoop sys tid f l) w)"
  by (simp add: queue_call_def install_put)

lemma install_run_call:
  "run_call sys tid (tc_loop c) exec f (install a c ch l w) =
     (if isInLoopThread tid l then exec f (install a c ch l w)
      else Inr (install a c ch (queueInLoop sys tid f l) w))"
  by (simp add: run_call_def runInLoop_def install_put)

context epoll_kernel
begin

lemma install_chan_call:
  assumes "ch_loop ch = tc_loop c" "chan_slot ch (el_poller l)" "chan_legal x ch"
  shows "chan_call sys x (tc_channel c) (install a c ch l w) =
    Inr (install a c (chan_after x ch) (l\<lparr>el_poller := place (chan_after x ch) (el_poller l)\<rparr>) w)"
  using chan_do_eq [OF assms(2,3)] assms(1) by (simp add: chan_call_def install_put)

end

end
