(* ===== verification/TcpConnection.thy ===== *)
theory TcpConnection
  imports World
begin

text \<open>
  A TCP connection: \<open>src/TcpConnection.h\<close> and \<open>src/TcpConnection.cc\<close>, with the two member functions
  of \<open>src/TcpServer.cc\<close> that its close callback is bound to. Every member function is an
  operation on the world, given the object's address. User code is a function \<open>e_user\<close> from what it is called
  with, and the whole world, to a list of calls of the public interface; the lemmas hold for all of them.
\<close>

subsection \<open>Construction\<close>

text \<open>\<open>this\<close> and \<open>chan\<close> are the addresses the allocator returned for the two objects.\<close>

definition TcpConnection_ctor ::
    "ptr \<Rightarrow> ptr \<Rightarrow> ptr \<Rightarrow> string \<Rightarrow> int \<Rightarrow> inet_address \<Rightarrow> inet_address \<Rightarrow> world \<Rightarrow> fault + world" where
  "TcpConnection_ctor this chan lp nameArg fd localAddr peerAddr w =
     bindE (guardE (lp \<noteq> 0) (FatalExit ''mainLoop is null!'')) (\<lambda>_.
     bindE (Buffer_ctor kInitialSize) (\<lambda>inb.
     bindE (Buffer_ctor kInitialSize) (\<lambda>outb.
     Inr (put_conn this
            \<lparr>tc_loop = lp, tc_name = nameArg, tc_state = kConnecting, tc_reading = True,
             tc_socket = setKeepAlive True (Socket_ctor fd), tc_channel = chan,
             tc_localAddr = localAddr, tc_peerAddr = peerAddr,
             connectionCallback = None, messageCallback = None, writeCompleteCallback = None,
             highWaterMarkCallback = None, tc_closeCallback = None,
             highWaterMark = 64 * 1024 * 1024, inputBuffer = inb, outputBuffer = outb\<rparr>
            (put_chan chan
              (setErrorCallback (TcpConnection_handleError this)
              (setCloseCallback (TcpConnection_handleClose this)
              (setWriteCallback (TcpConnection_handleWrite this)
              (setReadCallback (TcpConnection_handleRead this) (Channel_ctor chan lp fd))))) w)))))"

text \<open>
  The destructor: the assertion, then the members in reverse order of their declaration. The channel goes
  without asking the poller.
\<close>

definition TcpConnection_dtor :: "ptr \<Rightarrow> world \<Rightarrow> fault + world" where
  "TcpConnection_dtor this w =
     bindE (the_conn w this) (\<lambda>c.
     bindE (guardE (tc_state c = kDisconnected) (AssertFail ''state_ == kDisconnected'')) (\<lambda>_.
     Inr (w\<lparr>w_conns := (w_conns w)(this := None), w_chans := (w_chans w)(tc_channel c := None)\<rparr>)))"

definition connected :: "tcp_connection \<Rightarrow> bool" where
  "connected c \<longleftrightarrow> tc_state c = kConnected"

definition setState :: "StateE \<Rightarrow> tcp_connection \<Rightarrow> tcp_connection" where
  "setState s c = c\<lparr>tc_state := s\<rparr>"

definition setConnectionCallback :: "connection_cb option \<Rightarrow> tcp_connection \<Rightarrow> tcp_connection" where
  "setConnectionCallback cb c = c\<lparr>connectionCallback := cb\<rparr>"

definition setMessageCallback :: "message_cb option \<Rightarrow> tcp_connection \<Rightarrow> tcp_connection" where
  "setMessageCallback cb c = c\<lparr>messageCallback := cb\<rparr>"

definition setWriteCompleteCallback :: "nat option \<Rightarrow> tcp_connection \<Rightarrow> tcp_connection" where
  "setWriteCompleteCallback cb c = c\<lparr>writeCompleteCallback := cb\<rparr>"

definition setConnCloseCallback :: "ptr \<Rightarrow> tcp_connection \<Rightarrow> tcp_connection" where
  "setConnCloseCallback server c = c\<lparr>tc_closeCallback := Some server\<rparr>"

definition setHighWaterMarkCallback :: "nat option \<Rightarrow> size_t \<Rightarrow> tcp_connection \<Rightarrow> tcp_connection" where
  "setHighWaterMarkCallback cb mark c = c\<lparr>highWaterMarkCallback := cb, highWaterMark := mark\<rparr>"

subsection \<open>Sending\<close>

text \<open>
  \<open>sendInLoop\<close>, in its two halves. \<open>send_direct\<close> returns \<open>nwrote\<close>, \<open>remaining\<close> and
  \<open>faultError\<close> as they are after line 164.
\<close>

definition send_direct ::
    "os \<Rightarrow> int \<Rightarrow> ptr \<Rightarrow> ptr \<Rightarrow> size_t \<Rightarrow> world \<Rightarrow> fault + int \<times> size_t \<times> bool \<times> world" where
  "send_direct sys tid this message len w =
     bindE (the_conn w this) (\<lambda>c.
     bindE (the_chan w (tc_channel c)) (\<lambda>ch.
     if \<not> isWriting ch \<and> readableBytes (outputBuffer c) = 0 then
       bindE (read_mem message len w) (\<lambda>bs.
       let (nwrote, e) = sys_write sys (ch_fd ch) bs;
           w1 = put_conn this (c\<lparr>tc_socket := kernel_took nwrote bs (tc_socket c)\<rparr>) w
       in if nwrote \<ge> 0 then
            (let remaining = len - of_int nwrote in
             case (if remaining = 0 then writeCompleteCallback c else None) of
               Some cb \<Rightarrow> bindE (queue_call sys tid (tc_loop c) (WriteComplete cb this) w1)
                           (\<lambda>w2. Inr (nwrote, remaining, False, w2))
             | None \<Rightarrow> Inr (nwrote, remaining, False, w1))
          else Inr (0, len, e \<noteq> EWOULDBLOCK \<and> (e = EPIPE \<or> e = ECONNRESET), w))
     else Inr (0, len, False, w)))"

definition send_rest ::
    "os \<Rightarrow> int \<Rightarrow> ptr \<Rightarrow> ptr \<Rightarrow> size_t \<Rightarrow> int \<times> size_t \<times> bool \<times> world \<Rightarrow> fault + world" where
  "send_rest sys tid this message len = (\<lambda>(nwrote, remaining, faultError, w).
     if \<not> faultError \<and> remaining > 0 then
       bindE (the_conn w this) (\<lambda>c.
       let oldLen = readableBytes (outputBuffer c) in
       bindE (case (if oldLen + remaining \<ge> highWaterMark c \<and> oldLen < highWaterMark c
                    then highWaterMarkCallback c else None) of
                Some cb \<Rightarrow> queue_call sys tid (tc_loop c) (HighWaterMark cb this (oldLen + remaining)) w
              | None \<Rightarrow> Inr w) (\<lambda>w1.
       bindE (read_mem message len w1) (\<lambda>bs.
       bindE (append_buf (take (unat remaining) (drop (nat nwrote) bs)) (outputBuffer c)) (\<lambda>b.
       let w2 = put_conn this (c\<lparr>outputBuffer := b\<rparr>) w1 in
       bindE (the_chan w2 (tc_channel c)) (\<lambda>ch.
       if \<not> isWriting ch then chan_call sys EnableWriting (tc_channel c) w2 else Inr w2)))))
     else Inr w)"

definition sendInLoop :: "os \<Rightarrow> int \<Rightarrow> ptr \<Rightarrow> ptr \<Rightarrow> size_t \<Rightarrow> world \<Rightarrow> fault + world" where
  "sendInLoop sys tid this message len w =
     bindE (the_conn w this) (\<lambda>c.
     if tc_state c = kDisconnected then Inr w
     else bindE (send_direct sys tid this message len w) (send_rest sys tid this message len))"

text \<open>
  \<open>send\<close>: \<open>buf\<close> is the address of the string. Off the loop's thread the pointer and the length are bound,
  and the call is queued.
\<close>

definition send :: "os \<Rightarrow> int \<Rightarrow> ptr \<Rightarrow> ptr \<Rightarrow> world \<Rightarrow> fault + world" where
  "send sys tid this buf w =
     bindE (the_conn w this) (\<lambda>c.
     if tc_state c = kConnected then
       bindE (case w_strings w buf of None \<Rightarrow> Inl (Undefined ''send: destroyed string'')
              | Some bs \<Rightarrow> Inr (of_nat (length bs))) (\<lambda>len.
       bindE (the_loop w (tc_loop c)) (\<lambda>l.
       if isInLoopThread tid l then sendInLoop sys tid this buf len w
       else run_call sys tid (tc_loop c) (\<lambda>_. sendInLoop sys tid this buf len) (SendInLoop this buf len) w))
     else Inr w)"

subsection \<open>Shutting down\<close>

definition shutdownInLoop :: "os \<Rightarrow> ptr \<Rightarrow> world \<Rightarrow> fault + world" where
  "shutdownInLoop sys this w =
     bindE (the_conn w this) (\<lambda>c.
     bindE (the_chan w (tc_channel c)) (\<lambda>ch.
     if \<not> isWriting ch then Inr (put_conn this (c\<lparr>tc_socket := shutdownWrite sys (tc_socket c)\<rparr>) w)
     else Inr w))"

definition shutdown :: "os \<Rightarrow> int \<Rightarrow> ptr \<Rightarrow> world \<Rightarrow> fault + world" where
  "shutdown sys tid this w =
     bindE (the_conn w this) (\<lambda>c.
     if tc_state c = kConnected then
       run_call sys tid (tc_loop c) (\<lambda>_. shutdownInLoop sys this) (ShutdownInLoop this)
         (put_conn this (setState kDisconnecting c) w)
     else Inr w)"

subsection \<open>User code\<close>

text \<open>What a user function can do: calls of the public interface, and its own strings.\<close>

datatype user_op =
    MakeString ptr "byte list"
  | FreeString ptr
  | TakeInput ptr ptr
  | RetrieveInput ptr size_t
  | SendString ptr ptr
  | ShutdownConnection ptr
  | SetWriteCompleteCallback ptr "nat option"
  | SetHighWaterMarkCallback ptr "nat option" size_t
  | QueueInLoop ptr nat
  | QuitLoop ptr

datatype user_call =
    OnConnection nat ptr
  | OnMessage nat ptr int
  | OnWriteComplete nat ptr
  | OnHighWaterMark nat ptr size_t
  | OnFunctor nat
  | OnThreadInit nat ptr

text \<open>
  What a handler finds around it: the system, the thread it runs on, the user's functions, the answers of
  \<open>accept4\<close> (on a listening descriptor) and \<open>getsockname\<close>, and the addresses the allocator gives to a
  new connection and its channel.
\<close>

record env =
  e_sys :: os
  e_tid :: int
  e_user :: "user_call \<Rightarrow> world \<Rightarrow> user_op list"
  e_accept :: "int \<Rightarrow> int \<times> errno \<times> inet_address"
  e_sockname :: "int \<Rightarrow> inet_address option"
  e_new :: "ptr \<times> ptr"

text \<open>\<open>TakeInput\<close> is \<open>std::string s(buf->retrieveAllAsString())\<close>.\<close>

fun user_do :: "os \<Rightarrow> int \<Rightarrow> user_op \<Rightarrow> world \<Rightarrow> fault + world" where
  "user_do sys tid (MakeString p bs) w =
     (if length bs \<le> vector_max then Inr (w\<lparr>w_strings := (w_strings w)(p \<mapsto> bs)\<rparr>)
      else Inl (LengthError ''basic_string''))"
| "user_do sys tid (FreeString p) w = Inr (w\<lparr>w_strings := (w_strings w)(p := None)\<rparr>)"
| "user_do sys tid (TakeInput a p) w =
     bindE (the_conn w a) (\<lambda>c.
     bindE (retrieveAllAsString (inputBuffer c)) (\<lambda>(bs, b).
     Inr ((put_conn a (c\<lparr>inputBuffer := b\<rparr>) w)\<lparr>w_strings := (w_strings w)(p \<mapsto> bs)\<rparr>)))"
| "user_do sys tid (RetrieveInput a n) w =
     bindE (the_conn w a) (\<lambda>c. Inr (put_conn a (c\<lparr>inputBuffer := retrieve n (inputBuffer c)\<rparr>) w))"
| "user_do sys tid (SendString a p) w = send sys tid a p w"
| "user_do sys tid (ShutdownConnection a) w = shutdown sys tid a w"
| "user_do sys tid (SetWriteCompleteCallback a cb) w =
     bindE (the_conn w a) (\<lambda>c. Inr (put_conn a (setWriteCompleteCallback cb c) w))"
| "user_do sys tid (SetHighWaterMarkCallback a cb mark) w =
     bindE (the_conn w a) (\<lambda>c. Inr (put_conn a (setHighWaterMarkCallback cb mark c) w))"
| "user_do sys tid (QueueInLoop lp n) w = queue_call sys tid lp (UserFunctor n) w"
| "user_do sys tid (QuitLoop lp) w =
     bindE (the_loop w lp) (\<lambda>_. Inr (upd_loop lp (quit sys tid) w))"

fun run_user :: "os \<Rightarrow> int \<Rightarrow> user_op list \<Rightarrow> world \<Rightarrow> fault + world" where
  "run_user sys tid [] w = Inr w"
| "run_user sys tid (x # xs) w = bindE (user_do sys tid x w) (run_user sys tid xs)"

definition call_user :: "env \<Rightarrow> user_call \<Rightarrow> world \<Rightarrow> fault + world" where
  "call_user env x w = run_user (e_sys env) (e_tid env) (e_user env x w) w"

text \<open>\<open>defaultConnectionCallback\<close> only logs; \<open>defaultMessageCallback\<close> empties the buffer.\<close>

definition call_connectionCallback :: "env \<Rightarrow> ptr \<Rightarrow> world \<Rightarrow> fault + world" where
  "call_connectionCallback env this w =
     bindE (the_conn w this) (\<lambda>c.
     case connectionCallback c of
       None \<Rightarrow> Inl (BadFunctionCall ''connectionCallback_'')
     | Some DefaultConnectionCallback \<Rightarrow> Inr w
     | Some (UserConnectionCallback n) \<Rightarrow> call_user env (OnConnection n this) w)"

definition defaultMessageCallback :: "ptr \<Rightarrow> world \<Rightarrow> fault + world" where
  "defaultMessageCallback this w =
     bindE (the_conn w this) (\<lambda>c. Inr (put_conn this (c\<lparr>inputBuffer := retrieveAll (inputBuffer c)\<rparr>) w))"

definition call_messageCallback :: "env \<Rightarrow> ptr \<Rightarrow> int \<Rightarrow> world \<Rightarrow> fault + world" where
  "call_messageCallback env this t w =
     bindE (the_conn w this) (\<lambda>c.
     case messageCallback c of
       None \<Rightarrow> Inl (BadFunctionCall ''messageCallback_'')
     | Some DefaultMessageCallback \<Rightarrow> defaultMessageCallback this w
     | Some (UserMessageCallback n) \<Rightarrow> call_user env (OnMessage n this t) w)"

subsection \<open>Closing\<close>

text \<open>\<open>TcpServer::removeConnectionInLoop\<close> and \<open>TcpServer::removeConnection\<close>.\<close>

definition removeConnectionInLoop :: "os \<Rightarrow> int \<Rightarrow> ptr \<Rightarrow> ptr \<Rightarrow> world \<Rightarrow> fault + world" where
  "removeConnectionInLoop sys tid server conn w =
     bindE (the_server w server) (\<lambda>s.
     bindE (the_conn w conn) (\<lambda>c.
     queue_call sys tid (tc_loop c) (ConnectDestroyed conn)
       (put_server server (s\<lparr>sv_connections := (sv_connections s)(tc_name c := None)\<rparr>) w)))"

definition removeConnection :: "os \<Rightarrow> int \<Rightarrow> ptr \<Rightarrow> ptr \<Rightarrow> world \<Rightarrow> fault + world" where
  "removeConnection sys tid server conn w =
     bindE (the_server w server) (\<lambda>s.
     run_call sys tid (sv_loop s) (\<lambda>_. removeConnectionInLoop sys tid server conn)
       (RemoveConnectionInLoop server conn) w)"

definition call_closeCallback :: "os \<Rightarrow> int \<Rightarrow> ptr \<Rightarrow> world \<Rightarrow> fault + world" where
  "call_closeCallback sys tid this w =
     bindE (the_conn w this) (\<lambda>c.
     case tc_closeCallback c of
       None \<Rightarrow> Inl (BadFunctionCall ''closeCallback_'')
     | Some server \<Rightarrow> removeConnection sys tid server this w)"

definition handleClose :: "env \<Rightarrow> ptr \<Rightarrow> world \<Rightarrow> fault + world" where
  "handleClose env this w =
     bindE (the_conn w this) (\<lambda>c.
     bindE (chan_call (e_sys env) DisableAll (tc_channel c) (put_conn this (setState kDisconnected c) w)) (\<lambda>w1.
     bindE (call_connectionCallback env this w1) (\<lambda>w2.
     call_closeCallback (e_sys env) (e_tid env) this w2)))"

text \<open>\<open>handleError\<close> asks the kernel for the pending error and logs it.\<close>

definition handleError :: "ptr \<Rightarrow> world \<Rightarrow> fault + world" where
  "handleError this w = bindE (the_conn w this) (\<lambda>c. bindE (the_chan w (tc_channel c)) (\<lambda>_. Inr w))"

subsection \<open>Events\<close>

definition handleRead :: "env \<Rightarrow> int \<Rightarrow> ptr \<Rightarrow> world \<Rightarrow> fault + world" where
  "handleRead env receiveTime this w =
     bindE (the_conn w this) (\<lambda>c.
     bindE (the_chan w (tc_channel c)) (\<lambda>ch.
     bindE (readFd (e_sys env) (ch_fd ch) (inputBuffer c)) (\<lambda>(n, e, b).
     let w1 = put_conn this (c\<lparr>inputBuffer := b\<rparr>) w in
     if n > 0 then call_messageCallback env this receiveTime w1
     else if n = 0 then handleClose env this w1
     else handleError this w1)))"

definition handleWrite :: "env \<Rightarrow> ptr \<Rightarrow> world \<Rightarrow> fault + world" where
  "handleWrite env this w =
     bindE (the_conn w this) (\<lambda>c.
     bindE (the_chan w (tc_channel c)) (\<lambda>ch.
     if isWriting ch then
       bindE (writeFd (e_sys env) (ch_fd ch) (outputBuffer c)) (\<lambda>(n, e, b).
       let c1 = c\<lparr>outputBuffer := b,
                  tc_socket := kernel_took n (content (outputBuffer c)) (tc_socket c)\<rparr>;
           w1 = put_conn this c1 w
       in if n > 0 then
            (if readableBytes b = 0 then
               bindE (chan_call (e_sys env) DisableWriting (tc_channel c) w1) (\<lambda>w2.
               bindE (case writeCompleteCallback c1 of
                        Some cb \<Rightarrow> queue_call (e_sys env) (e_tid env) (tc_loop c) (WriteComplete cb this) w2
                      | None \<Rightarrow> Inr w2) (\<lambda>w3.
               if tc_state c1 = kDisconnecting then shutdownInLoop (e_sys env) this w3 else Inr w3))
             else Inr w1)
          else Inr w1)
     else Inr w))"

subsection \<open>Life\<close>

definition chan_tie :: "ptr \<Rightarrow> ptr \<Rightarrow> world \<Rightarrow> fault + world" where
  "chan_tie obj a w = bindE (the_chan w a) (\<lambda>ch. Inr (put_chan a (tie obj ch) w))"

definition connectEstablished :: "env \<Rightarrow> ptr \<Rightarrow> world \<Rightarrow> fault + world" where
  "connectEstablished env this w =
     bindE (the_conn w this) (\<lambda>c.
     bindE (guardE (tc_state c = kConnecting) (AssertFail ''state_ == kConnecting'')) (\<lambda>_.
     bindE (chan_tie this (tc_channel c) (put_conn this (setState kConnected c) w)) (\<lambda>w1.
     bindE (chan_call (e_sys env) EnableReading (tc_channel c) w1) (\<lambda>w2.
     call_connectionCallback env this w2))))"

definition connectDestroyed :: "env \<Rightarrow> ptr \<Rightarrow> world \<Rightarrow> fault + world" where
  "connectDestroyed env this w =
     bindE (the_conn w this) (\<lambda>c.
     bindE (if tc_state c = kConnected then
              bindE (chan_call (e_sys env) DisableAll (tc_channel c)
                       (put_conn this (setState kDisconnected c) w))
                (call_connectionCallback env this)
            else Inr w) (\<lambda>w1.
     chan_call (e_sys env) Remove (tc_channel c) w1))"

end
