(* ===== verification/ConnectionRuns.thy ===== *)
theory ConnectionRuns
  imports TcpConnection
begin

text \<open>
  What sending and the write event do, as equations: the invariant \<open>world_ok\<close> of the world, and the
  result of \<open>sendInLoop\<close> and \<open>handleWrite\<close> on every branch, for a system that keeps the
  contracts \<open>posix_io\<close> and \<open>epoll_kernel\<close>.
\<close>

subsection \<open>What the operations do, on an installed connection\<close>

definition queue_opt :: "os \<Rightarrow> int \<Rightarrow> Functor option \<Rightarrow> eventloop \<Rightarrow> eventloop" where
  "queue_opt sys tid f l = (case f of None \<Rightarrow> l | Some g \<Rightarrow> queueInLoop sys tid g l)"

lemma queueInLoop_sel [simp]:
  "el_poller (queueInLoop sys tid f l) = el_poller l"
  "el_pendingFunctors (queueInLoop sys tid f l) = el_pendingFunctors l @ [f]"
  "el_quit (queueInLoop sys tid f l) = el_quit l" "el_threadId (queueInLoop sys tid f l) = el_threadId l"
  "el_callingPendingFunctors (queueInLoop sys tid f l) = el_callingPendingFunctors l"
  by (simp_all add: queueInLoop_def push_functor_def wakeup_def Let_def)

lemma queue_opt_sel [simp]:
  "el_poller (queue_opt sys tid f l) = el_poller l"
  "el_pendingFunctors (queue_opt sys tid f l) =
     el_pendingFunctors l @ (case f of None \<Rightarrow> [] | Some g \<Rightarrow> [g])"
  "queue_opt sys tid None l = l" "queue_opt sys tid (Some g) l = queueInLoop sys tid g l"
  by (cases f; simp add: queue_opt_def)+

lemma queue_opt_thread [simp]: "el_threadId (queue_opt sys tid f l) = el_threadId l"
  by (cases f) simp_all

lemma queue_opt_same [simp]: "(queue_opt sys tid f l)\<lparr>el_poller := el_poller l\<rparr> = queue_opt sys tid f l"
  by (cases f) (simp_all add: queueInLoop_def push_functor_def wakeup_def Let_def)

lemma readable_zero: "buffer_inv b \<Longrightarrow> readableBytes b = 0 \<longleftrightarrow> content b = []"
  by (metis length_content length_0_conv unat_eq_zero)

lemma read_mem_whole:
  "w_strings w m = Some bs \<Longrightarrow> length bs = unat len \<Longrightarrow> read_mem m len w = Inr bs"
  by (simp add: read_mem_def)

definition write_done :: "ptr \<Rightarrow> tcp_connection \<Rightarrow> Functor option" where
  "write_done a c = map_option (\<lambda>cb. WriteComplete cb a) (writeCompleteCallback c)"

definition high_water :: "ptr \<Rightarrow> tcp_connection \<Rightarrow> size_t \<Rightarrow> Functor option" where
  "high_water a c extra =
     (let old = readableBytes (outputBuffer c) in
      if old + extra \<ge> highWaterMark c \<and> old < highWaterMark c
      then map_option (\<lambda>cb. HighWaterMark cb a (old + extra)) (highWaterMarkCallback c) else None)"

lemma send_direct_writes:
  assumes "\<not> isWriting ch" "readableBytes (outputBuffer c) = 0"
    and "read_mem msg len w = Inr bs" "sys_write sys (ch_fd ch) bs = (n, e)" "0 \<le> n"
  shows "send_direct sys tid a msg len (install a c ch l w) =
    Inr (n, len - of_int n, False,
         install a (c\<lparr>tc_socket := kernel_took n bs (tc_socket c)\<rparr>) ch
           (queue_opt sys tid (if len - of_int n = 0 then write_done a c else None) l) w)"
proof -
  have put: "put_conn a (c\<lparr>tc_socket := s\<rparr>) (install a c ch l w) =
      install a (c\<lparr>tc_socket := s\<rparr>) ch l w" for s by (rule install_put) simp_all
  have "queue_call sys tid (tc_loop c) f (install a (c\<lparr>tc_socket := s\<rparr>) ch l w) =
      Inr (install a (c\<lparr>tc_socket := s\<rparr>) ch (queueInLoop sys tid f l) w)" for f s
    using install_queue_call [of sys tid "c\<lparr>tc_socket := s\<rparr>"] by simp
  with put assms show ?thesis
    by (cases "writeCompleteCallback c")
      (simp_all add: send_direct_def Let_def write_done_def)
qed

lemma send_direct_error:
  assumes "\<not> isWriting ch" "readableBytes (outputBuffer c) = 0"
    and "read_mem msg len w = Inr bs" "sys_write sys (ch_fd ch) bs = (n, e)" "n < 0"
  shows "send_direct sys tid a msg len (install a c ch l w) =
    Inr (0, len, e \<noteq> EWOULDBLOCK \<and> (e = EPIPE \<or> e = ECONNRESET), install a c ch l w)"
  using assms by (simp add: send_direct_def Let_def)

lemma send_direct_skips:
  assumes "isWriting ch \<or> readableBytes (outputBuffer c) \<noteq> 0"
  shows "send_direct sys tid a msg len (install a c ch l w) = Inr (0, len, False, install a c ch l w)"
  using assms by (auto simp: send_direct_def)

lemma send_rest_eq:
  assumes "0 < rem"
  shows "send_rest sys tid a msg len (k, rem, False, install a c ch l w) =
    bindE (read_mem msg len w) (\<lambda>bs.
    bindE (append_buf (take (unat rem) (drop (nat k) bs)) (outputBuffer c)) (\<lambda>b.
    let w2 = install a (c\<lparr>outputBuffer := b\<rparr>) ch (queue_opt sys tid (high_water a c rem) l) w in
    if isWriting ch then Inr w2 else chan_call sys EnableWriting (tc_channel c) w2))"
proof -
  let ?l = "queue_opt sys tid (high_water a c rem) l"
  have put: "put_conn a (c\<lparr>outputBuffer := b\<rparr>) (install a c ch l' w) =
      install a (c\<lparr>outputBuffer := b\<rparr>) ch l' w" for l' b
    by (rule install_put) simp_all
  have q: "(case (if readableBytes (outputBuffer c) + rem \<ge> highWaterMark c \<and>
                    readableBytes (outputBuffer c) < highWaterMark c
                 then highWaterMarkCallback c else None) of
             Some cb \<Rightarrow> queue_call sys tid (tc_loop c)
                          (HighWaterMark cb a (readableBytes (outputBuffer c) + rem)) (install a c ch l w)
           | None \<Rightarrow> Inr (install a c ch l w)) = Inr (install a c ch ?l w)"
    by (cases "highWaterMarkCallback c") (simp_all add: high_water_def Let_def)
  have the: "the_chan (install a (c\<lparr>outputBuffer := b\<rparr>) ch ?l w) (tc_channel c) = Inr ch" for b
    using install_the(2) [of a "c\<lparr>outputBuffer := b\<rparr>" ch ?l w] by simp
  show ?thesis
    using assms q the put by (cases "isWriting ch") (simp_all add: send_rest_def Let_def)
qed

context epoll_kernel
begin

lemma send_rest_appends:
  assumes "ch_loop ch = tc_loop c" "chan_slot ch (el_poller l)" "0 < rem"
    and "read_mem msg len w = Inr bs"
    and "append_buf (take (unat rem) (drop (nat k) bs)) (outputBuffer c) = Inr b"
  shows "send_rest sys tid a msg len (k, rem, False, install a c ch l w) =
    Inr (install a (c\<lparr>outputBuffer := b\<rparr>) (if isWriting ch then ch else chan_after EnableWriting ch)
          ((queue_opt sys tid (high_water a c rem) l)\<lparr>el_poller :=
             (if isWriting ch then el_poller l else place (chan_after EnableWriting ch) (el_poller l))\<rparr>) w)"
proof -
  let ?l = "queue_opt sys tid (high_water a c rem) l" and ?c = "c\<lparr>outputBuffer := b\<rparr>"
  have "chan_call sys EnableWriting (tc_channel c) (install a ?c ch ?l w) =
      Inr (install a ?c (chan_after EnableWriting ch)
            (?l\<lparr>el_poller := place (chan_after EnableWriting ch) (el_poller l)\<rparr>) w)"
    using install_chan_call [of ch ?c ?l EnableWriting a w] assms(1,2) by (simp add: chan_legal_def)
  with assms(3-5) show ?thesis by (simp add: send_rest_eq)
qed

end

subsection \<open>The invariant of the world\<close>

text \<open>
  Every loop's poller is consistent with the channels of that loop; every connection's buffers are
  well formed, its channel is the one of its socket in its loop, and, until the connection is
  disconnected, the channel asks for write events exactly when there is something left to write. A
  channel whose read callback accepts connections has no close and no error callback
  (\<open>handlers_ok\<close>).
\<close>

definition chans_of :: "ptr \<Rightarrow> world \<Rightarrow> ptr \<Rightarrow> callback channel option" where
  "chans_of lp w a = (case w_chans w a of None \<Rightarrow> None
                      | Some ch \<Rightarrow> if ch_loop ch = lp then Some ch else None)"

definition handlers_ok :: "callback channel \<Rightarrow> bool" where
  "handlers_ok ch \<longleftrightarrow>
     (\<forall>a. closeCallback ch \<noteq> Some (Acceptor_handleRead a) \<and> errorCallback ch \<noteq> Some (Acceptor_handleRead a) \<and>
          writeCallback ch \<noteq> Some (Acceptor_handleRead a) \<and>
          (readCallback ch = Some (Acceptor_handleRead a) \<longrightarrow>
            closeCallback ch = None \<and> errorCallback ch = None \<and> writeCallback ch = None))"

definition conn_ok :: "world \<Rightarrow> tcp_connection \<Rightarrow> bool" where
  "conn_ok w c \<longleftrightarrow> buffer_inv (inputBuffer c) \<and> buffer_inv (outputBuffer c) \<and>
     (\<exists>ch. w_chans w (tc_channel c) = Some ch \<and> ch_loop ch = tc_loop c \<and>
        ch_fd ch = sockfd (tc_socket c) \<and>
        isWriting ch = (tc_state c \<noteq> kDisconnected \<and> content (outputBuffer c) \<noteq> []))"

definition world_ok :: "world \<Rightarrow> bool" where
  "world_ok w \<longleftrightarrow>
     (\<forall>lp l. w_loops w lp = Some l \<longrightarrow> poller_ok (chans_of lp w, el_poller l)) \<and>
     (\<forall>x ch. w_chans w x = Some ch \<longrightarrow> w_loops w (ch_loop ch) \<noteq> None) \<and>
     (\<forall>a c. w_conns w a = Some c \<longrightarrow> conn_ok w c) \<and>
     (\<forall>a b c d. w_conns w a = Some c \<longrightarrow> w_conns w b = Some d \<longrightarrow> tc_channel c = tc_channel d \<longrightarrow> a = b) \<and>
     (\<forall>p bs. w_strings w p = Some bs \<longrightarrow> length bs \<le> vector_max) \<and>
     (\<forall>x ch. w_chans w x = Some ch \<longrightarrow> handlers_ok ch)"

lemma world_okD:
  assumes "world_ok w"
  shows "w_loops w lp = Some l \<Longrightarrow> poller_ok (chans_of lp w, el_poller l)"
    and "w_chans w x = Some ch \<Longrightarrow> w_loops w (ch_loop ch) \<noteq> None"
    and "w_conns w a = Some c \<Longrightarrow> conn_ok w c"
    and "w_conns w a = Some c \<Longrightarrow> w_conns w b = Some d \<Longrightarrow> tc_channel c = tc_channel d \<Longrightarrow> a = b"
    and "w_strings w p = Some bs \<Longrightarrow> length bs \<le> vector_max"
    and "w_chans w x = Some ch \<Longrightarrow> handlers_ok ch"
  using assms unfolding world_ok_def by blast+

text \<open>What no operation changes of a channel.\<close>

definition chan_le :: "callback channel \<Rightarrow> callback channel \<Rightarrow> bool" where
  "chan_le ch ch' \<longleftrightarrow> ch_loop ch' = ch_loop ch \<and> ch_fd ch' = ch_fd ch \<and>
     readCallback ch' = readCallback ch \<and> writeCallback ch' = writeCallback ch \<and>
     closeCallback ch' = closeCallback ch \<and> errorCallback ch' = errorCallback ch"

lemma chan_le_refl [simp]: "chan_le ch ch"
  by (simp add: chan_le_def)

lemma chan_le_trans: "chan_le ch ch' \<Longrightarrow> chan_le ch' ch'' \<Longrightarrow> chan_le ch ch''"
  by (simp add: chan_le_def)

lemma chan_le_after [simp]: "chan_le ch (chan_after x ch)"
  by (cases x) (simp_all add: chan_le_def chan_after_def updated_def set_index_def)

lemma chan_le_tie [simp]: "chan_le ch (tie obj ch)"
  by (simp add: chan_le_def tie_def)

lemma chan_le_revents [simp]: "chan_le ch (set_revents r ch)"
  by (simp add: chan_le_def set_revents_def)

lemma handlers_ok_le: "chan_le ch ch' \<Longrightarrow> handlers_ok ch \<Longrightarrow> handlers_ok ch'"
  by (simp add: chan_le_def handlers_ok_def)

definition attached :: "ptr \<Rightarrow> tcp_connection \<Rightarrow> callback channel \<Rightarrow> eventloop \<Rightarrow> world \<Rightarrow> bool" where
  "attached a c ch l w \<longleftrightarrow> w_conns w a = Some c \<and> w_chans w (tc_channel c) = Some ch \<and>
     w_loops w (tc_loop c) = Some l"

lemma attached_install: "attached a c ch l w \<Longrightarrow> w = install a c ch l w"
  using install_id [of w a c ch l] by (simp add: attached_def)

lemma attachedE:
  assumes "world_ok w" "w_conns w a = Some c"
  obtains ch l where "attached a c ch l w" "ch_loop ch = tc_loop c" "ch_fd ch = sockfd (tc_socket c)"
    "chan_inv ch (el_poller l)" "chans_of (tc_loop c) w (tc_channel c) = Some ch"
    "isWriting ch = (tc_state c \<noteq> kDisconnected \<and> content (outputBuffer c) \<noteq> [])"
    "buffer_inv (inputBuffer c)" "buffer_inv (outputBuffer c)"
proof -
  from world_okD(3) [OF assms] obtain ch where
    ch: "w_chans w (tc_channel c) = Some ch" "ch_loop ch = tc_loop c" "ch_fd ch = sockfd (tc_socket c)"
      "isWriting ch = (tc_state c \<noteq> kDisconnected \<and> content (outputBuffer c) \<noteq> [])"
      "buffer_inv (inputBuffer c)" "buffer_inv (outputBuffer c)"
    unfolding conn_ok_def by blast
  obtain l where l: "w_loops w (tc_loop c) = Some l" using world_okD(2) [OF assms(1) ch(1)] ch(2) by auto
  have x: "chans_of (tc_loop c) w (tc_channel c) = Some ch" using ch by (simp add: chans_of_def)
  have "chan_inv ch (el_poller l)"
    using world_okD(1) [OF assms(1) l] x
    unfolding poller_ok_def registry_ok_def prod.case fst_conv by blast
  with that [of ch l] ch l x assms(2) show thesis by (simp add: attached_def)
qed

lemma world_ok_install:
  assumes ok: "world_ok w" and at: "attached a c ch l w" and lp: "ch_loop ch = tc_loop c"
    and c': "tc_channel c' = tc_channel c" "tc_loop c' = tc_loop c"
      "buffer_inv (inputBuffer c')" "buffer_inv (outputBuffer c')"
    and ch': "chan_le ch ch'" "ch_fd ch' = sockfd (tc_socket c')"
      "isWriting ch' = (tc_state c' \<noteq> kDisconnected \<and> content (outputBuffer c') \<noteq> [])"
    and p: "poller_ok ((chans_of (tc_loop c) w)(tc_channel c \<mapsto> ch'), el_poller l')"
  shows "world_ok (install a c' ch' l' w)"
proof -
  let ?w' = "install a c' ch' l' w" and ?x = "tc_channel c"
  have lp': "ch_loop ch' = tc_loop c" using ch'(1) lp by (simp add: chan_le_def)
  have chans: "chans_of lp ?w' = (if lp = tc_loop c then (chans_of lp w)(?x \<mapsto> ch') else chans_of lp w)" for lp
    using at lp c' lp' by (auto simp: chans_of_def attached_def fun_eq_iff)
  have 1: "poller_ok (chans_of lp ?w', el_poller k)" if "w_loops ?w' lp = Some k" for lp k
    using that chans [of lp] p c'(2) world_okD(1) [OF ok] by (cases "lp = tc_loop c") auto
  have 2: "w_loops ?w' (ch_loop d) \<noteq> None" if "w_chans ?w' x = Some d" for x d
    using that c' lp' world_okD(2) [OF ok, of x d] by (auto split: if_splits)
  have other: "tc_channel d \<noteq> ?x" if "w_conns w b = Some d" "b \<noteq> a" for b d
    using world_okD(4) [OF ok that(1)] at that(2) by (auto simp: attached_def)
  have 3: "conn_ok ?w' d" if "w_conns ?w' b = Some d" for b d
  proof (cases "b = a")
    case True
    then show ?thesis using that c' ch' lp' by (simp add: conn_ok_def)
  next
    case False
    then have b: "w_conns w b = Some d" using that by simp
    then have "tc_channel d \<noteq> ?x" using other False by blast
    then show ?thesis using world_okD(3) [OF ok b] c'(1) by (simp add: conn_ok_def)
  qed
  have 4: "b = b'" if "w_conns ?w' b = Some d" "w_conns ?w' b' = Some d'" "tc_channel d = tc_channel d'" for b b' d d'
    using that other [of b d] other [of b' d'] c'(1) world_okD(4) [OF ok, of b d b' d']
    by (cases "b = a"; cases "b' = a") auto
  have 5: "length bs \<le> vector_max" if "w_strings ?w' q = Some bs" for q bs
    using that world_okD(5) [OF ok] by simp
  have 6: "handlers_ok d" if "w_chans ?w' y = Some d" for y d
    using that c' at world_okD(6) [OF ok, of y d] handlers_ok_le [OF ch'(1)] world_okD(6) [OF ok, of ?x ch]
    by (auto simp: attached_def split: if_splits)
  show ?thesis
    unfolding world_ok_def
    by (intro conjI allI impI) (erule 1, erule 2, erule 3, erule (2) 4, erule 5, erule 6)
qed

lemma poller_ok_same:
  assumes "poller_ok (m, p)" "m x = Some ch"
    and "ch_fd ch' = ch_fd ch" "ch_addr ch' = ch_addr ch" "ch_index ch' = ch_index ch" "ch_events ch' = ch_events ch"
  shows "poller_ok (m(x \<mapsto> ch'), p)"
proof -
  have inv: "chan_inv ch' p = chan_inv ch p"
    using assms(3-6) by (simp add: chan_inv_def registered_def watched_def)
  have old: "\<exists>d. m b = Some d \<and> ch_fd d = ch_fd e \<and> ch_addr d = ch_addr e \<and> (chan_inv d p = chan_inv e p)"
    if "(m(x \<mapsto> ch')) b = Some e" for b e
    using that assms(2-4) inv by (cases "b = x") auto
  have new: "\<exists>e. (m(x \<mapsto> ch')) b = Some e \<and> ch_fd e = ch_fd d" if "m b = Some d" for b d
    using that assms(2,3) by (cases "b = x") auto
  have parts: "\<And>b d. m b = Some d \<Longrightarrow> chan_inv d p \<and> ch_addr d = b"
      "\<And>b b' d d'. m b = Some d \<Longrightarrow> m b' = Some d' \<Longrightarrow> ch_fd d = ch_fd d' \<Longrightarrow> b = b'"
      "\<And>k. poller_view p k \<noteq> (None, None) \<Longrightarrow> \<exists>b d. m b = Some d \<and> ch_fd d = k"
    using assms(1) unfolding poller_ok_def registry_ok_def prod.case fst_conv by blast+
  show ?thesis
    unfolding poller_ok_def registry_ok_def prod.case fst_conv
  proof (intro conjI allI impI)
    fix b e assume e: "(m(x \<mapsto> ch')) b = Some e"
    from old [OF e] parts(1) show "chan_inv e p" "ch_addr e = b" by auto
  next
    fix b b' e e'
    assume "(m(x \<mapsto> ch')) b = Some e" "(m(x \<mapsto> ch')) b' = Some e'" "ch_fd e = ch_fd e'"
    with old [of b e] old [of b' e'] parts(2) show "b = b'" by metis
  next
    fix k assume "poller_view p k \<noteq> (None, None)"
    from parts(3) [OF this] new show "\<exists>a c. (m(x \<mapsto> ch')) a = Some c \<and> ch_fd c = k" by metis
  qed
qed

context epoll_kernel
begin

lemma poller_ok_chan_do:
  fixes m :: "ptr \<Rightarrow> 'cb channel option"
  assumes "poller_ok (m, p)" "m x = Some ch" "chan_legal op ch"
  shows "poller_ok (m(x \<mapsto> chan_after op ch), place (chan_after op ch) p)"
proof -
  have reg: "registry_ok chan_inv ch_fd poller_view (None, None) (m, p)"
    and addr: "\<forall>a c. m a = Some c \<longrightarrow> ch_addr c = a"
    using assms(1) by (simp_all add: poller_ok_def)
  then have "chan_inv ch p" using assms(2) by (auto simp: registry_ok_def)
  then have "chan_do sys op ch p = Inr (chan_after op ch, place (chan_after op ch) p)"
    by (intro chan_do_eq chan_inv_slot assms(3))
  with reg.one_step [of m p x ch op] reg assms(2,3)
  have "registry_ok chan_inv ch_fd poller_view (None, None)
      (m(x \<mapsto> chan_after op ch), place (chan_after op ch) p)"
    unfolding poller_view_fun by auto
  moreover have "\<forall>a c. (m(x \<mapsto> chan_after op ch)) a = Some c \<longrightarrow> ch_addr c = a"
    using addr assms(2) by simp
  ultimately show ?thesis unfolding poller_ok_def fst_conv by blast
qed

end

lemma isWriting_after:
  "isWriting (chan_after x ch) =
     (case x of EnableWriting \<Rightarrow> True | DisableWriting \<Rightarrow> False | DisableAll \<Rightarrow> False | _ \<Rightarrow> isWriting ch)"
  by (cases x) (simp_all add: chan_after_def isWriting_bit bit_simps)

locale kernel = posix_io sys + epoll_kernel sys for sys

interpretation os_with_kernel: kernel "os_with cap inp ready" for cap inp ready ..

subsection \<open>Sending\<close>

lemma has_room_mono: "has_room n b \<Longrightarrow> m \<le> n \<Longrightarrow> has_room m b"
  by (auto simp: has_room_def)

text \<open>The part of a message the kernel takes at once, and when the code gives the message up.\<close>

definition taken :: "os \<Rightarrow> tcp_connection \<Rightarrow> byte list \<Rightarrow> nat" where
  "taken sys c bs =
     (if content (outputBuffer c) = [] then nat (fst (sys_write sys (sockfd (tc_socket c)) bs)) else 0)"

definition refused :: "os \<Rightarrow> tcp_connection \<Rightarrow> byte list \<Rightarrow> bool" where
  "refused sys c bs \<longleftrightarrow> content (outputBuffer c) = [] \<and>
     (let (n, e) = sys_write sys (sockfd (tc_socket c)) bs in n < 0 \<and> (e = EPIPE \<or> e = ECONNRESET))"

definition opt_to_list :: "'a option \<Rightarrow> 'a list" where
  "opt_to_list x = (case x of None \<Rightarrow> [] | Some y \<Rightarrow> [y])"

lemma pending_queue_opt:
  "el_pendingFunctors (queue_opt sys tid f l) = el_pendingFunctors l @ opt_to_list f"
  by (simp add: opt_to_list_def)

text \<open>A channel and a loop that may have changed only by registrations of the channel.\<close>

definition steps_to ::
    "(ptr \<Rightarrow> callback channel option) \<Rightarrow> ptr \<Rightarrow> callback channel \<times> eventloop \<Rightarrow>
     callback channel \<times> eventloop \<Rightarrow> bool" where
  "steps_to m x = (\<lambda>(ch, l) (ch', l'). chan_le ch ch' \<and> el_threadId l' = el_threadId l \<and>
     poller_ok (m(x \<mapsto> ch'), el_poller l'))"

text \<open>
  How a send ends: the socket is now \<open>s\<close>, \<open>left\<close> went into the output buffer, the functors \<open>fs\<close> into
  the queue of the loop, and the world is consistent.
\<close>

definition send_result ::
    "ptr \<Rightarrow> tcp_connection \<Rightarrow> eventloop \<Rightarrow> world \<Rightarrow> socket \<Rightarrow> byte list \<Rightarrow> Functor list \<Rightarrow>
     fault + world \<Rightarrow> bool" where
  "send_result a c l w s left fs r \<longleftrightarrow> (\<exists>b ch' l'.
     r = Inr (install a (c\<lparr>tc_socket := s, outputBuffer := b\<rparr>) ch' l' w) \<and>
     world_ok (install a (c\<lparr>tc_socket := s, outputBuffer := b\<rparr>) ch' l' w) \<and>
     (\<forall>ch. w_chans w (tc_channel c) = Some ch \<longrightarrow> chan_le ch ch') \<and>
     content b = content (outputBuffer c) @ left \<and> el_threadId l' = el_threadId l \<and>
     el_pendingFunctors l' = el_pendingFunctors l @ fs)"

lemma send_result_loop:
  "send_result a c l1 w s left fs r \<Longrightarrow> el_pendingFunctors l1 = el_pendingFunctors l @ gs \<Longrightarrow>
     el_threadId l1 = el_threadId l \<Longrightarrow>
     send_result a c l w s left (gs @ fs) r"
  by (auto simp: send_result_def)

lemma read_mem_result:
  "world_ok w \<Longrightarrow> read_mem msg len w = Inr bs \<Longrightarrow> length bs = unat len \<and> length bs \<le> vector_max"
  using world_okD(5) [of w msg]
  by (auto simp: read_mem_def min_absorb2 split: option.splits if_splits)

lemma remaining_bytes:
  assumes "0 \<le> n" "n \<le> int (length bs)" "length bs = unat (len :: size_t)" "length bs \<le> vector_max"
  shows "unat (len - of_int n) = length bs - nat n"
proof -
  have "nat n \<le> length bs" using assms(1,2) by linarith
  also have "\<dots> < 2 ^ 64" using assms(4) vector_max_less [of "length bs"] by simp
  finally have "unat (of_int n :: size_t) = nat n"
    unfolding of_int_size [OF assms(1)] by (rule unat_of_nat_size)
  then show ?thesis using assms(1-3)
    by (subst unat_diff_size) (simp_all add: word_le_nat_alt nat_le_iff)
qed

context kernel
begin

lemma send_rest_run:
  assumes lp: "ch_loop ch = tc_loop c" and pk: "poller_ok (m, el_poller l)" and x: "m (tc_channel c) = Some ch"
    and out: "buffer_inv (outputBuffer c)" "has_room (length bs - nat k) (outputBuffer c)" "length bs \<le> vector_max"
    and mem: "read_mem msg len w = Inr bs"
    and rem: "unat rem = length bs - nat k"
  shows "\<exists>b ch' l'. send_rest sys tid a msg len (k, rem, False, install a c ch l w) =
      Inr (install a (c\<lparr>outputBuffer := b\<rparr>) ch' l' w) \<and>
    buffer_inv b \<and> content b = content (outputBuffer c) @ drop (nat k) bs \<and>
    isWriting ch' = (isWriting ch \<or> drop (nat k) bs \<noteq> []) \<and>
    steps_to m (tc_channel c) (ch, l) (ch', l') \<and>
    el_pendingFunctors l' = el_pendingFunctors l @
      opt_to_list (if drop (nat k) bs \<noteq> [] then high_water a c rem else None)"
proof (cases "rem = 0")
  case True
  then have "drop (nat k) bs = []" using rem by simp
  moreover have "send_rest sys tid a msg len (k, rem, False, install a c ch l w) =
      Inr (install a (c\<lparr>outputBuffer := outputBuffer c\<rparr>) ch l w)"
    using True by (simp add: send_rest_def)
  ultimately show ?thesis
    using out pk x by (intro exI [of _ "outputBuffer c"] exI [of _ ch] exI [of _ l])
      (simp add: steps_to_def opt_to_list_def map_upd_triv)
next
  case False
  then have pos: "0 < rem" by (simp add: word_gt_0)
  then have ne: "drop (nat k) bs \<noteq> []" using rem by (simp add: word_gt_0 unat_eq_zero [symmetric])
  have tk: "take (unat rem) (drop (nat k) bs) = drop (nat k) bs" using rem by simp
  have le: "length (drop (nat k) bs) \<le> vector_max" using out(3) by simp
  have room: "has_room (length (drop (nat k) bs)) (outputBuffer c)"
    using out(2) by simp
  obtain b where b: "append_buf (drop (nat k) bs) (outputBuffer c) = Inr b" "buffer_inv b"
      "content b = content (outputBuffer c) @ drop (nat k) bs"
    using append_buf_ok [OF out(1) le room] by blast
  have inv: "chan_inv ch (el_poller l)"
    using pk x unfolding poller_ok_def registry_ok_def prod.case fst_conv by blast
  let ?ch' = "if isWriting ch then ch else chan_after EnableWriting ch"
  let ?l' = "(queue_opt sys tid (high_water a c rem) l)\<lparr>el_poller :=
      (if isWriting ch then el_poller l else place (chan_after EnableWriting ch) (el_poller l))\<rparr>"
  have run: "send_rest sys tid a msg len (k, rem, False, install a c ch l w) =
      Inr (install a (c\<lparr>outputBuffer := b\<rparr>) ?ch' ?l' w)"
    by (rule send_rest_appends [OF lp chan_inv_slot [OF inv] pos mem]) (simp add: tk b(1))
  have "poller_ok (m(tc_channel c \<mapsto> chan_after EnableWriting ch), place (chan_after EnableWriting ch) (el_poller l))"
    by (rule poller_ok_chan_do [OF pk x]) (simp add: chan_legal_def)
  then have st: "steps_to m (tc_channel c) (ch, l) (?ch', ?l')"
    using pk x by (simp add: steps_to_def map_upd_triv)
  have wr: "isWriting ?ch'" by (simp add: isWriting_after)
  have pend: "el_pendingFunctors ?l' = el_pendingFunctors l @ opt_to_list (high_water a c rem)"
    by (simp add: opt_to_list_def)
  show ?thesis
    using run b(2,3) wr st ne pend by (intro exI [of _ b] exI [of _ ?ch'] exI [of _ ?l']) simp
qed

lemma high_water_socket [simp]: "high_water a (c\<lparr>tc_socket := s\<rparr>) r = high_water a c r"
  by (simp add: high_water_def Let_def)

lemma send_finish:
  assumes ok: "world_ok w" and at: "attached a c ch l w" and live: "tc_state c \<noteq> kDisconnected"
    and s1: "sockfd s1 = sockfd (tc_socket c)" and l1: "el_poller l1 = el_poller l"
    and room: "has_room (length bs - nat k) (outputBuffer c)" "length bs \<le> vector_max"
    and mem: "read_mem msg len w = Inr bs" and rem: "unat rem = length bs - nat k"
  shows "send_result a c l1 w s1 (drop (nat k) bs)
    (opt_to_list (if drop (nat k) bs \<noteq> [] then high_water a c rem else None))
    (send_rest sys tid a msg len (k, rem, False, install a (c\<lparr>tc_socket := s1\<rparr>) ch l1 w))"
proof -
  have c: "w_conns w a = Some c" using at by (simp add: attached_def)
  from attachedE [OF ok c] obtain ch0 l0 where
    at0: "attached a c ch0 l0 w" and f: "ch_loop ch0 = tc_loop c" "ch_fd ch0 = sockfd (tc_socket c)"
      "chans_of (tc_loop c) w (tc_channel c) = Some ch0"
      "isWriting ch0 = (tc_state c \<noteq> kDisconnected \<and> content (outputBuffer c) \<noteq> [])"
      "buffer_inv (inputBuffer c)" "buffer_inv (outputBuffer c)" by blast
  have same: "ch0 = ch" "l0 = l" using at at0 by (simp_all add: attached_def)
  have pk: "poller_ok (chans_of (tc_loop c) w, el_poller l1)"
    using world_okD(1) [OF ok] at l1 by (simp add: attached_def)
  let ?c1 = "c\<lparr>tc_socket := s1\<rparr>" and ?m = "chans_of (tc_loop c) w"
  have "\<exists>b ch' l'. send_rest sys tid a msg len (k, rem, False, install a ?c1 ch l1 w) =
      Inr (install a (?c1\<lparr>outputBuffer := b\<rparr>) ch' l' w) \<and>
    buffer_inv b \<and> content b = content (outputBuffer ?c1) @ drop (nat k) bs \<and>
    isWriting ch' = (isWriting ch \<or> drop (nat k) bs \<noteq> []) \<and>
    steps_to ?m (tc_channel ?c1) (ch, l1) (ch', l') \<and>
    el_pendingFunctors l' = el_pendingFunctors l1 @
      opt_to_list (if drop (nat k) bs \<noteq> [] then high_water a ?c1 rem else None)"
    by (rule send_rest_run) (use f same pk room mem rem in simp_all)
  then obtain b ch' l' where
    r: "send_rest sys tid a msg len (k, rem, False, install a ?c1 ch l1 w) =
          Inr (install a (?c1\<lparr>outputBuffer := b\<rparr>) ch' l' w)"
    and b: "buffer_inv b" "content b = content (outputBuffer ?c1) @ drop (nat k) bs"
    and wr: "isWriting ch' = (isWriting ch \<or> drop (nat k) bs \<noteq> [])"
    and st: "steps_to ?m (tc_channel ?c1) (ch, l1) (ch', l')"
    and pend: "el_pendingFunctors l' = el_pendingFunctors l1 @
      opt_to_list (if drop (nat k) bs \<noteq> [] then high_water a ?c1 rem else None)"
    by blast
  have "world_ok (install a (?c1\<lparr>outputBuffer := b\<rparr>) ch' l' w)"
    by (rule world_ok_install [OF ok at])
      (use f same b wr st live s1 in \<open>auto simp: steps_to_def chan_le_def\<close>)
  moreover have "\<forall>d. w_chans w (tc_channel c) = Some d \<longrightarrow> chan_le d ch'"
    using at st by (simp add: attached_def steps_to_def)
  ultimately show ?thesis
    using r b pend st unfolding send_result_def steps_to_def by (intro exI [of _ b] exI [of _ ch'] exI [of _ l']) simp
qed

lemma kernel_took_0 [simp]: "kernel_took 0 bs s = s"
  by (simp add: kernel_took_def)

lemma conn_id [simp]: "c\<lparr>tc_socket := tc_socket c\<rparr> = c"
  by simp

text \<open>
  The cases of \<open>sendInLoop\<close> on a live connection: bytes are waiting, the direct write takes some, or
  it fails.
\<close>

lemma sendInLoop_start:
  assumes ok: "world_ok w" and c: "w_conns w a = Some c" and live: "tc_state c \<noteq> kDisconnected"
  obtains ch l where "attached a c ch l w" "ch_loop ch = tc_loop c" "ch_fd ch = sockfd (tc_socket c)"
    "(\<not> isWriting ch \<and> readableBytes (outputBuffer c) = 0) = (content (outputBuffer c) = [])"
    "\<And>tid msg len. sendInLoop sys tid a msg len w =
       bindE (send_direct sys tid a msg len (install a c ch l w)) (send_rest sys tid a msg len)"
proof -
  from attachedE [OF ok c] obtain ch l where
    at: "attached a c ch l w" and f: "ch_loop ch = tc_loop c" "ch_fd ch = sockfd (tc_socket c)"
      "isWriting ch = (tc_state c \<noteq> kDisconnected \<and> content (outputBuffer c) \<noteq> [])"
      "buffer_inv (outputBuffer c)" by blast
  have "(\<not> isWriting ch \<and> readableBytes (outputBuffer c) = 0) = (content (outputBuffer c) = [])"
    using f live by (auto simp: readable_zero)
  moreover have "sendInLoop sys tid a msg len w =
      bindE (send_direct sys tid a msg len (install a c ch l w)) (send_rest sys tid a msg len)" for tid msg len
    using c live attached_install [OF at] by (simp add: sendInLoop_def the_conn_def)
  ultimately show thesis using that at f(1,2) by blast
qed

lemma sendInLoop_buffered:
  assumes ok: "world_ok w" and c: "w_conns w a = Some c" and live: "tc_state c \<noteq> kDisconnected"
    and mem: "read_mem msg len w = Inr bs" and room: "has_room (length bs) (outputBuffer c)"
    and buffered: "content (outputBuffer c) \<noteq> []"
  shows "\<exists>ch l. attached a c ch l w \<and> send_result a c l w (tc_socket c) bs
    (opt_to_list (if bs \<noteq> [] then high_water a c len else None)) (sendInLoop sys tid a msg len w)"
proof -
  obtain ch l where at: "attached a c ch l w"
    and idle: "(\<not> isWriting ch \<and> readableBytes (outputBuffer c) = 0) = (content (outputBuffer c) = [])"
    and start: "sendInLoop sys tid a msg len w =
      bindE (send_direct sys tid a msg len (install a c ch l w)) (send_rest sys tid a msg len)"
    by (rule sendInLoop_start [OF ok c live]) blast
  have dir: "send_direct sys tid a msg len (install a c ch l w) = Inr (0, len, False, install a c ch l w)"
    by (rule send_direct_skips) (use buffered idle in blast)
  have "send_result a c l w (tc_socket c) (drop (nat 0) bs)
      (opt_to_list (if drop (nat 0) bs \<noteq> [] then high_water a c len else None))
      (send_rest sys tid a msg len (0, len, False, install a (c\<lparr>tc_socket := tc_socket c\<rparr>) ch l w))"
    by (rule send_finish [OF ok at live]) (use room read_mem_result [OF ok mem] mem in simp_all)
  then show ?thesis using at start dir by (intro exI [of _ ch] exI [of _ l]) auto
qed

lemma sendInLoop_wrote:
  assumes ok: "world_ok w" and c: "w_conns w a = Some c" and live: "tc_state c \<noteq> kDisconnected"
    and mem: "read_mem msg len w = Inr bs" and room: "has_room (length bs - nat n) (outputBuffer c)"
    and empty: "content (outputBuffer c) = []"
    and n: "sys_write sys (sockfd (tc_socket c)) bs = (n, e)" "0 \<le> n"
  shows "\<exists>ch l. attached a c ch l w \<and> send_result a c l w (kernel_took n bs (tc_socket c)) (drop (nat n) bs)
    (opt_to_list (if n = int (length bs) then write_done a c else None) @
     opt_to_list (if drop (nat n) bs \<noteq> [] then high_water a c (of_nat (length bs - nat n)) else None))
    (sendInLoop sys tid a msg len w)"
proof -
  obtain ch l where at: "attached a c ch l w" and f: "ch_loop ch = tc_loop c" "ch_fd ch = sockfd (tc_socket c)"
    and idle: "(\<not> isWriting ch \<and> readableBytes (outputBuffer c) = 0) = (content (outputBuffer c) = [])"
    and start: "sendInLoop sys tid a msg len w =
      bindE (send_direct sys tid a msg len (install a c ch l w)) (send_rest sys tid a msg len)"
    by (rule sendInLoop_start [OF ok c live]) blast
  have le: "n \<le> int (length bs)" by (rule write_le [OF n(1)])
  note msg = read_mem_result [OF ok mem]
  have u: "unat (len - of_int n) = length bs - nat n"
    by (rule remaining_bytes [OF n(2) le]) (use msg in simp_all)
  then have z: "len - of_int n = 0 \<longleftrightarrow> n = int (length bs)"
    using le n(2) by (simp add: unat_eq_zero [symmetric]) linarith
  let ?wd = "if len - of_int n = 0 then write_done a c else None"
  have dir: "send_direct sys tid a msg len (install a c ch l w) =
      Inr (n, len - of_int n, False,
           install a (c\<lparr>tc_socket := kernel_took n bs (tc_socket c)\<rparr>) ch (queue_opt sys tid ?wd l) w)"
    by (rule send_direct_writes) (use empty idle mem n f in auto)
  have "send_result a c (queue_opt sys tid ?wd l) w (kernel_took n bs (tc_socket c)) (drop (nat n) bs)
      (opt_to_list (if drop (nat n) bs \<noteq> [] then high_water a c (len - of_int n) else None))
      (send_rest sys tid a msg len (n, len - of_int n, False,
        install a (c\<lparr>tc_socket := kernel_took n bs (tc_socket c)\<rparr>) ch (queue_opt sys tid ?wd l) w))"
    by (rule send_finish [OF ok at live]) (use room msg mem u in simp_all)
  note r = send_result_loop [OF this pending_queue_opt queue_opt_thread]
  have rw: "len - of_int n = of_nat (length bs - nat n)" unfolding u [symmetric] by simp
  show ?thesis using r at start dir unfolding z rw [symmetric] by (intro exI [of _ ch] exI [of _ l]) auto
qed

lemma sendInLoop_failed:
  assumes ok: "world_ok w" and c: "w_conns w a = Some c" and live: "tc_state c \<noteq> kDisconnected"
    and mem: "read_mem msg len w = Inr bs"
    and room: "e = EPIPE \<or> e = ECONNRESET \<or> has_room (length bs) (outputBuffer c)"
    and empty: "content (outputBuffer c) = []"
    and n: "sys_write sys (sockfd (tc_socket c)) bs = (n, e)" "n < 0"
  shows "\<exists>ch l. attached a c ch l w \<and> send_result a c l w (tc_socket c)
    (if e = EPIPE \<or> e = ECONNRESET then [] else bs)
    (opt_to_list (if e \<noteq> EPIPE \<and> e \<noteq> ECONNRESET \<and> bs \<noteq> [] then high_water a c len else None))
    (sendInLoop sys tid a msg len w)"
proof -
  obtain ch l where at: "attached a c ch l w" and f: "ch_loop ch = tc_loop c" "ch_fd ch = sockfd (tc_socket c)"
    and idle: "(\<not> isWriting ch \<and> readableBytes (outputBuffer c) = 0) = (content (outputBuffer c) = [])"
    and start: "sendInLoop sys tid a msg len w =
      bindE (send_direct sys tid a msg len (install a c ch l w)) (send_rest sys tid a msg len)"
    by (rule sendInLoop_start [OF ok c live]) blast
  have dir: "send_direct sys tid a msg len (install a c ch l w) =
      Inr (0, len, e \<noteq> EWOULDBLOCK \<and> (e = EPIPE \<or> e = ECONNRESET), install a c ch l w)"
    by (rule send_direct_error) (use empty idle mem n f in auto)
  show ?thesis
  proof (cases "e = EPIPE \<or> e = ECONNRESET")
    case True
    have "world_ok (install a (c\<lparr>tc_socket := tc_socket c, outputBuffer := outputBuffer c\<rparr>) ch l w)"
      using ok attached_install [OF at] by simp
    then have "send_result a c l w (tc_socket c) [] [] (Inr (install a c ch l w))"
      using at unfolding send_result_def attached_def
      by (intro exI [of _ "outputBuffer c"] exI [of _ ch] exI [of _ l]) simp
    moreover have "sendInLoop sys tid a msg len w = Inr (install a c ch l w)"
      using start dir True by (auto simp: send_rest_def)
    ultimately show ?thesis using at True by (intro exI [of _ ch] exI [of _ l]) (auto simp: opt_to_list_def)
  next
    case False
    have "send_result a c l w (tc_socket c) (drop (nat 0) bs)
        (opt_to_list (if drop (nat 0) bs \<noteq> [] then high_water a c len else None))
        (send_rest sys tid a msg len (0, len, False, install a (c\<lparr>tc_socket := tc_socket c\<rparr>) ch l w))"
      by (rule send_finish [OF ok at live]) (use room False read_mem_result [OF ok mem] mem in auto)
    then show ?thesis using at start dir False by (intro exI [of _ ch] exI [of _ l]) auto
  qed
qed

text \<open>The whole of \<open>sendInLoop\<close>.\<close>

lemma sendInLoop_run:
  assumes ok: "world_ok w" and c: "w_conns w a = Some c" and live: "tc_state c \<noteq> kDisconnected"
    and mem: "read_mem msg len w = Inr bs"
    and room: "has_room (length bs - taken sys c bs) (outputBuffer c) \<or> refused sys c bs"
  shows "\<exists>ch l. attached a c ch l w \<and>
    send_result a c l w (kernel_took (int (taken sys c bs)) bs (tc_socket c))
      (if refused sys c bs then [] else drop (taken sys c bs) bs)
      (opt_to_list (if content (outputBuffer c) = [] \<and>
                       fst (sys_write sys (sockfd (tc_socket c)) bs) = int (length bs)
                    then write_done a c else None) @
       opt_to_list (if \<not> refused sys c bs \<and> taken sys c bs < length bs
                    then high_water a c (of_nat (length bs - taken sys c bs)) else None))
      (sendInLoop sys tid a msg len w)"
proof -
  have len: "len = of_nat (length bs)" using read_mem_result [OF ok mem] by simp
  obtain n e where ne: "sys_write sys (sockfd (tc_socket c)) bs = (n, e)" by fastforce
  consider "content (outputBuffer c) \<noteq> []" | "content (outputBuffer c) = []" "0 \<le> n"
    | "content (outputBuffer c) = []" "n < 0" by fastforce
  then show ?thesis
  proof cases
    case 1
    then have tk: "taken sys c bs = 0" "\<not> refused sys c bs" by (simp_all add: taken_def refused_def)
    with room have "has_room (length bs) (outputBuffer c)" by simp
    from sendInLoop_buffered [OF ok c live mem this 1, of tid] show ?thesis
      using 1 tk by (cases "bs = []") (simp_all add: len opt_to_list_def)
  next
    case 2
    then have tk: "taken sys c bs = nat n" "\<not> refused sys c bs" using ne by (simp_all add: taken_def refused_def)
    with room have "has_room (length bs - nat n) (outputBuffer c)" by simp
    from sendInLoop_wrote [OF ok c live mem this 2(1) ne 2(2), of tid] show ?thesis
      using 2 unfolding tk(1) by (simp add: tk(2) ne not_le del: of_nat_diff split del: if_split)
  next
    case 3
    then have tk: "taken sys c bs = 0" "refused sys c bs = (e = EPIPE \<or> e = ECONNRESET)"
      using ne by (simp_all add: taken_def refused_def)
    with room have "e = EPIPE \<or> e = ECONNRESET \<or> has_room (length bs) (outputBuffer c)" by auto
    from sendInLoop_failed [OF ok c live mem this 3(1) ne 3(2), of tid] show ?thesis
      using 3 tk ne by (cases "bs = []"; cases "e = EPIPE \<or> e = ECONNRESET"; auto simp: len opt_to_list_def; blast)
  qed
qed

end

subsection \<open>The write event\<close>

text \<open>What has gone to the kernel, followed by what waits in the output buffer.\<close>

definition pipe :: "tcp_connection \<Rightarrow> byte list" where
  "pipe c = sk_sent (tc_socket c) @ content (outputBuffer c)"

text \<open>The last write also stops the write events, announces completion, and finishes a shutdown.\<close>

definition drained :: "os \<Rightarrow> tcp_connection \<Rightarrow> int \<Rightarrow> buffer \<Rightarrow> tcp_connection" where
  "drained sys c n b =
     (let c1 = c\<lparr>outputBuffer := b, tc_socket := kernel_took n (content (outputBuffer c)) (tc_socket c)\<rparr>
      in if tc_state c = kDisconnecting
         then c1\<lparr>tc_socket := shutdownWrite sys (tc_socket c1)\<rparr> else c1)"

context kernel
begin

lemma sent_bytes_inv:
  assumes "buffer_inv b" "sys_write sys fd (content b) = (n, e)" "0 < n"
  shows "buffer_inv (retrieve (of_int n) b)" "content (retrieve (of_int n) b) = drop (nat n) (content b)"
proof -
  have n: "n \<le> int (length (content b))" by (rule write_le [OF assms(2)])
  have len: "length (content b) < 2 ^ 64" unfolding length_content [OF assms(1)] by (rule unat_lt_size)
  have "unat (of_int n :: size_t) = nat n"
    unfolding of_int_size [OF less_imp_le [OF assms(3)]] using n len
    by (intro unat_of_nat_size) linarith
  then show "content (retrieve (of_int n) b) = drop (nat n) (content b)"
    by (simp add: content_retrieve [OF assms(1)])
  show "buffer_inv (retrieve (of_int n) b)" by (rule retrieve_inv [OF assms(1)])
qed

text \<open>
  \<open>handleWrite\<close> on a connection that has output waiting: the cases of an error, of a partial write
  and of a write that empties the buffer.
\<close>

lemma handleWrite_error:
  assumes sys: "e_sys env = sys" and ok: "world_ok w" and c: "w_conns w a = Some c"
    and wr: "tc_state c \<noteq> kDisconnected" "content (outputBuffer c) \<noteq> []"
    and n: "sys_write sys (sockfd (tc_socket c)) (content (outputBuffer c)) = (n, e)" "n \<le> 0"
  shows "handleWrite env a w = Inr w"
proof -
  from attachedE [OF ok c] obtain ch l where
    at: "attached a c ch l w" and f: "ch_fd ch = sockfd (tc_socket c)"
      "isWriting ch = (tc_state c \<noteq> kDisconnected \<and> content (outputBuffer c) \<noteq> [])"
      "buffer_inv (outputBuffer c)" by blast
  note w = attached_install [OF at]
  have took: "kernel_took n bs s = s" for bs s using n(2) by (simp add: kernel_took_def)
  have "handleWrite env a (install a c ch l w) = Inr (install a c ch l w)"
    using f wr n sys writeFd_eq [of "outputBuffer c" sys "sockfd (tc_socket c)" n e]
      install_put(1) [of c c a ch l w]
    by (simp add: handleWrite_def took Let_def)
  then show ?thesis using w by simp
qed

lemma handleWrite_partial:
  assumes sys: "e_sys env = sys" and ok: "world_ok w" and c: "w_conns w a = Some c"
    and wr: "tc_state c \<noteq> kDisconnected" "content (outputBuffer c) \<noteq> []"
    and n: "sys_write sys (sockfd (tc_socket c)) (content (outputBuffer c)) = (n, e)" "0 < n"
    and part: "nat n < length (content (outputBuffer c))"
  shows "\<exists>b ch l. attached a c ch l w \<and>
    handleWrite env a w = Inr (install a (c\<lparr>outputBuffer := b,
      tc_socket := kernel_took n (content (outputBuffer c)) (tc_socket c)\<rparr>) ch l w) \<and>
    world_ok (install a (c\<lparr>outputBuffer := b,
      tc_socket := kernel_took n (content (outputBuffer c)) (tc_socket c)\<rparr>) ch l w) \<and>
    content b = drop (nat n) (content (outputBuffer c))"
proof -
  from attachedE [OF ok c] obtain ch l where
    at: "attached a c ch l w" and f: "ch_loop ch = tc_loop c" "ch_fd ch = sockfd (tc_socket c)"
      "chans_of (tc_loop c) w (tc_channel c) = Some ch"
      "isWriting ch = (tc_state c \<noteq> kDisconnected \<and> content (outputBuffer c) \<noteq> [])"
      "buffer_inv (inputBuffer c)" "buffer_inv (outputBuffer c)" by blast
  note w = attached_install [OF at]
  let ?b = "retrieve (of_int n) (outputBuffer c)"
  let ?c' = "c\<lparr>outputBuffer := ?b, tc_socket := kernel_took n (content (outputBuffer c)) (tc_socket c)\<rparr>"
  note b = sent_bytes_inv [OF f(6) n(1,2)]
  have ne: "content ?b \<noteq> []" using b(2) part by simp
  then have nz: "readableBytes ?b \<noteq> 0" using b(1) by (simp add: readable_zero)
  have wf: "writeFd sys (sockfd (tc_socket c)) (outputBuffer c) = Inr (n, None, ?b)"
    using writeFd_eq [OF f(6) n(1)] n(2) by simp
  have put: "put_conn a ?c' (install a c ch l w) = install a ?c' ch l w" by (rule install_put) simp_all
  have "handleWrite env a (install a c ch l w) = Inr (install a ?c' ch l w)"
    using f wr n(2) sys wf put nz by (simp add: handleWrite_def Let_def)
  moreover have "world_ok (install a ?c' ch l w)"
  proof (rule world_ok_install [OF ok at f(1)])
    show "poller_ok ((chans_of (tc_loop c) w)(tc_channel c \<mapsto> ch), el_poller l)"
      using f(3) world_okD(1) [OF ok] at by (simp add: attached_def map_upd_triv)
  qed (use f b ne wr in simp_all)
  ultimately show ?thesis using at w b(2) by (intro exI [of _ ?b] exI [of _ ch] exI [of _ l]) simp
qed

lemma handleWrite_last:
  assumes sys: "e_sys env = sys" and ok: "world_ok w" and c: "w_conns w a = Some c"
    and wr: "tc_state c \<noteq> kDisconnected" "content (outputBuffer c) \<noteq> []"
    and n: "sys_write sys (sockfd (tc_socket c)) (content (outputBuffer c)) = (n, e)" "0 < n"
    and all: "nat n = length (content (outputBuffer c))"
  shows "\<exists>b ch l ch' l'. attached a c ch l w \<and>
    handleWrite env a w = Inr (install a (drained sys c n b) ch' l' w) \<and>
    world_ok (install a (drained sys c n b) ch' l' w) \<and> content b = [] \<and> \<not> isWriting ch' \<and> chan_le ch ch' \<and>
    el_pendingFunctors l' = el_pendingFunctors l @ opt_to_list (write_done a c)"
proof -
  from attachedE [OF ok c] obtain ch l where
    at: "attached a c ch l w" and f: "ch_loop ch = tc_loop c" "ch_fd ch = sockfd (tc_socket c)"
      "chan_inv ch (el_poller l)" "chans_of (tc_loop c) w (tc_channel c) = Some ch"
      "isWriting ch = (tc_state c \<noteq> kDisconnected \<and> content (outputBuffer c) \<noteq> [])"
      "buffer_inv (inputBuffer c)" "buffer_inv (outputBuffer c)" by blast
  note w = attached_install [OF at]
  let ?b = "retrieve (of_int n) (outputBuffer c)" and ?ch' = "chan_after DisableWriting ch"
  let ?c1 = "c\<lparr>outputBuffer := ?b, tc_socket := kernel_took n (content (outputBuffer c)) (tc_socket c)\<rparr>"
  let ?l1 = "l\<lparr>el_poller := place ?ch' (el_poller l)\<rparr>"
  let ?l' = "queue_opt sys (e_tid env) (write_done a c) ?l1"
  note b = sent_bytes_inv [OF f(7) n(1,2)]
  have e: "content ?b = []" using b(2) all by simp
  then have z: "readableBytes ?b = 0" using b(1) by (simp add: readable_zero)
  have wf: "writeFd sys (sockfd (tc_socket c)) (outputBuffer c) = Inr (n, None, ?b)"
    using writeFd_eq [OF f(7) n(1)] n(2) by simp
  have put: "put_conn a ?c1 (install a c ch l w) = install a ?c1 ch l w" by (rule install_put) simp_all
  have call: "chan_call sys DisableWriting (tc_channel c) (install a ?c1 ch l w) =
      Inr (install a ?c1 ?ch' ?l1 w)"
    using install_chan_call [of ch ?c1 l DisableWriting a w] f(1) chan_inv_slot [OF f(3)]
    by (simp add: chan_legal_def)
  have q: "queue_call sys t (tc_loop c) g (install a ?c1 ?ch' ?l1 w) =
      Inr (install a ?c1 ?ch' (queueInLoop sys t g ?l1) w)" for t g
    using install_queue_call [of sys t ?c1 g a ?ch' ?l1 w] by simp
  have nw: "\<not> isWriting ?ch'" by (simp add: isWriting_after)
  let ?s = "c\<lparr>outputBuffer := ?b, tc_socket := shutdownWrite sys (tc_socket ?c1)\<rparr>"
  have shut: "shutdownInLoop sys a (install a ?c1 ?ch' k w) = Inr (install a ?s ?ch' k w)" for k
    using nw install_put(1) [of ?s ?c1 a ?ch' k w] install_the(2) [of a ?c1 ?ch' k w]
    by (simp add: shutdownInLoop_def)
  have run: "handleWrite env a (install a c ch l w) = Inr (install a (drained sys c n ?b) ?ch' ?l' w)"
    using f wr n(2) sys wf put z call q shut
    by (cases "writeCompleteCallback c") (simp_all add: handleWrite_def Let_def drained_def write_done_def)
  have "world_ok (install a (drained sys c n ?b) ?ch' ?l' w)"
  proof (rule world_ok_install [OF ok at f(1)])
    have "poller_ok (chans_of (tc_loop c) w, el_poller l)"
      using world_okD(1) [OF ok] at by (simp add: attached_def)
    from poller_ok_chan_do [OF this f(4), of DisableWriting]
    show "poller_ok ((chans_of (tc_loop c) w)(tc_channel c \<mapsto> ?ch'), el_poller ?l')"
      by (simp add: chan_legal_def)
  qed (use f b e nw in \<open>simp_all add: drained_def Let_def\<close>)
  moreover have "el_pendingFunctors ?l' = el_pendingFunctors l @ opt_to_list (write_done a c)"
    by (simp add: pending_queue_opt del: queue_opt_sel(2))
  ultimately show ?thesis using at w run e nw
    by (intro exI [of _ ?b] exI [of _ ch] exI [of _ l] exI [of _ ?ch'] exI [of _ ?l']) simp
qed

end

end
