(* ===== verification/ConnectionSafety.thy ===== *)
theory ConnectionSafety
  imports ConnectionRuns
begin

text \<open>
  Every operation of a connection, and every user function made of calls of the public interface, keeps
  \<open>world_ok\<close> and moves the connections along \<open>world_le\<close>: the contract of \<open>EventLoop\<close>, interpreted
  on the world.
\<close>

subsection \<open>What every operation promises\<close>

text \<open>
  \<open>conn_le\<close>: a connection keeps its identity, its state only moves forward, what has been handed to
  the kernel only grows, and so does that followed by what still waits: nothing that was accepted is lost,
  changed or reordered. A shut-down write side stays shut down, and the callbacks of
  a connection that its server has set up stay as they are. \<open>world_le\<close> says it of every connection;
  the channels that are there keep their loop, descriptor and callbacks, and the loops stay.
\<close>

definition conn_le :: "tcp_connection \<Rightarrow> tcp_connection \<Rightarrow> bool" where
  "conn_le c c' \<longleftrightarrow> tc_loop c' = tc_loop c \<and> tc_channel c' = tc_channel c \<and> tc_name c' = tc_name c \<and>
     sockfd (tc_socket c') = sockfd (tc_socket c) \<and> tc_state c \<le> tc_state c' \<and>
     prefix (sk_sent (tc_socket c)) (sk_sent (tc_socket c')) \<and> prefix (pipe c) (pipe c') \<and>
     (sk_shut_wr (tc_socket c) \<longrightarrow> sk_shut_wr (tc_socket c')) \<and>
     (tc_closeCallback c \<noteq> None \<longrightarrow> tc_closeCallback c' = tc_closeCallback c \<and>
        connectionCallback c' = connectionCallback c \<and> messageCallback c' = messageCallback c)"

definition world_le :: "world \<Rightarrow> world \<Rightarrow> bool" where
  "world_le w w' \<longleftrightarrow> 
     (\<forall>a c. w_conns w a = Some c \<longrightarrow> (\<exists>c'. w_conns w' a = Some c' \<and> conn_le c c')) \<and>
     (\<forall>x ch. w_chans w x = Some ch \<longrightarrow> (\<exists>ch'. w_chans w' x = Some ch' \<and> chan_le ch ch')) \<and>
     (\<forall>lp. w_loops w lp \<noteq> None \<longrightarrow> w_loops w' lp \<noteq> None)"

lemma conn_le_refl [simp]: "conn_le c c"
  by (simp add: conn_le_def)

lemma conn_le_trans: "conn_le c c' \<Longrightarrow> conn_le c' c'' \<Longrightarrow> conn_le c c''"
  unfolding conn_le_def by (auto intro: order_trans prefix_order.trans)

lemma world_le_refl [simp]: "world_le w w"
  by (simp add: world_le_def)

lemma world_le_trans:
  assumes 1: "world_le w w'" and 2: "world_le w' w''"
  shows "world_le w w''"
  unfolding world_le_def
proof (intro conjI allI impI)
  fix a c assume "w_conns w a = Some c"
  with 1 obtain c' where "w_conns w' a = Some c'" "conn_le c c'" unfolding world_le_def by blast
  moreover from this 2 obtain c'' where "w_conns w'' a = Some c''" "conn_le c' c''" unfolding world_le_def by blast
  ultimately show "\<exists>c''. w_conns w'' a = Some c'' \<and> conn_le c c''" using conn_le_trans by blast
next
  fix x and ch :: "callback channel" assume "w_chans w x = Some ch"
  with 1 obtain ch' where "w_chans w' x = Some ch'" "chan_le ch ch'" unfolding world_le_def by blast
  moreover from this 2 obtain ch'' where "w_chans w'' x = Some ch''" "chan_le ch' ch''" unfolding world_le_def by blast
  ultimately show "\<exists>ch''. w_chans w'' x = Some ch'' \<and> chan_le ch ch''" using chan_le_trans by blast
next
  fix lp assume "w_loops w lp \<noteq> None"
  then show "w_loops w'' lp \<noteq> None" using 1 2 unfolding world_le_def by blast
qed

lemma world_le_conn:
  assumes "world_le w w'" "w_conns w a = Some c"
  obtains c' where "w_conns w' a = Some c'" "conn_le c c'"
  using assms unfolding world_le_def by blast

lemma world_le_chan:
  assumes "world_le w w'" "w_chans w x = Some ch"
  obtains ch' where "w_chans w' x = Some ch'" "chan_le ch ch'"
  using assms unfolding world_le_def by blast

lemma world_le_loop: "world_le w w' \<Longrightarrow> w_loops w lp \<noteq> None \<Longrightarrow> w_loops w' lp \<noteq> None"
  unfolding world_le_def by blast

interpretation wc: contract world_ok world_le
  by unfold_locales (auto intro: world_le_trans)

abbreviation safe :: "(world \<Rightarrow> fault + world) \<Rightarrow> bool" where
  "safe \<equiv> keeps world_ok world_le"

lemma world_le_install:
  "attached a c ch l w \<Longrightarrow> conn_le c c' \<Longrightarrow> chan_le ch ch' \<Longrightarrow> world_le w (install a c' ch' l' w)"
  by (simp add: world_le_def attached_def conn_le_def [of c c'])

lemma the_simps: 
  "the_conn w a = Inr c \<longleftrightarrow> w_conns w a = Some c" "the_chan w x = Inr ch \<longleftrightarrow> w_chans w x = Some ch"
  "the_loop w lp = Inr l \<longleftrightarrow> w_loops w lp = Some l" "the_server w s = Inr sv \<longleftrightarrow> w_servers w s = Some sv"
  by (simp_all add: the_conn_def the_chan_def the_loop_def the_server_def split: option.splits)

subsection \<open>Parts of the world that the invariant does not speak about\<close>

lemma world_ok_cong:
  assumes "w_conns w' = w_conns w" "w_chans w' = w_chans w" "w_strings w' = w_strings w"
    and "\<And>lp. map_option el_poller (w_loops w' lp) = map_option el_poller (w_loops w lp)"
  shows "world_ok w' = world_ok w"
proof -
  have co: "chans_of lp w' = chans_of lp w" for lp by (simp add: chans_of_def fun_eq_iff assms(2))
  have ck: "conn_ok w' c = conn_ok w c" for c by (simp add: conn_ok_def assms(2))
  have none: "(w_loops w' lp = None) = (w_loops w lp = None)" for lp
    using assms(4) [of lp] by (metis option.map_disc_iff)
  have pk: "(\<forall>l. w_loops w' lp = Some l \<longrightarrow> P (el_poller l)) = (\<forall>l. w_loops w lp = Some l \<longrightarrow> P (el_poller l))" for lp P
    using assms(4) [of lp] by (cases "w_loops w lp"; cases "w_loops w' lp") auto
  show ?thesis
    unfolding world_ok_def co ck none assms(1-3)
    using pk [where P = "\<lambda>p. poller_ok (chans_of lp w, p)" for lp] by simp
qed

lemma keeps_upd_loop:
  assumes "world_ok w" "w_loops w lp \<noteq> None" "\<And>l. el_poller (f l) = el_poller l"
  shows "world_ok (upd_loop lp f w) \<and> world_le w (upd_loop lp f w)"
proof -
  have "world_ok (upd_loop lp f w) = world_ok w"
    by (rule world_ok_cong) (use assms(2,3) in \<open>auto simp: upd_loop_def put_loop_def loop_at_def\<close>)
  then show ?thesis using assms(1) by (simp add: world_le_def upd_loop_def put_loop_def)
qed

lemma safe_queue_call: "safe (queue_call sys tid lp f)"
  by (rule keepsI) (auto simp: queue_call_def bindE_eq_Inr the_simps
      intro: keeps_upd_loop [THEN conjunct1] keeps_upd_loop [THEN conjunct2])

lemma safe_run_call:
  assumes "safe (exec f)"
  shows "safe (run_call sys tid lp exec f)"
proof (rule keepsI)
  fix w w' assume ok: "world_ok w" and r: "run_call sys tid lp exec f w = Inr w'"
  then obtain l where l: "w_loops w lp = Some l" by (auto simp: run_call_def bindE_eq_Inr the_simps)
  show "world_ok w' \<and> world_le w w'"
  proof (cases "isInLoopThread tid l")
    case True
    then show ?thesis using r l keepsD [OF assms ok]
      by (simp add: run_call_def runInLoop_def loop_at_def the_loop_def)
  next
    case False
    then have "w' = upd_loop lp (queueInLoop sys tid f) w"
      using r l by (simp add: run_call_def runInLoop_def loop_at_def the_loop_def)
    then show ?thesis using keeps_upd_loop [OF ok] l by simp
  qed
qed

lemma keeps_put_server: "world_ok w \<Longrightarrow> world_ok (put_server s sv w) \<and> world_le w (put_server s sv w)"
  using world_ok_cong [of "put_server s sv w" w] by (simp add: put_server_def world_le_def)

text \<open>Changing a connection without touching its channel or its loop.\<close>

lemma put_conn_upto:
  assumes ok: "world_ok w" and c: "w_conns w a = Some c"
    and id: "tc_channel c' = tc_channel c" "tc_loop c' = tc_loop c" "sockfd (tc_socket c') = sockfd (tc_socket c)"
    and same: "buffer_inv (inputBuffer c')" "outputBuffer c' = outputBuffer c"
      "(tc_state c' = kDisconnected) = (tc_state c = kDisconnected)"
  obtains ch l where "attached a c ch l w" "put_conn a c' w = install a c' ch l w" "world_ok (put_conn a c' w)"
proof -
  from attachedE [OF ok c] obtain ch l where
    at: "attached a c ch l w" and f: "ch_loop ch = tc_loop c" "ch_fd ch = sockfd (tc_socket c)"
      "chans_of (tc_loop c) w (tc_channel c) = Some ch"
      "isWriting ch = (tc_state c \<noteq> kDisconnected \<and> content (outputBuffer c) \<noteq> [])"
      "buffer_inv (outputBuffer c)" by blast
  have eq: "put_conn a c' w = install a c' ch l w"
    using attached_install [OF at] install_put(1) [of c' c a ch l w] id by simp
  have "world_ok (install a c' ch l w)"
  proof (rule world_ok_install [OF ok at f(1)])
    show "poller_ok ((chans_of (tc_loop c) w)(tc_channel c \<mapsto> ch), el_poller l)"
      using f(3) world_okD(1) [OF ok] at by (simp add: attached_def map_upd_triv)
  qed (use f same id in simp_all)
  with that [OF at eq] eq show thesis by simp
qed

lemma keeps_put_conn:
  assumes ok: "world_ok w" and c: "w_conns w a = Some c" and le: "conn_le c c'"
    and same: "buffer_inv (inputBuffer c')" "outputBuffer c' = outputBuffer c"
      "(tc_state c' = kDisconnected) = (tc_state c = kDisconnected)"
  shows "world_ok (put_conn a c' w) \<and> world_le w (put_conn a c' w)"
  using le by (rule_tac put_conn_upto [OF ok c _ _ _ same]) (auto simp: conn_le_def [of c c'] intro: world_le_install)

subsection \<open>Sending keeps the contract\<close>

context kernel
begin

text \<open>What does not go out at once and has no room ends the call with the exception of the buffer.\<close>

lemma sendInLoop_full:
  assumes ok: "world_ok w" and at: "attached a c ch l w" and live: "tc_state c \<noteq> kDisconnected"
    and mem: "read_mem msg len w = Inr bs"
    and full: "\<not> has_room (length bs - taken sys c bs) (outputBuffer c)" "\<not> refused sys c bs"
  shows "sendInLoop sys tid a msg len w = Inl (LengthError ''vector::resize'')"
proof -
  have c: "w_conns w a = Some c" using at by (simp add: attached_def)
  from attachedE [OF ok c] at have f: "ch_fd ch = sockfd (tc_socket c)"
      "isWriting ch = (tc_state c \<noteq> kDisconnected \<and> content (outputBuffer c) \<noteq> [])"
      "buffer_inv (outputBuffer c)" by (auto simp: attached_def)
  note w = attached_install [OF at] and rm = read_mem_result [OF ok mem]
  have idle: "(\<not> isWriting ch \<and> readableBytes (outputBuffer c) = 0) = (content (outputBuffer c) = [])"
    using f live by (auto simp: readable_zero)
  obtain n e where ne: "sys_write sys (sockfd (tc_socket c)) bs = (n, e)" by fastforce
  have n: "n \<le> int (length bs)" by (rule write_le [OF ne])
  have pos: "0 < length bs - taken sys c bs" using full(1) by (auto simp: has_room_def intro: ccontr)
  have fail: "append_buf (drop (taken sys c bs) bs) (outputBuffer c) = Inl (LengthError ''vector::resize'')"
  proof (rule append_buf_fails)
    show "length (drop (taken sys c bs) bs) \<le> vector_max" using rm by auto
  qed (use f(3) full in simp_all)
  have rest: "send_rest sys tid a msg len (k, rem, False, install a (c\<lparr>tc_socket := s\<rparr>) ch l1 w) =
      Inl (LengthError ''vector::resize'')"
    if "unat rem = length bs - taken sys c bs" "nat k = taken sys c bs" for k rem s l1
  proof -
    have "0 < rem" using that(1) pos by (simp add: word_gt_0 unat_eq_zero [symmetric])
    then show ?thesis using that mem fail by (simp add: send_rest_eq)
  qed
  have run: "sendInLoop sys tid a msg len w =
      bindE (send_direct sys tid a msg len (install a c ch l w)) (send_rest sys tid a msg len)"
    using c w live by (simp add: sendInLoop_def the_conn_def)
  show ?thesis
  proof (cases "content (outputBuffer c) = []")
    case False
    then show ?thesis
      using run send_direct_skips [of ch c sys tid a msg len l w] idle rm rest [of len 0 "tc_socket c" l]
      by (auto simp: taken_def)
  next
    case True
    then have idle': "\<not> isWriting ch" "readableBytes (outputBuffer c) = 0" using idle by auto
    have wr: "sys_write sys (ch_fd ch) bs = (n, e)" using ne f(1) by simp
    show ?thesis
    proof (cases "0 \<le> n")
      case n0: True
      have tk: "nat n = taken sys c bs" using True ne by (simp add: taken_def)
      have "unat (len - of_int n) = length bs - taken sys c bs"
        unfolding tk [symmetric] using rm by (intro remaining_bytes [OF n0 n]) blast+
      note rest = rest [OF this tk]
      show ?thesis
        using run unfolding send_direct_writes [OF idle' mem wr n0] bindE_simps rest by simp
    next
      case False
      then have "taken sys c bs = 0" using True ne by (simp add: taken_def)
      moreover have "\<not> (e = EPIPE \<or> e = ECONNRESET)"
        using full(2) False True ne by (simp add: refused_def)
      ultimately show ?thesis
        using run send_direct_error [OF idle' mem wr] False rest [of len 0 "tc_socket c" l] rm by simp
    qed
  qed
qed

lemma room_or_fault:
  assumes "world_ok w" "attached a c ch l w" "tc_state c \<noteq> kDisconnected" "read_mem msg len w = Inr bs"
    and "sendInLoop sys tid a msg len w = Inr w'"
  shows "has_room (length bs - taken sys c bs) (outputBuffer c) \<or> refused sys c bs"
  using sendInLoop_full [OF assms(1-4), of tid] assms(5) by auto

lemma set_opt_to_list: "f \<in> set (opt_to_list x) \<longleftrightarrow> x = Some f"
  by (cases x) (auto simp: opt_to_list_def)

lemma write_done_Some: "write_done a c = Some f \<Longrightarrow> \<exists>n. f = WriteComplete n a"
  by (auto simp: write_done_def)

lemma high_water_Some: "high_water a c k = Some f \<Longrightarrow> \<exists>n k. f = HighWaterMark n a k"
  by (auto simp: high_water_def Let_def split: if_splits)

text \<open>A send that returns has done nothing, or what \<open>sendInLoop_run\<close> says.\<close>

lemma sendInLoop_done:
  assumes ok: "world_ok w" and at: "attached a c ch l w" and live: "tc_state c \<noteq> kDisconnected"
    and run: "sendInLoop sys tid a msg len w = Inr w'"
  shows "w' = w \<or> (\<exists>bs fs. send_result a c l w (kernel_took (int (taken sys c bs)) bs (tc_socket c))
    (if refused sys c bs then [] else drop (taken sys c bs) bs) fs (Inr w') \<and>
    (\<forall>f \<in> set fs. (\<exists>n. f = WriteComplete n a) \<or> (\<exists>n k. f = HighWaterMark n a k)))"
proof -
  have c: "w_conns w a = Some c" using at by (simp add: attached_def)
  from attachedE [OF ok c] at have f:
      "isWriting ch = (tc_state c \<noteq> kDisconnected \<and> content (outputBuffer c) \<noteq> [])"
      "buffer_inv (outputBuffer c)" by (auto simp: attached_def)
  note w = attached_install [OF at]
  have run2: "bindE (send_direct sys tid a msg len (install a c ch l w)) (send_rest sys tid a msg len) = Inr w'"
    using run c w live by (simp add: sendInLoop_def the_conn_def)
  have idle: "(\<not> isWriting ch \<and> readableBytes (outputBuffer c) = 0) = (content (outputBuffer c) = [])"
    using f live by (auto simp: readable_zero)
  show ?thesis
  proof (cases "read_mem msg len w")
    case (Inl e)
    then have busy: "isWriting ch \<or> readableBytes (outputBuffer c) \<noteq> 0"
      using run2 by (auto simp: send_direct_def)
    have "send_rest sys tid a msg len (0, len, False, install a c ch l w) = Inr w'"
      using run2 send_direct_skips [OF busy] by simp
    then have "install a c ch l w = w'"
      using Inl by (cases "len = 0") (simp add: send_rest_def, simp add: send_rest_eq word_gt_0)
    then show ?thesis using w by simp
  next
    case (Inr bs)
    have room: "has_room (length bs - taken sys c bs) (outputBuffer c) \<or> refused sys c bs"
      by (rule room_or_fault [OF ok at live Inr run])
    from sendInLoop_run [OF ok c live Inr room, of tid] run at obtain fs where
      r: "send_result a c l w (kernel_took (int (taken sys c bs)) bs (tc_socket c))
          (if refused sys c bs then [] else drop (taken sys c bs) bs) fs (Inr w')" and
      fs: "fs = opt_to_list (if content (outputBuffer c) = [] \<and>
             fst (sys_write sys (sockfd (tc_socket c)) bs) = int (length bs) then write_done a c else None) @
           opt_to_list (if \<not> refused sys c bs \<and> taken sys c bs < length bs
             then high_water a c (of_nat (length bs - taken sys c bs)) else None)"
      by (auto simp: attached_def)
    have "write_done a c = Some f \<or> (\<exists>k. high_water a c k = Some f)" if "f \<in> set fs" for f
      using that unfolding fs by (auto simp: set_opt_to_list split: if_splits)
    then have "\<forall>f \<in> set fs. (\<exists>n. f = WriteComplete n a) \<or> (\<exists>n k. f = HighWaterMark n a k)"
      using write_done_Some high_water_Some by blast
    with r show ?thesis by blast
  qed
qed

lemma safe_sendInLoop: "safe (sendInLoop sys tid a msg len)"
proof (rule keepsI)
  fix w w' assume ok: "world_ok w" and run: "sendInLoop sys tid a msg len w = Inr w'"
  then obtain c where c: "w_conns w a = Some c" by (auto simp: sendInLoop_def bindE_eq_Inr the_simps)
  from attachedE [OF ok c] obtain ch l where at: "attached a c ch l w" by blast
  show "world_ok w' \<and> world_le w w'"
  proof (cases "tc_state c = kDisconnected")
    case True
    then show ?thesis using ok run c by (simp add: sendInLoop_def the_conn_def)
  next
    case live: False
    consider "w' = w" | bs fs where "send_result a c l w (kernel_took (int (taken sys c bs)) bs (tc_socket c))
        (if refused sys c bs then [] else drop (taken sys c bs) bs) fs (Inr w')"
      using sendInLoop_done [OF ok at live run] by blast
    then show ?thesis
    proof cases
      case (2 bs fs)
      then obtain b ch' l' where
        r: "w' = install a (c\<lparr>tc_socket := kernel_took (int (taken sys c bs)) bs (tc_socket c), outputBuffer := b\<rparr>) ch' l' w"
          "world_ok w'" "content b = content (outputBuffer c) @ (if refused sys c bs then [] else drop (taken sys c bs) bs)"
          "\<And>d. w_chans w (tc_channel c) = Some d \<Longrightarrow> chan_le d ch'"
        by (auto simp: send_result_def)
      have "conn_le c (c\<lparr>tc_socket := kernel_took (int (taken sys c bs)) bs (tc_socket c), outputBuffer := b\<rparr>)"
        using r(3) by (auto simp: conn_le_def pipe_def taken_def refused_def split: if_splits)
      moreover have "chan_le ch ch'" by (rule r(4)) (use at in \<open>simp add: attached_def\<close>)
      ultimately show ?thesis using r(1,2) world_le_install [OF at] by simp
    qed (use ok in simp)
  qed
qed

end

subsection \<open>Shutting down and user code keep the contract\<close>

lemma conn_le_shut [simp]: "conn_le c (c\<lparr>tc_socket := shutdownWrite sys (tc_socket c)\<rparr>)"
  by (simp add: conn_le_def pipe_def) (simp add: shutdownWrite_def)

lemma conn_le_setState: "tc_state c \<le> s \<Longrightarrow> conn_le c (setState s c)"
  by (simp add: conn_le_def pipe_def setState_def)

lemma conn_le_input [simp]: "conn_le c (c\<lparr>inputBuffer := b\<rparr>)"
  by (simp add: conn_le_def pipe_def)

lemma conn_inv: "world_ok w \<Longrightarrow> w_conns w a = Some c \<Longrightarrow> buffer_inv (inputBuffer c) \<and> buffer_inv (outputBuffer c)"
  using world_okD(3) [of w a c] by (simp add: conn_ok_def)

lemma safe_shutdownInLoop: "safe (shutdownInLoop sys a)"
proof (rule keepsI)
  fix w w' assume ok: "world_ok w" and run: "shutdownInLoop sys a w = Inr w'"
  then obtain c where c: "w_conns w a = Some c" by (auto simp: shutdownInLoop_def bindE_eq_Inr the_simps)
  then have "w' = w \<or> w' = put_conn a (c\<lparr>tc_socket := shutdownWrite sys (tc_socket c)\<rparr>) w"
    using run by (auto simp: shutdownInLoop_def the_conn_def bindE_eq_Inr split: if_splits)
  then show "world_ok w' \<and> world_le w w'"
    using ok keeps_put_conn [OF ok c, of "c\<lparr>tc_socket := shutdownWrite sys (tc_socket c)\<rparr>"]
      conn_inv [OF ok c] by auto
qed

lemma safe_run_call_const: "safe g \<Longrightarrow> safe (run_call sys tid lp (\<lambda>_. g) f)"
  by (rule safe_run_call)

lemma safe_shutdown: "safe (shutdown sys tid a)"
proof (rule keepsI)
  fix w w' assume ok: "world_ok w" and run: "shutdown sys tid a w = Inr w'"
  then obtain c where c: "w_conns w a = Some c" by (auto simp: shutdown_def bindE_eq_Inr the_simps)
  show "world_ok w' \<and> world_le w w'"
  proof (cases "tc_state c = kConnected")
    case False
    then show ?thesis using run c ok by (simp add: shutdown_def the_conn_def)
  next
    case True
    let ?w1 = "put_conn a (setState kDisconnecting c) w"
    have "conn_le c (setState kDisconnecting c)"
      by (rule conn_le_setState) (simp add: True less_eq_StateE_def)
    then have "world_ok ?w1 \<and> world_le w ?w1"
      by (rule keeps_put_conn [OF ok c]) (use conn_inv [OF ok c] True in \<open>simp_all add: setState_def\<close>)
    moreover have "run_call sys tid (tc_loop c) (\<lambda>_. shutdownInLoop sys a) (ShutdownInLoop a) ?w1 = Inr w'"
      using run c True by (simp add: shutdown_def the_conn_def)
    ultimately show ?thesis
      using wc.keeps_chain [OF _ _ safe_run_call_const [OF safe_shutdownInLoop]] by blast
  qed
qed

lemma keeps_strings:
  assumes "world_ok w" "\<And>p bs. m p = Some bs \<Longrightarrow> length bs \<le> vector_max"
  shows "world_ok (w\<lparr>w_strings := m\<rparr>) \<and> world_le w (w\<lparr>w_strings := m\<rparr>)"
proof -
  have "chans_of lp (w\<lparr>w_strings := m\<rparr>) = chans_of lp w" for lp by (simp add: chans_of_def fun_eq_iff)
  then show ?thesis
    using assms by (simp add: world_ok_def world_le_def conn_ok_def)
qed

lemma retrieveAllAsString_eq:
  assumes "buffer_inv b"
  shows "retrieveAllAsString b = Inr (content b, retrieve (readableBytes b) b)"
  unfolding retrieveAllAsString_def
  using retrieveAsString_ok [OF assms, of "readableBytes b"] assms by (simp add: length_content)

lemma length_content_max: "buffer_inv b \<Longrightarrow> length (content b) \<le> vector_max"
  unfolding buffer_inv_def content_def by (auto simp: min_def)

context kernel
begin

lemma safe_send: "safe (send sys tid a p)"
proof (rule keepsI)
  fix w w' assume ok: "world_ok w" and run: "send sys tid a p w = Inr w'"
  then obtain c where c: "w_conns w a = Some c" by (auto simp: send_def bindE_eq_Inr the_simps)
  show "world_ok w' \<and> world_le w w'"
  proof (cases "tc_state c = kConnected")
    case False
    then show ?thesis using run c ok by (simp add: send_def the_conn_def)
  next
    case True
    then obtain len where "sendInLoop sys tid a p len w = Inr w' \<or>
        run_call sys tid (tc_loop c) (\<lambda>_. sendInLoop sys tid a p len) (SendInLoop a p len) w = Inr w'"
      using run c by (auto simp: send_def the_conn_def bindE_eq_Inr split: option.splits if_splits)
    then show ?thesis
      using keepsD [OF safe_sendInLoop ok] keepsD [OF safe_run_call_const [OF safe_sendInLoop] ok] by blast
  qed
qed

lemma safe_user_do: "safe (user_do sys tid x)"
proof (rule keepsI)
  fix w w' assume ok: "world_ok w" and run: "user_do sys tid x w = Inr w'"
  show "world_ok w' \<and> world_le w w'"
  proof (cases x)
    case (MakeString p bs)
    then have "length bs \<le> vector_max" "w' = w\<lparr>w_strings := (w_strings w)(p \<mapsto> bs)\<rparr>"
      using run by (simp_all split: if_splits)
    moreover have "length bs' \<le> vector_max" if "((w_strings w)(p \<mapsto> bs)) q = Some bs'" for q bs'
      using that \<open>length bs \<le> vector_max\<close> world_okD(5) [OF ok, of q] by (auto split: if_splits)
    ultimately show ?thesis using keeps_strings [OF ok] by blast
  next
    case (FreeString p)
    then have "w' = w\<lparr>w_strings := (w_strings w)(p := None)\<rparr>" using run by simp
    moreover have "length bs' \<le> vector_max" if "((w_strings w)(p := None)) q = Some bs'" for q bs'
      using that world_okD(5) [OF ok, of q] by (auto split: if_splits)
    ultimately show ?thesis using keeps_strings [OF ok] by blast
  next
    case (TakeInput a p)
    then obtain c where c: "w_conns w a = Some c" using run by (auto simp: bindE_eq_Inr the_simps)
    let ?b = "retrieve (readableBytes (inputBuffer c)) (inputBuffer c)"
    let ?w1 = "put_conn a (c\<lparr>inputBuffer := ?b\<rparr>) w" and ?bs = "content (inputBuffer c)"
    have inv: "buffer_inv (inputBuffer c)" using conn_inv [OF ok c] by simp
    then have w': "w' = ?w1\<lparr>w_strings := (w_strings w)(p \<mapsto> ?bs)\<rparr>"
      using run c TakeInput by (simp add: the_conn_def retrieveAllAsString_eq)
    have 1: "world_ok ?w1 \<and> world_le w ?w1"
      by (rule keeps_put_conn [OF ok c]) (use inv retrieve_inv conn_inv [OF ok c] in simp_all)
    have "world_ok w' \<and> world_le ?w1 w'"
      unfolding w' by (rule keeps_strings)
        (use 1 world_okD(5) [OF ok] length_content_max [OF inv] in \<open>auto split: if_splits\<close>)
    with 1 show ?thesis using world_le_trans by blast
  next
    case (RetrieveInput a n)
    then obtain c where c: "w_conns w a = Some c"
        "w' = put_conn a (c\<lparr>inputBuffer := retrieve n (inputBuffer c)\<rparr>) w"
      using run by (auto simp: bindE_eq_Inr the_simps)
    show ?thesis unfolding c(2)
      by (rule keeps_put_conn [OF ok c(1)]) (use conn_inv [OF ok c(1)] retrieve_inv in simp_all)
  next
    case (SendString a p)
    then show ?thesis using keepsD [OF safe_send ok] run by simp
  next
    case (ShutdownConnection a)
    then show ?thesis using keepsD [OF safe_shutdown ok] run by simp
  next
    case (SetWriteCompleteCallback a cb)
    then obtain c where c: "w_conns w a = Some c" "w' = put_conn a (setWriteCompleteCallback cb c) w"
      using run by (auto simp: bindE_eq_Inr the_simps)
    show ?thesis unfolding c(2)
      by (rule keeps_put_conn [OF ok c(1)])
        (use conn_inv [OF ok c(1)] in \<open>simp_all add: conn_le_def pipe_def setWriteCompleteCallback_def\<close>)
  next
    case (SetHighWaterMarkCallback a cb mark)
    then obtain c where c: "w_conns w a = Some c" "w' = put_conn a (setHighWaterMarkCallback cb mark c) w"
      using run by (auto simp: bindE_eq_Inr the_simps)
    show ?thesis unfolding c(2)
      by (rule keeps_put_conn [OF ok c(1)])
        (use conn_inv [OF ok c(1)] in \<open>simp_all add: conn_le_def pipe_def setHighWaterMarkCallback_def\<close>)
  next
    case (QueueInLoop lp n)
    then show ?thesis using keepsD [OF safe_queue_call ok] run by simp
  next
    case (QuitLoop lp)
    then have "w_loops w lp \<noteq> None" "w' = upd_loop lp (quit sys tid) w"
      using run by (auto simp: bindE_eq_Inr the_simps)
    then show ?thesis
      using keeps_upd_loop [OF ok, of lp "quit sys tid"]
      by (simp add: quit_def set_quit_def wakeup_def Let_def)
  qed
qed

lemma safe_run_user: "safe (run_user sys tid xs)"
proof (induction xs)
  case Nil
  then show ?case by (simp add: keeps_def)
next
  case (Cons x xs)
  have "safe (\<lambda>w. bindE (user_do sys tid x w) (run_user sys tid xs))"
    by (rule wc.keeps_bind [OF safe_user_do Cons.IH])
  then show ?case by (simp add: keeps_def)
qed

end

subsection \<open>Closing, events and life keep the contract\<close>

lemma safe_bind_conn:
  assumes "\<And>c. safe (g c)"
  shows "safe (\<lambda>w. bindE (the_conn w a) (\<lambda>c. g c w))"
  using assms unfolding keeps_def bindE_eq_Inr by blast

lemma safe_return [simp]: "safe Inr"
  by (simp add: keeps_def)

lemma safe_fault [simp]: "safe (\<lambda>w. Inl e)"
  by (simp add: keeps_def)

lemma safe_bind_server:
  assumes "\<And>sv. safe (g sv)"
  shows "safe (\<lambda>w. bindE (the_server w a) (\<lambda>sv. g sv w))"
  using assms unfolding keeps_def bindE_eq_Inr by blast

lemma safe_put_server:
  assumes "safe f"
  shows "safe (\<lambda>w. f (put_server s sv w))"
proof (rule keepsI)
  fix w w' assume "world_ok w" "f (put_server s sv w) = Inr w'"
  then show "world_ok w' \<and> world_le w w'"
    using wc.keeps_chain [OF _ _ assms] keeps_put_server by blast
qed

lemma safe_removeConnectionInLoop: "safe (removeConnectionInLoop sys tid server conn)"
  unfolding removeConnectionInLoop_def
  by (intro safe_bind_server safe_bind_conn safe_put_server safe_queue_call)

lemma safe_removeConnection: "safe (removeConnection sys tid server conn)"
  using safe_run_call_const [OF safe_removeConnectionInLoop]
  unfolding removeConnection_def keeps_def bindE_eq_Inr by blast

lemma safe_call_closeCallback: "safe (call_closeCallback sys tid a)"
  unfolding call_closeCallback_def
proof (rule safe_bind_conn)
  fix c
  show "safe (\<lambda>w. case tc_closeCallback c of None \<Rightarrow> Inl (BadFunctionCall ''closeCallback_'')
      | Some server \<Rightarrow> removeConnection sys tid server a w)"
    by (cases "tc_closeCallback c") (simp_all add: safe_removeConnection)
qed

lemma safe_handleError: "safe (handleError a)"
  by (auto simp: keeps_def handleError_def bindE_eq_Inr)

context kernel
begin

lemma safe_call_user: "e_sys env = sys \<Longrightarrow> safe (call_user env x)"
  using safe_run_user unfolding keeps_def call_user_def by blast

lemma safe_call_connectionCallback:
  assumes "e_sys env = sys"
  shows "safe (call_connectionCallback env a)"
  unfolding call_connectionCallback_def
proof (rule safe_bind_conn)
  fix c
  show "safe (\<lambda>w. case connectionCallback c of None \<Rightarrow> Inl (BadFunctionCall ''connectionCallback_'')
      | Some DefaultConnectionCallback \<Rightarrow> Inr w
      | Some (UserConnectionCallback n) \<Rightarrow> call_user env (OnConnection n a) w)"
    using safe_call_user [OF assms]
    by (cases "connectionCallback c"; cases "the (connectionCallback c)") simp_all
qed

lemma safe_defaultMessageCallback: "safe (defaultMessageCallback a)"
proof (rule keepsI)
  fix w w' assume ok: "world_ok w" and run: "defaultMessageCallback a w = Inr w'"
  then obtain c where c: "w_conns w a = Some c" "w' = put_conn a (c\<lparr>inputBuffer := retrieveAll (inputBuffer c)\<rparr>) w"
    by (auto simp: defaultMessageCallback_def bindE_eq_Inr the_simps)
  show "world_ok w' \<and> world_le w w'" unfolding c(2)
    by (rule keeps_put_conn [OF ok c(1)]) (use conn_inv [OF ok c(1)] retrieveAll_inv in simp_all)
qed

lemma safe_call_messageCallback:
  assumes "e_sys env = sys"
  shows "safe (call_messageCallback env a t)"
  unfolding call_messageCallback_def
proof (rule safe_bind_conn)
  fix c
  show "safe (\<lambda>w. case messageCallback c of None \<Rightarrow> Inl (BadFunctionCall ''messageCallback_'')
      | Some DefaultMessageCallback \<Rightarrow> defaultMessageCallback a w
      | Some (UserMessageCallback n) \<Rightarrow> call_user env (OnMessage n a t) w)"
    using safe_call_user [OF assms] safe_defaultMessageCallback
    by (cases "messageCallback c"; cases "the (messageCallback c)") simp_all
qed

text \<open>Entering \<open>kDisconnected\<close> and disabling all events, as \<open>handleClose\<close> and \<open>connectDestroyed\<close> do.\<close>

lemma keeps_disconnect:
  assumes ok: "world_ok w" and c: "w_conns w a = Some c"
    and run: "chan_call sys DisableAll (tc_channel c) (put_conn a (setState kDisconnected c) w) = Inr w'"
  shows "world_ok w' \<and> world_le w w' \<and>
    (\<exists>ch l. attached a c ch l w \<and> ch_loop ch = tc_loop c \<and>
      w' = install a (setState kDisconnected c) (chan_after DisableAll ch)
        (l\<lparr>el_poller := place (chan_after DisableAll ch) (el_poller l)\<rparr>) w)"
proof -
  from attachedE [OF ok c] obtain ch l where
    at: "attached a c ch l w" and f: "ch_loop ch = tc_loop c" "ch_fd ch = sockfd (tc_socket c)"
      "chan_inv ch (el_poller l)" "chans_of (tc_loop c) w (tc_channel c) = Some ch" by blast
  let ?c = "setState kDisconnected c" and ?ch = "chan_after DisableAll ch"
  let ?l = "l\<lparr>el_poller := place ?ch (el_poller l)\<rparr>"
  have id: "tc_channel ?c = tc_channel c" "tc_loop ?c = tc_loop c" by (simp_all add: setState_def)
  have "chan_call sys DisableAll (tc_channel ?c) (install a ?c ch l w) = Inr (install a ?c ?ch ?l w)"
    by (rule install_chan_call) (use f id chan_inv_slot [OF f(3)] in \<open>simp_all add: chan_legal_def\<close>)
  then have w': "w' = install a ?c ?ch ?l w"
    using run attached_install [OF at] install_put(1) [of ?c c a ch l w] id by simp
  have "world_ok (install a ?c ?ch ?l w)"
  proof (rule world_ok_install [OF ok at f(1)])
    have "poller_ok (chans_of (tc_loop c) w, el_poller l)"
      using world_okD(1) [OF ok] at by (simp add: attached_def)
    from poller_ok_chan_do [OF this f(4), of DisableAll]
    show "poller_ok ((chans_of (tc_loop c) w)(tc_channel c \<mapsto> ?ch), el_poller ?l)"
      by (simp add: chan_legal_def)
  qed (use f conn_inv [OF ok c] in \<open>simp_all add: setState_def isWriting_after\<close>)
  moreover have "world_le w (install a ?c ?ch ?l w)"
    by (rule world_le_install [OF at conn_le_setState]) simp_all
  ultimately show ?thesis using w' at f(1) by blast
qed

text \<open>Registrations that leave the write events as they are.\<close>

lemma keeps_chan_call:
  assumes ok: "world_ok w" and c: "w_conns w a = Some c" and x: "x \<in> {EnableReading, DisableReading, Remove}"
    and run: "chan_call sys x (tc_channel c) w = Inr w'"
  shows "world_ok w' \<and> world_le w w'"
proof -
  from attachedE [OF ok c] obtain ch l where
    at: "attached a c ch l w" and f: "ch_loop ch = tc_loop c" "ch_fd ch = sockfd (tc_socket c)"
      "chan_inv ch (el_poller l)" "chans_of (tc_loop c) w (tc_channel c) = Some ch"
      "isWriting ch = (tc_state c \<noteq> kDisconnected \<and> content (outputBuffer c) \<noteq> [])" by blast
  have legal: "chan_legal x ch"
  proof (rule ccontr)
    assume *: "\<not> chan_legal x ch"
    then have "x = Remove" "chan_do sys Remove ch (el_poller l) = Inl (AssertFail ''removeChannel'')"
      by (auto simp: chan_legal_def chan_do_remove removeChannel_new)
    then have "chan_call sys x (tc_channel c) w = Inl (AssertFail ''removeChannel'')"
      using at f(1) by (simp add: chan_call_def attached_def the_chan_def the_loop_def)
    then show False using run by simp
  qed
  let ?ch = "chan_after x ch" and ?l = "l\<lparr>el_poller := place (chan_after x ch) (el_poller l)\<rparr>"
  have "chan_call sys x (tc_channel c) (install a c ch l w) = Inr (install a c ?ch ?l w)"
    by (rule install_chan_call [OF f(1) chan_inv_slot [OF f(3)] legal])
  then have w': "w' = install a c ?ch ?l w" using run attached_install [OF at] by simp
  have "world_ok (install a c ?ch ?l w)"
  proof (rule world_ok_install [OF ok at f(1)])
    have "poller_ok (chans_of (tc_loop c) w, el_poller l)"
      using world_okD(1) [OF ok] at by (simp add: attached_def)
    from poller_ok_chan_do [OF this f(4) legal]
    show "poller_ok ((chans_of (tc_loop c) w)(tc_channel c \<mapsto> ?ch), el_poller ?l)" by simp
    show "isWriting ?ch = (tc_state c \<noteq> kDisconnected \<and> content (outputBuffer c) \<noteq> [])"
      using f(5) x by (auto simp: isWriting_after)
  qed (use f conn_inv [OF ok c] in simp_all)
  moreover have "world_le w (install a c ?ch ?l w)" by (rule world_le_install [OF at]) simp_all
  ultimately show ?thesis using w' by simp
qed

lemma safe_handleClose: "e_sys env = sys \<Longrightarrow> safe (handleClose env a)"
proof (rule keepsI)
  fix w w' assume env: "e_sys env = sys" and ok: "world_ok w" and run: "handleClose env a w = Inr w'"
  then obtain c w1 where c: "w_conns w a = Some c"
      and w1: "chan_call sys DisableAll (tc_channel c) (put_conn a (setState kDisconnected c) w) = Inr w1"
      and rest: "bindE (call_connectionCallback env a w1) (call_closeCallback sys (e_tid env) a) = Inr w'"
    by (auto simp: handleClose_def bindE_eq_Inr the_simps)
  have "safe (\<lambda>w. bindE (call_connectionCallback env a w) (call_closeCallback sys (e_tid env) a))"
    by (rule wc.keeps_bind [OF safe_call_connectionCallback [OF env] safe_call_closeCallback])
  then show "world_ok w' \<and> world_le w w'"
    using wc.keeps_chain rest keeps_disconnect [OF ok c w1] by blast
qed

lemma safe_handleRead: "e_sys env = sys \<Longrightarrow> safe (handleRead env t a)"
proof (rule keepsI)
  fix w w' assume env: "e_sys env = sys" and ok: "world_ok w" and run: "handleRead env t a w = Inr w'"
  then obtain c n e b and ch :: "callback channel" where c: "w_conns w a = Some c"
      and rd: "readFd sys (ch_fd ch) (inputBuffer c) = Inr (n, e, b)"
      and rest: "(if n > 0 then call_messageCallback env a t (put_conn a (c\<lparr>inputBuffer := b\<rparr>) w)
        else if n = 0 then handleClose env a (put_conn a (c\<lparr>inputBuffer := b\<rparr>) w)
        else handleError a (put_conn a (c\<lparr>inputBuffer := b\<rparr>) w)) = Inr w'"
    by (auto simp: handleRead_def bindE_eq_Inr the_simps Let_def)
  have b: "buffer_inv b"
    using rd by (cases rule: readFd_result [OF posix_io_axioms, of "inputBuffer c" "ch_fd ch"])
      (use conn_inv [OF ok c] in auto)
  have "world_ok (put_conn a (c\<lparr>inputBuffer := b\<rparr>) w) \<and> world_le w (put_conn a (c\<lparr>inputBuffer := b\<rparr>) w)"
    by (rule keeps_put_conn [OF ok c]) (use b in simp_all)
  then have k: "safe g \<Longrightarrow> g (put_conn a (c\<lparr>inputBuffer := b\<rparr>) w) = Inr w' \<Longrightarrow> world_ok w' \<and> world_le w w'" for g
    using wc.keeps_chain by blast
  show "world_ok w' \<and> world_le w w'"
  proof (cases "n > 0")
    case True
    then show ?thesis using k [OF safe_call_messageCallback [OF env]] rest by simp
  next
    case False
    then show ?thesis
      using k [OF safe_handleClose [OF env]] k [OF safe_handleError] rest by (cases "n = 0") simp_all
  qed
qed

text \<open>The write event, from the three equations of \<open>ConnectionRuns\<close>.\<close>

lemma handleWrite_idle:
  assumes "world_ok w" "w_conns w a = Some c" "tc_state c = kDisconnected \<or> content (outputBuffer c) = []"
  shows "handleWrite env a w = Inr w"
proof -
  from attachedE [OF assms(1,2)] obtain ch l where at: "attached a c ch l w"
    and wr: "isWriting ch = (tc_state c \<noteq> kDisconnected \<and> content (outputBuffer c) \<noteq> [])" by blast
  then show ?thesis using assms(2,3) by (auto simp: handleWrite_def the_conn_def the_chan_def attached_def)
qed

lemma conn_le_written:
  assumes "content b = drop (nat n) (content (outputBuffer c))"
  shows "conn_le c (c\<lparr>outputBuffer := b, tc_socket := kernel_took n (content (outputBuffer c)) (tc_socket c)\<rparr>)"
  using assms by (simp add: conn_le_def pipe_def)

lemma conn_le_drained:
  assumes "content b = []" "nat n = length (content (outputBuffer c))"
  shows "conn_le c (drained sys' c n b)"
proof -
  let ?c = "c\<lparr>outputBuffer := b, tc_socket := kernel_took n (content (outputBuffer c)) (tc_socket c)\<rparr>"
  have "conn_le c ?c" by (rule conn_le_written) (use assms in simp)
  moreover have "conn_le ?c (?c\<lparr>tc_socket := shutdownWrite sys' (tc_socket ?c)\<rparr>)" by (rule conn_le_shut)
  ultimately show ?thesis
    using conn_le_trans [of c ?c] by (auto simp: drained_def Let_def)
qed

lemma safe_handleWrite:
  assumes env: "e_sys env = sys"
  shows "safe (handleWrite env a)"
proof (rule keepsI)
  fix w w' assume ok: "world_ok w" and run: "handleWrite env a w = Inr w'"
  then obtain c where c: "w_conns w a = Some c" by (auto simp: handleWrite_def bindE_eq_Inr the_simps)
  obtain n e where n: "sys_write sys (sockfd (tc_socket c)) (content (outputBuffer c)) = (n, e)" by fastforce
  note le = write_le [OF n]
  consider "tc_state c = kDisconnected \<or> content (outputBuffer c) = []"
    | "tc_state c \<noteq> kDisconnected" "content (outputBuffer c) \<noteq> []" "n \<le> 0"
    | "tc_state c \<noteq> kDisconnected" "content (outputBuffer c) \<noteq> []" "0 < n" "nat n < length (content (outputBuffer c))"
    | "tc_state c \<noteq> kDisconnected" "content (outputBuffer c) \<noteq> []" "0 < n" "nat n = length (content (outputBuffer c))"
    using le by linarith
  then show "world_ok w' \<and> world_le w w'"
  proof cases
    case 1
    then show ?thesis using handleWrite_idle [OF ok c] run ok by simp
  next
    case 2
    then show ?thesis using handleWrite_error [OF env ok c _ _ n] run ok by simp
  next
    case 3
    from handleWrite_partial [OF env ok c 3(1,2) n 3(3,4)] run obtain b ch l where
      at: "attached a c ch l w" and r: "w' = install a (c\<lparr>outputBuffer := b,
            tc_socket := kernel_took n (content (outputBuffer c)) (tc_socket c)\<rparr>) ch l w"
        "world_ok w'" "content b = drop (nat n) (content (outputBuffer c))" by auto
    then show ?thesis using world_le_install [OF at conn_le_written [OF r(3)] chan_le_refl] by simp
  next
    case 4
    from handleWrite_last [OF env ok c 4(1,2) n 4(3,4)] run obtain b ch l ch' l' where
      at: "attached a c ch l w" "chan_le ch ch'" and
      r: "w' = install a (drained sys c n b) ch' l' w" "world_ok w'" "content b = []" by auto
    then show ?thesis using world_le_install [OF at(1) conn_le_drained [OF r(3) 4(4)] at(2)] by simp
  qed
qed

lemma keeps_tie:
  assumes ok: "world_ok w" and c: "w_conns w a = Some c" and run: "chan_tie obj (tc_channel c) w = Inr w'"
  shows "world_ok w' \<and> world_le w w'"
proof -
  from attachedE [OF ok c] obtain ch l where
    at: "attached a c ch l w" and f: "ch_loop ch = tc_loop c" "ch_fd ch = sockfd (tc_socket c)"
      "chans_of (tc_loop c) w (tc_channel c) = Some ch"
      "isWriting ch = (tc_state c \<noteq> kDisconnected \<and> content (outputBuffer c) \<noteq> [])" by blast
  have w': "w' = install a c (tie obj ch) l w"
  proof -
    have "chan_tie obj (tc_channel c) (install a c ch l w) = Inr (install a c (tie obj ch) l w)"
      by (simp add: chan_tie_def install_put)
    then show ?thesis using run attached_install [OF at] by simp
  qed
  have "world_ok (install a c (tie obj ch) l w)"
  proof (rule world_ok_install [OF ok at f(1)])
    have "poller_ok (chans_of (tc_loop c) w, el_poller l)"
      using world_okD(1) [OF ok] at by (simp add: attached_def)
    then show "poller_ok ((chans_of (tc_loop c) w)(tc_channel c \<mapsto> tie obj ch), el_poller l)"
      by (rule poller_ok_same [where x = "tc_channel c" and ch = ch]) (use f(3) in \<open>simp_all add: tie_def\<close>)
  qed (use f conn_inv [OF ok c] in \<open>simp_all add: tie_def isWriting_def chan_le_def\<close>)
  then show ?thesis using w' world_le_install [OF at] by simp
qed

text \<open>\<open>connectEstablished\<close>, up to the call of the user's function.\<close>

lemma connectEstablished_upto:
  assumes env: "e_sys env = sys" and ok: "world_ok w" and c: "w_conns w a = Some c" and st: "tc_state c = kConnecting"
    and w1: "chan_tie a (tc_channel c) (put_conn a (setState kConnected c) w) = Inr w1"
    and w2: "chan_call (e_sys env) EnableReading (tc_channel c) w1 = Inr w2"
  shows "world_ok w2 \<and> world_le w w2"
proof -
  let ?c = "setState kConnected c"
  have "world_ok (put_conn a ?c w) \<and> world_le w (put_conn a ?c w)"
  proof (rule keeps_put_conn [OF ok c conn_le_setState])
    show "tc_state c \<le> kConnected" using st by (simp add: less_eq_StateE_def)
  qed (use conn_inv [OF ok c] st in \<open>simp_all add: setState_def\<close>)
  moreover have "w_conns (put_conn a ?c w) a = Some ?c" "tc_channel ?c = tc_channel c"
    by (simp_all add: put_conn_def setState_def)
  ultimately have k1: "world_ok w1 \<and> world_le w w1"
    using keeps_tie [of "put_conn a ?c w" a ?c a w1] w1 world_le_trans by auto
  obtain c1 where c1: "w_conns w1 a = Some c1" "conn_le c c1" using k1 c world_le_conn by blast
  then have "tc_channel c1 = tc_channel c" by (simp add: conn_le_def)
  then have "world_ok w2 \<and> world_le w1 w2"
    using keeps_chan_call [OF _ c1(1), of EnableReading w2] k1 w2 env by simp
  with k1 show ?thesis using world_le_trans by blast
qed

lemma safe_connectEstablished:
  assumes env: "e_sys env = sys"
  shows "safe (connectEstablished env a)"
proof (rule keepsI)
  fix w w' assume ok: "world_ok w" and run: "connectEstablished env a w = Inr w'"
  then obtain c w1 w2 where c: "w_conns w a = Some c" and st: "tc_state c = kConnecting"
      and w1: "chan_tie a (tc_channel c) (put_conn a (setState kConnected c) w) = Inr w1"
      and w2: "chan_call (e_sys env) EnableReading (tc_channel c) w1 = Inr w2"
      and rest: "call_connectionCallback env a w2 = Inr w'"
    by (auto simp: connectEstablished_def bindE_eq_Inr the_simps guardE_eq_Inr)
  show "world_ok w' \<and> world_le w w'"
    using connectEstablished_upto [OF env ok c st w1 w2]
      wc.keeps_chain [OF _ _ safe_call_connectionCallback [OF env] rest] by blast
qed

lemma safe_connectDestroyed:
  assumes env: "e_sys env = sys"
  shows "safe (connectDestroyed env a)"
proof (rule keepsI)
  fix w w' assume ok: "world_ok w" and run: "connectDestroyed env a w = Inr w'"
  then obtain c w1 where c: "w_conns w a = Some c"
      and w1: "(if tc_state c = kConnected
        then bindE (chan_call sys DisableAll (tc_channel c) (put_conn a (setState kDisconnected c) w))
               (call_connectionCallback env a)
        else Inr w) = Inr w1"
      and w2: "chan_call sys Remove (tc_channel c) w1 = Inr w'"
    unfolding connectDestroyed_def bindE_eq_Inr the_simps env by blast
  have k1: "world_ok w1 \<and> world_le w w1"
  proof (cases "tc_state c = kConnected")
    case True
    then obtain w0 where w0: "chan_call sys DisableAll (tc_channel c) (put_conn a (setState kDisconnected c) w) = Inr w0"
        "call_connectionCallback env a w0 = Inr w1"
      using w1 by (auto simp: bindE_eq_Inr)
    then show ?thesis
      using keeps_disconnect [OF ok c w0(1)] wc.keeps_chain [OF _ _ safe_call_connectionCallback [OF env] w0(2)]
      by blast
  next
    case False
    then show ?thesis using w1 ok by simp
  qed
  obtain c1 where c1: "w_conns w1 a = Some c1" "conn_le c c1" using k1 c world_le_conn by blast
  then have "tc_channel c1 = tc_channel c" by (simp add: conn_le_def)
  then have "world_ok w' \<and> world_le w1 w'" using keeps_chan_call [OF _ c1(1), of Remove w'] k1 w2 by simp
  with k1 show "world_ok w' \<and> world_le w w'" using world_le_trans by blast
qed

end

subsection \<open>Destruction\<close>

lemma install_put_server:
  "put_server s sv (install a c ch l w) = install a c ch l (put_server s sv w)"
  by (simp add: install_def put_server_def)

lemma put_server_sel [simp]:
  "w_conns (put_server s sv w) = w_conns w" "w_chans (put_server s sv w) = w_chans w"
  "w_loops (put_server s sv w) = w_loops w" "w_strings (put_server s sv w) = w_strings w"
  "w_servers (put_server s sv w) = (w_servers w)(s \<mapsto> sv)"
  by (simp_all add: put_server_def)

text \<open>Destroying a connection whose channel has left the poller keeps the invariant.\<close>

lemma poller_ok_delete:
  assumes "poller_ok (m, p)" "m x = Some ch" "ch_index ch = kNew"
  shows "poller_ok (m(x := None), p)"
proof -
  have parts: "\<And>b d. m b = Some d \<Longrightarrow> chan_inv d p \<and> ch_addr d = b"
      "\<And>b b' d d'. m b = Some d \<Longrightarrow> m b' = Some d' \<Longrightarrow> ch_fd d = ch_fd d' \<Longrightarrow> b = b'"
      "\<And>k. poller_view p k \<noteq> (None, None) \<Longrightarrow> \<exists>b d. m b = Some d \<and> ch_fd d = k"
    using assms(1) unfolding poller_ok_def registry_ok_def prod.case fst_conv by blast+
  have empty: "poller_view p (ch_fd ch) = (None, None)"
    using parts(1) [OF assms(2)] assms(3)
    by (simp add: poller_view_def chan_inv_def registered_def watched_def)
  show ?thesis
    unfolding poller_ok_def registry_ok_def prod.case fst_conv
  proof (intro conjI allI impI)
    fix b d assume "(m(x := None)) b = Some d"
    then show "chan_inv d p" "ch_addr d = b" using parts(1) [of b d] by (auto split: if_splits)
  next
    fix b b' d d' assume "(m(x := None)) b = Some d" "(m(x := None)) b' = Some d'" "ch_fd d = ch_fd d'"
    then show "b = b'" using parts(2) [of b d b' d'] by (auto split: if_splits)
  next
    fix k assume k: "poller_view p k \<noteq> (None, None)"
    from parts(3) [OF this] obtain b d where "m b = Some d" "ch_fd d = k" by blast
    with k empty assms(2) show "\<exists>b d. (m(x := None)) b = Some d \<and> ch_fd d = k"
      by (intro exI [of _ b] exI [of _ d]) auto
  qed
qed

lemma world_ok_del_chan:
  assumes ok: "world_ok w" and ch: "w_chans w x = Some ch" "ch_index ch = kNew"
    and foreign: "\<And>a c. w_conns w a = Some c \<Longrightarrow> tc_channel c \<noteq> x"
    and sel: "w_conns w' = w_conns w" "w_chans w' = (w_chans w)(x := None)" "w_loops w' = w_loops w"
      "w_strings w' = w_strings w"
  shows "world_ok w'"
proof -
  have chans: "chans_of lp w' = (chans_of lp w)(x := None)" for lp
    by (simp add: chans_of_def fun_eq_iff sel)
  have 1: "poller_ok (chans_of lp w', el_poller l)" if "w_loops w' lp = Some l" for lp l
  proof -
    have p: "poller_ok (chans_of lp w, el_poller l)" using world_okD(1) [OF ok] that by (simp add: sel)
    show ?thesis
    proof (cases "lp = ch_loop ch")
      case True
      then have "chans_of lp w x = Some ch" using ch by (simp add: chans_of_def)
      then show ?thesis unfolding chans by (rule poller_ok_delete [OF p _ ch(2)])
    next
      case False
      then have "chans_of lp w x = None" using ch by (simp add: chans_of_def)
      then have "(chans_of lp w)(x := None) = chans_of lp w" by (simp add: fun_upd_idem)
      then show ?thesis unfolding chans using p by simp
    qed
  qed
  have 2: "w_loops w' (ch_loop d) \<noteq> None" if "w_chans w' y = Some d" for y d
    using that world_okD(2) [OF ok, of y d] by (auto simp: sel split: if_splits)
  have 3: "conn_ok w' d" if "w_conns w' b = Some d" for b d
    using that foreign [of b d] world_okD(3) [OF ok, of b d] by (simp add: conn_ok_def sel)
  have 4: "b = b'" if "w_conns w' b = Some d" "w_conns w' b' = Some d'" "tc_channel d = tc_channel d'" for b b' d d'
    using that world_okD(4) [OF ok, of b d b' d'] by (simp add: sel)
  have 5: "length bs \<le> vector_max" if "w_strings w' q = Some bs" for q bs
    using that world_okD(5) [OF ok] by (simp add: sel)
  have 6: "handlers_ok d" if "w_chans w' y = Some d" for y d
    using that world_okD(6) [OF ok, of y d] by (auto simp: sel split: if_splits)
  show ?thesis
    unfolding world_ok_def
    by (intro conjI allI impI) (erule 1, erule 2, erule 3, erule (2) 4, erule 5, erule 6)
qed

lemma keeps_dtor:
  assumes ok: "world_ok w" and c: "w_conns w a = Some c" "tc_state c = kDisconnected"
    and ch: "w_chans w (tc_channel c) = Some ch" "ch_index ch = kNew"
  shows "\<exists>w'. TcpConnection_dtor a w = Inr w' \<and> world_ok w' \<and> w_conns w' = (w_conns w)(a := None) \<and>
    w_chans w' = (w_chans w)(tc_channel c := None)"
proof -
  let ?x = "tc_channel c" and ?w1 = "w\<lparr>w_conns := (w_conns w)(a := None)\<rparr>"
  let ?w' = "w\<lparr>w_conns := (w_conns w)(a := None), w_chans := (w_chans w)(?x := None)\<rparr>"
  have chans: "chans_of lp ?w1 = chans_of lp w" and conn: "conn_ok ?w1 d = conn_ok w d" for lp d
    by (simp_all add: chans_of_def conn_ok_def fun_eq_iff)
  have 1: "world_ok ?w1"
    using ok unfolding world_ok_def chans conn by simp
  have "tc_channel d \<noteq> ?x" if "w_conns ?w1 b = Some d" for b d
    using that world_okD(4) [OF ok _ c(1), of b d] by (auto split: if_splits)
  then have "world_ok ?w'" by (intro world_ok_del_chan [OF 1, where x = ?x and ch = ch]) (use ch in simp_all)
  moreover have "TcpConnection_dtor a w = Inr ?w'"
    using c by (simp add: TcpConnection_dtor_def the_conn_def)
  ultimately show ?thesis by simp
qed

end
