(* ===== verification/TcpServer.thy ===== *)
theory TcpServer
  imports ConnectionSafety
begin

text \<open>
  The acceptor and the server: \<open>src/Acceptor.h\<close>, \<open>src/Acceptor.cc\<close>, \<open>src/TcpServer.h\<close> and
  \<open>src/TcpServer.cc\<close>, and with them the whole program: which member function a channel's callback and
  a queued functor run.
\<close>

subsection \<open>Accepting\<close>

definition the_acceptor :: "world \<Rightarrow> ptr \<Rightarrow> fault + acceptor" where
  "the_acceptor w a = (case w_acceptors w a of None \<Rightarrow> Inl (Undefined ''Acceptor'') | Some x \<Rightarrow> Inr x)"

definition put_acceptor :: "ptr \<Rightarrow> acceptor \<Rightarrow> world \<Rightarrow> world" where
  "put_acceptor a x w = w\<lparr>w_acceptors := (w_acceptors w)(a \<mapsto> x)\<rparr>"

text \<open>The results of \<open>socket\<close>, \<open>open\<close> and \<open>bind\<close> are arguments.\<close>

definition createNonblocking :: "int \<Rightarrow> fault + int" where
  "createNonblocking fd =
     (if fd < 0 then Inl (FatalExit ''listen socket create err'') else Inr fd)"

definition Acceptor_ctor ::
    "int \<Rightarrow> int \<Rightarrow> int \<Rightarrow> ptr \<Rightarrow> ptr \<Rightarrow> ptr \<Rightarrow> inet_address \<Rightarrow> bool \<Rightarrow> world \<Rightarrow> fault + world" where
  "Acceptor_ctor fd idle bound this chan lp listenAddr reuseport w =
     bindE (createNonblocking fd) (\<lambda>fd.
     bindE (guardE (0 \<le> idle) (AssertFail ''idleFd_ >= 0'')) (\<lambda>_.
     bindE (bindAddress bound listenAddr (setReusePort reuseport (setReuseAddr True (Socket_ctor fd)))) (\<lambda>s.
     Inr (put_acceptor this
            \<lparr>ac_loop = lp, ac_socket = s, ac_channel = chan, newConnectionCallback = None,
             ac_listening = False, ac_idleFd = idle\<rparr>
            (put_chan chan (setReadCallback (Acceptor_handleRead this) (Channel_ctor chan lp fd)) w)))))"

definition Acceptor_dtor :: "os \<Rightarrow> ptr \<Rightarrow> world \<Rightarrow> fault + world" where
  "Acceptor_dtor sys this w =
     bindE (the_acceptor w this) (\<lambda>ac.
     bindE (chan_call sys DisableAll (ac_channel ac) w) (\<lambda>w1.
     bindE (chan_call sys Remove (ac_channel ac) w1) (\<lambda>w2.
     Inr (w2\<lparr>w_acceptors := (w_acceptors w2)(this := None),
             w_chans := (w_chans w2)(ac_channel ac := None)\<rparr>))))"

definition setNewConnectionCallback :: "ptr \<Rightarrow> acceptor \<Rightarrow> acceptor" where
  "setNewConnectionCallback server ac = ac\<lparr>newConnectionCallback := Some server\<rparr>"

text \<open>\<open>ret\<close> is the result of \<open>listen(2)\<close>.\<close>

definition acceptor_listen :: "os \<Rightarrow> int \<Rightarrow> ptr \<Rightarrow> world \<Rightarrow> fault + world" where
  "acceptor_listen sys ret this w =
     bindE (the_acceptor w this) (\<lambda>ac.
     bindE (socket_listen ret (ac_socket ac)) (\<lambda>s.
     chan_call sys EnableReading (ac_channel ac)
       (put_acceptor this (ac\<lparr>ac_listening := True, ac_socket := s\<rparr>) w)))"

subsection \<open>The server\<close>

datatype server_option = kNoReusePort | kReusePort

definition TcpServer_ctor ::
    "int \<Rightarrow> int \<Rightarrow> int \<Rightarrow> ptr \<Rightarrow> ptr \<Rightarrow> ptr \<Rightarrow> ptr \<Rightarrow> inet_address \<Rightarrow> string \<Rightarrow> server_option \<Rightarrow> world \<Rightarrow> fault + world" where
  "TcpServer_ctor fd idle bound this acc chan lp listenAddr nameArg option w =
     bindE (guardE (lp \<noteq> 0) (FatalExit ''mainLoop is null!'')) (\<lambda>_.
     bindE (Acceptor_ctor fd idle bound acc chan lp listenAddr (option = kReusePort) w) (\<lambda>w1.
     bindE (the_acceptor w1 acc) (\<lambda>ac.
     Inr (put_acceptor acc (setNewConnectionCallback this ac)
           (put_server this
             \<lparr>sv_loop = lp, sv_ipPort = toIpPort listenAddr, sv_name = nameArg, sv_acceptor = acc,
              sv_threadPool = EventLoopThreadPool_ctor lp nameArg,
              sv_connectionCallback = Some DefaultConnectionCallback,
              sv_messageCallback = Some DefaultMessageCallback, sv_writeCompleteCallback = None,
              sv_threadInitCallback = None, sv_started = 0, sv_nextConnId = 1,
              sv_connections = Map.empty\<rparr> w1)))))"

text \<open>The connections are visited in the order \<open>names\<close> that the hash map has them in.\<close>

fun destroy_connections :: "env \<Rightarrow> ptr \<Rightarrow> string list \<Rightarrow> world \<Rightarrow> fault + world" where
  "destroy_connections env this [] w = Inr w"
| "destroy_connections env this (name # names) w =
     bindE (the_server w this) (\<lambda>s.
     case sv_connections s name of
       None \<Rightarrow> destroy_connections env this names w
     | Some conn \<Rightarrow>
         bindE (the_conn w conn) (\<lambda>c.
         bindE (run_call (e_sys env) (e_tid env) (tc_loop c) (\<lambda>_. connectDestroyed env conn)
                  (ConnectDestroyed conn)
                  (put_server this (s\<lparr>sv_connections := (sv_connections s)(name := None)\<rparr>) w))
           (destroy_connections env this names)))"

text \<open>
  The end of the threads of the pool: \<open>~EventLoopThread\<close> quits the loop and joins. What the rest of the program does until
  the thread of the loop \<open>lp\<close> has returned is \<open>join lp\<close>.
\<close>

fun quit_threads :: "os \<Rightarrow> int \<Rightarrow> (ptr \<Rightarrow> world \<Rightarrow> fault + world) \<Rightarrow> ptr list \<Rightarrow> world \<Rightarrow> fault + world" where
  "quit_threads sys tid join [] w = Inr w"
| "quit_threads sys tid join (lp # lps) w =
     bindE (the_loop w lp) (\<lambda>_.
     bindE (join lp (upd_loop lp (quit sys tid) w)) (quit_threads sys tid join lps))"

text \<open>The acceptor and the rest of the members.\<close>

definition free_server :: "os \<Rightarrow> ptr \<Rightarrow> world \<Rightarrow> fault + world" where
  "free_server sys this w =
     bindE (the_server w this) (\<lambda>s.
     bindE (Acceptor_dtor sys (sv_acceptor s) w) (\<lambda>w1.
     Inr (w1\<lparr>w_servers := (w_servers w1)(this := None)\<rparr>)))"

text \<open>The destructor: its body, then the members in reverse order of their declaration, the pool before the acceptor.\<close>

definition TcpServer_dtor ::
    "env \<Rightarrow> (ptr \<Rightarrow> world \<Rightarrow> fault + world) \<Rightarrow> ptr \<Rightarrow> string list \<Rightarrow> world \<Rightarrow> fault + world" where
  "TcpServer_dtor env join this names w =
     bindE (destroy_connections env this names w) (\<lambda>w1.
     bindE (the_server w1 this) (\<lambda>s.
     bindE (quit_threads (e_sys env) (e_tid env) join (tp_loops (sv_threadPool s)) w1)
       (free_server (e_sys env) this)))"

definition server_setThreadNum :: "ptr \<Rightarrow> int \<Rightarrow> world \<Rightarrow> fault + world" where
  "server_setThreadNum this numThreads w =
     bindE (the_server w this) (\<lambda>s.
     bindE (guardE (0 \<le> numThreads) (AssertFail ''0 <= numThreads'')) (\<lambda>_.
     Inr (put_server this (s\<lparr>sv_threadPool := setThreadNum numThreads (sv_threadPool s)\<rparr>) w)))"

definition server_setThreadInitCallback :: "nat option \<Rightarrow> tcp_server \<Rightarrow> tcp_server" where
  "server_setThreadInitCallback cb s = s\<lparr>sv_threadInitCallback := cb\<rparr>"

definition server_setConnectionCallback :: "connection_cb option \<Rightarrow> tcp_server \<Rightarrow> tcp_server" where
  "server_setConnectionCallback cb s = s\<lparr>sv_connectionCallback := cb\<rparr>"

definition server_setMessageCallback :: "message_cb option \<Rightarrow> tcp_server \<Rightarrow> tcp_server" where
  "server_setMessageCallback cb s = s\<lparr>sv_messageCallback := cb\<rparr>"

definition server_setWriteCompleteCallback :: "nat option \<Rightarrow> tcp_server \<Rightarrow> tcp_server" where
  "server_setWriteCompleteCallback cb s = s\<lparr>sv_writeCompleteCallback := cb\<rparr>"

text \<open>
  The thread-initialisation callback runs on the thread of the loop it is given; without threads
  it is called with the base loop by the thread that starts the server.
\<close>

definition init_callback :: "env \<Rightarrow> tcp_server \<Rightarrow> world init_cb" where
  "init_callback env s =
     map_option (\<lambda>n lp w.
       call_user (if lp = sv_loop s then env else env\<lparr>e_tid := el_threadId (loop_at lp w)\<rparr>)
         (OnThreadInit n lp) w)
       (sv_threadInitCallback s)"

text \<open>
  \<open>start\<close>: \<open>startLoop\<close> is \<open>EventLoopThread::startLoop\<close> and \<open>ret\<close> the result of \<open>listen(2)\<close>, should the
  call be made at once.
\<close>

definition server_start ::
    "env \<Rightarrow> (world init_cb \<Rightarrow> string \<Rightarrow> world \<Rightarrow> fault + ptr \<times> world) \<Rightarrow> int \<Rightarrow> ptr \<Rightarrow> world \<Rightarrow> fault + world" where
  "server_start env startLoop ret this w =
     bindE (the_server w this) (\<lambda>s.
     let w1 = put_server this (s\<lparr>sv_started := sv_started s + 1\<rparr>) w in
     if sv_started s = 0 then
       bindE (start startLoop (init_callback env s) (sv_threadPool s) w1) (\<lambda>(pool, w2).
       bindE (the_server w2 this) (\<lambda>s2.
       let w3 = put_server this (s2\<lparr>sv_threadPool := pool\<rparr>) w2 in
       bindE (the_acceptor w3 (sv_acceptor s2)) (\<lambda>ac.
       bindE (guardE (\<not> ac_listening ac) (AssertFail ''!acceptor_->listening()'')) (\<lambda>_.
       run_call (e_sys env) (e_tid env) (sv_loop s2) (\<lambda>_. acceptor_listen (e_sys env) ret (sv_acceptor s2))
         (Acceptor_listen (sv_acceptor s2)) w3))))
     else Inr w1)"

definition connection_name :: "tcp_server \<Rightarrow> string" where
  "connection_name s =
     sv_name s @ snprintf 64 (CHR ''-'' # sv_ipPort s @ CHR ''#'' # int_str (sv_nextConnId s))"

text \<open>The number always fits: \<open>buf\<close> cuts nothing off, and the names of one server differ.\<close>

definition id_suffix :: "tcp_server \<Rightarrow> int \<Rightarrow> string" where
  "id_suffix sv k = CHR ''-'' # sv_ipPort sv @ CHR ''#'' # int_str k"

lemma id_suffix_fits:
  assumes "sv_ipPort sv = toIpPort addr" "0 \<le> k" "k < 2 ^ 31"
  shows "snprintf 64 (id_suffix sv k) = id_suffix sv k"
proof -
  have "length (nat_str (nat k)) \<le> 10" using assms(3) by (intro length_nat_str) simp_all
  then have "length (id_suffix sv k) \<le> 33"
    using length_toIpPort [of addr] assms(1,2) by (simp add: id_suffix_def int_str_def)
  then show ?thesis by (simp add: snprintf_def)
qed

lemma id_suffix_inj: "id_suffix sv k = id_suffix sv j \<longleftrightarrow> k = j"
  by (simp add: id_suffix_def)

definition newConnection :: "env \<Rightarrow> ptr \<Rightarrow> int \<Rightarrow> inet_address \<Rightarrow> world \<Rightarrow> fault + world" where
  "newConnection env this fd peerAddr w =
     bindE (the_server w this) (\<lambda>s.
     bindE (getNextLoop (sv_threadPool s)) (\<lambda>(ioLoop, pool).
     bindE (guardE (sv_nextConnId s < 2 ^ 31 - 1) (Undefined ''++nextConnId_'')) (\<lambda>_.
     let connName = connection_name s;
         localAddr = (case e_sockname env fd of
                        None \<Rightarrow> \<lparr>sin_family = 0, sin_port = 0, s_addr = 0\<rparr> | Some x \<Rightarrow> x);
         (conn, chan) = e_new env
     in bindE (TcpConnection_ctor conn chan ioLoop connName fd localAddr peerAddr w) (\<lambda>w1.
        bindE (the_conn w1 conn) (\<lambda>c.
        let w2 = put_conn conn
                   (setConnCloseCallback this
                   (setWriteCompleteCallback (sv_writeCompleteCallback s)
                   (setMessageCallback (sv_messageCallback s)
                   (setConnectionCallback (sv_connectionCallback s) c))))
                   (put_server this
                     (s\<lparr>sv_threadPool := pool, sv_nextConnId := sv_nextConnId s + 1,
                        sv_connections := (sv_connections s)(connName \<mapsto> conn)\<rparr>) w1)
        in run_call (e_sys env) (e_tid env) ioLoop (\<lambda>_. connectEstablished env conn)
             (ConnectEstablished conn) w2)))))"

text \<open>A local \<open>InetAddress\<close> is \<open>127.0.0.1\<close>, port 0, until \<open>accept\<close> sets it.\<close>

definition default_address :: inet_address where
  "default_address = InetAddress_ip (\<lambda>_. Some (htonl kInaddrLoopback)) 0 ''127.0.0.1''"

definition acceptor_handleRead :: "env \<Rightarrow> ptr \<Rightarrow> world \<Rightarrow> fault + world" where
  "acceptor_handleRead env this w =
     bindE (the_acceptor w this) (\<lambda>ac.
     bindE (socket_accept (e_accept env (sockfd (ac_socket ac))) default_address) (\<lambda>(connfd, e, peerAddr).
     if connfd \<ge> 0 then
       (case newConnectionCallback ac of
          Some server \<Rightarrow> newConnection env server connfd peerAddr w
        | None \<Rightarrow> Inr w)
     else if e = EMFILE then Inl (FatalExit ''socket reached limit!'')
     else Inr w))"

subsection \<open>The program: functors and events\<close>

fun exec :: "env \<Rightarrow> int \<Rightarrow> Functor \<Rightarrow> world \<Rightarrow> fault + world" where
  "exec env ret (Acceptor_listen a) = acceptor_listen (e_sys env) ret a"
| "exec env ret (ConnectEstablished a) = connectEstablished env a"
| "exec env ret (ConnectDestroyed a) = connectDestroyed env a"
| "exec env ret (RemoveConnectionInLoop s a) = removeConnectionInLoop (e_sys env) (e_tid env) s a"
| "exec env ret (SendInLoop a p len) = sendInLoop (e_sys env) (e_tid env) a p len"
| "exec env ret (ShutdownInLoop a) = shutdownInLoop (e_sys env) a"
| "exec env ret (WriteComplete n a) = call_user env (OnWriteComplete n a)"
| "exec env ret (HighWaterMark n a k) = call_user env (OnHighWaterMark n a k)"
| "exec env ret (UserFunctor n) = call_user env (OnFunctor n)"

fun run_callback :: "env \<Rightarrow> int \<Rightarrow> callback \<Rightarrow> world \<Rightarrow> fault + world" where
  "run_callback env t (EventLoop_handleRead lp) =
     (\<lambda>w. bindE (the_loop w lp) (\<lambda>_. Inr (upd_loop lp (loop_handleRead (e_sys env)) w)))"
| "run_callback env t (Acceptor_handleRead a) = acceptor_handleRead env a"
| "run_callback env t (TcpConnection_handleRead a) = handleRead env t a"
| "run_callback env t (TcpConnection_handleWrite a) = handleWrite env a"
| "run_callback env t (TcpConnection_handleClose a) = handleClose env a"
| "run_callback env t (TcpConnection_handleError a) = handleError a"

definition alive :: "ptr option \<Rightarrow> world \<Rightarrow> bool" where
  "alive obj w \<longleftrightarrow> (case obj of None \<Rightarrow> False | Some a \<Rightarrow> w_conns w a \<noteq> None)"

definition chan_at :: "ptr \<Rightarrow> world \<Rightarrow> callback channel" where
  "chan_at x w = the (w_chans w x)"

definition dispatch :: "env \<Rightarrow> int \<Rightarrow> ptr \<Rightarrow> world \<Rightarrow> fault + world" where
  "dispatch env t x w =
     bindE (the_chan w x) (\<lambda>_. handleEvent (chan_at x) (run_callback env t) alive w)"

definition world_set_revents :: "ptr \<Rightarrow> cint \<Rightarrow> world \<Rightarrow> fault + world" where
  "world_set_revents x r w = bindE (the_chan w x) (\<lambda>ch. Inr (put_chan x (set_revents r ch) w))"

text \<open>The first half of a round of the loop at \<open>lp\<close>: polling.\<close>

definition world_poll :: "os \<Rightarrow> ptr \<Rightarrow> world \<Rightarrow> fault + world" where
  "world_poll sys lp w =
     bindE (the_loop w lp) (\<lambda>l.
     bindE (poller_poll sys kPollTimeMs world_set_revents (el_poller l) w) (\<lambda>(active, p, w1).
     Inr (upd_loop lp (\<lambda>l. l\<lparr>el_poller := p, el_activeChannels := active,
                             el_pollReturnTime := sys_now sys\<rparr>) w1)))"

text \<open>The end of \<open>threadFunc\<close>, when \<open>loop()\<close> has returned: the loop is a local variable there.\<close>

definition free_loop :: "os \<Rightarrow> ptr \<Rightarrow> world \<Rightarrow> fault + world" where
  "free_loop sys lp w =
     bindE (the_loop w lp) (\<lambda>l.
     bindE (the_chan w (el_wakeupChannel l)) (\<lambda>ch.
     bindE (EventLoop_dtor sys ch l) (\<lambda>_.
     Inr (w\<lparr>w_loops := (w_loops w)(lp := None), w_chans := (w_chans w)(el_wakeupChannel l := None)\<rparr>))))"

subsection \<open>Acceptors, polling and new connections keep the contract\<close>

text \<open>A channel that changes by itself, whoever owns it.\<close>

lemma world_ok_chan:
  assumes ok: "world_ok w" and ch: "w_chans w x = Some ch" and l: "w_loops w (ch_loop ch) = Some l"
    and le: "chan_le ch ch'"
    and wr: "isWriting ch' = isWriting ch \<or> (\<forall>a c. w_conns w a = Some c \<longrightarrow> tc_channel c \<noteq> x)"
    and p: "poller_ok ((chans_of (ch_loop ch) w)(x \<mapsto> ch'), el_poller l')"
  shows "world_ok (put_loop (ch_loop ch) l' (put_chan x ch' w)) \<and>
    world_le w (put_loop (ch_loop ch) l' (put_chan x ch' w))"
proof -
  let ?w' = "put_loop (ch_loop ch) l' (put_chan x ch' w)"
  have ch': "ch_loop ch' = ch_loop ch" "ch_fd ch' = ch_fd ch"
    using le by (simp_all add: chan_le_def)
  have sel: "w_conns ?w' = w_conns w" "w_chans ?w' = (w_chans w)(x \<mapsto> ch')"
      "w_loops ?w' = (w_loops w)(ch_loop ch \<mapsto> l')" "w_strings ?w' = w_strings w"
    by (simp_all add: put_loop_def put_chan_def)
  have chans: "chans_of lp ?w' = (if lp = ch_loop ch then (chans_of lp w)(x \<mapsto> ch') else chans_of lp w)" for lp
    using ch ch'(1) by (auto simp: chans_of_def sel fun_eq_iff)
  have 1: "poller_ok (chans_of lp ?w', el_poller k)" if "w_loops ?w' lp = Some k" for lp k
    using that chans [of lp] p world_okD(1) [OF ok] by (cases "lp = ch_loop ch") (auto simp: sel)
  have 2: "w_loops ?w' (ch_loop d) \<noteq> None" if "w_chans ?w' y = Some d" for y d
    using that ch'(1) world_okD(2) [OF ok, of y d] by (auto simp: sel split: if_splits)
  have 3: "conn_ok ?w' d" if "w_conns ?w' b = Some d" for b d
    using world_okD(3) [OF ok, of b d] that ch ch' wr by (auto simp: conn_ok_def sel)
  have 4: "b = b'" if "w_conns ?w' b = Some d" "w_conns ?w' b' = Some d'" "tc_channel d = tc_channel d'" for b b' d d'
    using that world_okD(4) [OF ok, of b d b' d'] by (simp add: sel)
  have 5: "length bs \<le> vector_max" if "w_strings ?w' q = Some bs" for q bs
    using that world_okD(5) [OF ok] by (simp add: sel)
  have 6: "handlers_ok d" if "w_chans ?w' y = Some d" for y d
    using that world_okD(6) [OF ok, of y d] handlers_ok_le [OF le world_okD(6) [OF ok ch]]
    by (auto simp: sel split: if_splits)
  have "world_ok ?w'"
    unfolding world_ok_def
    by (intro conjI allI impI) (erule 1, erule 2, erule 3, erule (2) 4, erule 5, erule 6)
  then show ?thesis using ch le by (simp add: world_le_def sel)
qed

lemma world_ok_chan_poller:
  assumes ok: "world_ok w" and ch: "w_chans w x = Some ch"
  obtains l where "w_loops w (ch_loop ch) = Some l" "poller_ok (chans_of (ch_loop ch) w, el_poller l)"
    "chans_of (ch_loop ch) w x = Some ch" "chan_inv ch (el_poller l)"
proof -
  obtain l where l: "w_loops w (ch_loop ch) = Some l" using world_okD(2) [OF ok ch] by auto
  have p: "poller_ok (chans_of (ch_loop ch) w, el_poller l)" by (rule world_okD(1) [OF ok l])
  have x: "chans_of (ch_loop ch) w x = Some ch" using ch by (simp add: chans_of_def)
  with p have "chan_inv ch (el_poller l)"
    unfolding poller_ok_def registry_ok_def prod.case fst_conv by blast
  with that l p x show thesis by blast
qed

lemma safe_world_set_revents: "safe (world_set_revents x r)"
proof (rule keepsI)
  fix w w' assume ok: "world_ok w" and run: "world_set_revents x r w = Inr w'"
  then obtain ch where ch: "w_chans w x = Some ch" "w' = put_chan x (set_revents r ch) w"
    by (auto simp: world_set_revents_def bindE_eq_Inr the_simps)
  obtain l where l: "w_loops w (ch_loop ch) = Some l" "poller_ok (chans_of (ch_loop ch) w, el_poller l)"
      "chans_of (ch_loop ch) w x = Some ch"
    using world_ok_chan_poller [OF ok ch(1)] by blast
  have "poller_ok ((chans_of (ch_loop ch) w)(x \<mapsto> set_revents r ch), el_poller l)"
    by (rule poller_ok_same [OF l(2,3)]) simp_all
  moreover have "put_loop (ch_loop ch) l (put_chan x (set_revents r ch) w) = w'"
    using l(1) ch(2) by (simp add: put_loop_def put_chan_def map_upd_triv)
  ultimately show "world_ok w' \<and> world_le w w'"
    using world_ok_chan [OF ok ch(1) l(1), of "set_revents r ch" l]
    by (simp add: set_revents_def isWriting_def chan_le_def)
qed

lemma safe_fill_events:
  assumes "world_ok w" "fill_events world_set_revents evs act w = Inr (act', w')"
  shows "world_ok w' \<and> world_le w w' \<and> map_option el_poller \<circ> w_loops w' = map_option el_poller \<circ> w_loops w"
  using assms
proof (induction evs arbitrary: act w)
  case Nil
  then show ?case by simp
next
  case (Cons ev evs)
  then obtain w1 where w1: "world_set_revents (ev_ptr ev) (ev_events ev) w = Inr w1"
      "fill_events world_set_revents evs (act @ [ev_ptr ev]) w1 = Inr (act', w')"
    by (auto simp: bindE_eq_Inr)
  have k: "world_ok w1 \<and> world_le w w1" using keepsD [OF safe_world_set_revents Cons.prems(1) w1(1)] .
  have "w_loops w1 = w_loops w" using w1(1) by (auto simp: world_set_revents_def bindE_eq_Inr put_chan_def)
  then show ?case using Cons.IH [OF _ w1(2)] k world_le_trans by auto
qed

lemma safe_world_poll: "safe (world_poll sys lp)"
proof (rule keepsI)
  fix w w' assume ok: "world_ok w" and run: "world_poll sys lp w = Inr w'"
  then obtain l active p w1 where l: "w_loops w lp = Some l"
      and poll: "poller_poll sys kPollTimeMs world_set_revents (el_poller l) w = Inr (active, p, w1)"
      and w': "w' = upd_loop lp (\<lambda>l. l\<lparr>el_poller := p, el_activeChannels := active,
                             el_pollReturnTime := sys_now sys\<rparr>) w1"
    by (auto simp: world_poll_def bindE_eq_Inr the_simps)
  have k: "world_ok w1 \<and> world_le w w1 \<and> map_option el_poller \<circ> w_loops w1 = map_option el_poller \<circ> w_loops w"
    using poll ok safe_fill_events [OF ok]
    by (auto simp: poller_poll_def fillActiveChannels_def bindE_eq_Inr guardE_eq_Inr split: if_splits prod.splits)
  have p: "\<exists>n. p = (el_poller l)\<lparr>pl_events_size := n\<rparr>"
    using poll by (auto simp: poller_poll_def bindE_eq_Inr split: if_splits prod.splits
        intro: exI [of _ "pl_events_size (el_poller l)"])
  then obtain n where n: "p = (el_poller l)\<lparr>pl_events_size := n\<rparr>" by blast
  have "map_option el_poller (w_loops w1 lp) = Some (el_poller l)"
    using k l by (metis comp_apply option.simps(9))
  then obtain l1 where l1: "w_loops w1 lp = Some l1" "el_poller l1 = el_poller l" by auto
  let ?l' = "l1\<lparr>el_poller := p, el_activeChannels := active, el_pollReturnTime := sys_now sys\<rparr>"
  have sel: "w_conns w' = w_conns w1" "w_chans w' = w_chans w1" "w_loops w' = (w_loops w1)(lp \<mapsto> ?l')"
      "w_strings w' = w_strings w1"
    using l1(1) by (simp_all add: w' upd_loop_def put_loop_def loop_at_def)
  have co: "chans_of q w' = chans_of q w1" for q by (simp add: chans_of_def fun_eq_iff sel)
  have ck: "conn_ok w' c = conn_ok w1 c" for c by (simp add: conn_ok_def sel)
  have "poller_ok (chans_of q w1, el_poller m)" if "w_loops w' q = Some m" for q m
  proof (cases "q = lp")
    case True
    have "poller_ok (chans_of lp w1, el_poller l1)" using world_okD(1) [of w1 lp l1] k l1 by simp
    from poller_ok_revents [OF this same_but_revents_refl] show ?thesis
      using True that n l1(2) by (auto simp: sel)
  next
    case False
    then show ?thesis using that world_okD(1) [of w1 q m] k by (simp add: sel)
  qed
  then have "world_ok w'"
    using k unfolding world_ok_def co ck sel by auto
  moreover have "world_le w1 w'" by (simp add: world_le_def sel)
  ultimately show "world_ok w' \<and> world_le w w'" using k world_le_trans by blast
qed

end
