(* ===== verification/ServerSafety.thy ===== *)
theory ServerSafety
  imports TcpServer
begin

text \<open>
  The contract of \<open>ConnectionSafety\<close> for the acceptor, the server and the dispatch of events and functors:
  every step of the program keeps \<open>world_ok\<close> and moves the connections along \<open>world_le\<close>.
\<close>

subsection \<open>Acceptors\<close>

lemma put_acceptor_sel [simp]:
  "w_conns (put_acceptor a x w) = w_conns w" "w_chans (put_acceptor a x w) = w_chans w"
  "w_loops (put_acceptor a x w) = w_loops w" "w_strings (put_acceptor a x w) = w_strings w"
  "w_servers (put_acceptor a x w) = w_servers w"
  "w_acceptors (put_acceptor a x w) = (w_acceptors w)(a \<mapsto> x)"
  by (simp_all add: put_acceptor_def)

lemma keeps_put_acceptor: "world_ok w \<Longrightarrow> world_ok (put_acceptor a x w) \<and> world_le w (put_acceptor a x w)"
  using world_ok_cong [of "put_acceptor a x w" w] by (simp add: world_le_def)

lemma the_acceptor_eq: "the_acceptor w a = Inr x \<longleftrightarrow> w_acceptors w a = Some x"
  by (simp add: the_acceptor_def split: option.splits)

context kernel
begin

text \<open>\<open>enableReading\<close> on any channel.\<close>

lemma safe_enableReading: "safe (chan_call sys EnableReading x)"
proof (rule keepsI)
  fix w w' assume ok: "world_ok w" and run: "chan_call sys EnableReading x w = Inr w'"
  then obtain ch where ch: "w_chans w x = Some ch" by (auto simp: chan_call_def bindE_eq_Inr the_simps)
  from world_ok_chan_poller [OF ok ch] obtain l where l: "w_loops w (ch_loop ch) = Some l"
    and p: "poller_ok (chans_of (ch_loop ch) w, el_poller l)" and x: "chans_of (ch_loop ch) w x = Some ch"
    and inv: "chan_inv ch (el_poller l)" .
  let ?ch = "chan_after EnableReading ch"
  let ?l = "l\<lparr>el_poller := place ?ch (el_poller l)\<rparr>"
  have legal: "chan_legal EnableReading ch" by (simp add: chan_legal_def)
  have w': "w' = put_loop (ch_loop ch) ?l (put_chan x ?ch w)"
    using run ch l chan_do_eq [OF chan_inv_slot [OF inv] legal]
    by (simp add: chan_call_def the_chan_def the_loop_def)
  show "world_ok w' \<and> world_le w w'"
    unfolding w'
  proof (rule world_ok_chan [OF ok ch l])
    show "isWriting ?ch = isWriting ch \<or> (\<forall>a c. w_conns w a = Some c \<longrightarrow> tc_channel c \<noteq> x)"
      by (simp add: isWriting_after)
    from poller_ok_chan_do [OF p x legal]
    show "poller_ok ((chans_of (ch_loop ch) w)(x \<mapsto> ?ch), el_poller ?l)" by simp
  qed simp_all
qed

lemma safe_acceptor_listen: "safe (acceptor_listen sys ret a)"
proof (rule keepsI)
  fix w w' assume ok: "world_ok w" and run: "acceptor_listen sys ret a w = Inr w'"
  then obtain ac s where "chan_call sys EnableReading (ac_channel ac)
      (put_acceptor a (ac\<lparr>ac_listening := True, ac_socket := s\<rparr>) w) = Inr w'"
    by (auto simp: acceptor_listen_def bindE_eq_Inr)
  then show "world_ok w' \<and> world_le w w'"
    using wc.keeps_chain [OF _ _ safe_enableReading] keeps_put_acceptor [OF ok] by blast
qed

end

subsection \<open>New channels and connections\<close>

text \<open>
  Adding a channel that is in no poller, on a descriptor no channel has, and a connection that owns a channel.
\<close>

lemma poller_ok_insert:
  assumes "poller_ok (m, p)" "m x = None" "ch_index ch = kNew" "ch_addr ch = x"
    and "\<And>b d. m b = Some d \<Longrightarrow> ch_fd d \<noteq> ch_fd ch"
  shows "poller_ok (m(x \<mapsto> ch), p)"
proof -
  have parts: "\<And>b d. m b = Some d \<Longrightarrow> chan_inv d p \<and> ch_addr d = b"
      "\<And>b b' d d'. m b = Some d \<Longrightarrow> m b' = Some d' \<Longrightarrow> ch_fd d = ch_fd d' \<Longrightarrow> b = b'"
      "\<And>k. poller_view p k \<noteq> (None, None) \<Longrightarrow> \<exists>b d. m b = Some d \<and> ch_fd d = k"
    using assms(1) unfolding poller_ok_def registry_ok_def prod.case fst_conv by blast+
  have "poller_view p (ch_fd ch) = (None, None)" using parts(3) [of "ch_fd ch"] assms(5) by blast
  then have inv: "chan_inv ch p"
    using assms(3) by (simp add: poller_view_def chan_inv_def registered_def watched_def)
  show ?thesis
    unfolding poller_ok_def registry_ok_def prod.case fst_conv
  proof (intro conjI allI impI)
    fix b d assume "(m(x \<mapsto> ch)) b = Some d"
    then show "chan_inv d p" "ch_addr d = b" using parts(1) [of b d] inv assms(4) by (auto split: if_splits)
  next
    fix b b' d d' assume "(m(x \<mapsto> ch)) b = Some d" "(m(x \<mapsto> ch)) b' = Some d'" "ch_fd d = ch_fd d'"
    then show "b = b'"
      using parts(2) [of b d b' d'] assms(5) [of b d] assms(5) [of b' d'] by (auto split: if_splits)
  next
    fix k assume "poller_view p k \<noteq> (None, None)"
    from parts(3) [OF this] obtain b d where "m b = Some d" "ch_fd d = k" by blast
    with assms(2) show "\<exists>b d. (m(x \<mapsto> ch)) b = Some d \<and> ch_fd d = k"
      by (intro exI [of _ b] exI [of _ d]) auto
  qed
qed

lemma keeps_new_chan:
  assumes ok: "world_ok w" and new: "w_chans w x = None" "w_loops w (ch_loop ch) \<noteq> None"
    and ch: "ch_index ch = kNew" "ch_addr ch = x" "handlers_ok ch"
    and fd: "\<And>y d. w_chans w y = Some d \<Longrightarrow> ch_fd d \<noteq> ch_fd ch"
  shows "world_ok (put_chan x ch w) \<and> world_le w (put_chan x ch w)"
proof -
  let ?w' = "put_chan x ch w"
  have sel: "w_conns ?w' = w_conns w" "w_chans ?w' = (w_chans w)(x \<mapsto> ch)"
      "w_loops ?w' = w_loops w" "w_strings ?w' = w_strings w"
    by (simp_all add: put_chan_def)
  have chans: "chans_of lp ?w' = (if lp = ch_loop ch then (chans_of lp w)(x \<mapsto> ch) else chans_of lp w)" for lp
    using new(1) by (auto simp: chans_of_def sel fun_eq_iff)
  have 1: "poller_ok (chans_of lp ?w', el_poller l)" if "w_loops ?w' lp = Some l" for lp l
  proof (cases "lp = ch_loop ch")
    case True
    have "poller_ok ((chans_of lp w)(x \<mapsto> ch), el_poller l)"
    proof (rule poller_ok_insert)
      show "poller_ok (chans_of lp w, el_poller l)" using world_okD(1) [OF ok] that by (simp add: sel)
      show "chans_of lp w x = None" using new(1) by (simp add: chans_of_def)
      fix b d assume "chans_of lp w b = Some d"
      then show "ch_fd d \<noteq> ch_fd ch" using fd [of b d] by (auto simp: chans_of_def split: option.splits if_splits)
    qed (use ch in simp_all)
    then show ?thesis using True by (simp add: chans)
  next
    case False
    then show ?thesis using world_okD(1) [OF ok] that by (simp add: chans sel)
  qed
  have 2: "w_loops ?w' (ch_loop d) \<noteq> None" if "w_chans ?w' y = Some d" for y d
    using that new(2) world_okD(2) [OF ok, of y d] by (auto simp: sel split: if_splits)
  have 3: "conn_ok ?w' d" if "w_conns ?w' b = Some d" for b d
    using world_okD(3) [OF ok, of b d] that new(1) by (auto simp: conn_ok_def sel)
  have 4: "b = b'" if "w_conns ?w' b = Some d" "w_conns ?w' b' = Some d'" "tc_channel d = tc_channel d'" for b b' d d'
    using that world_okD(4) [OF ok, of b d b' d'] by (simp add: sel)
  have 5: "length bs \<le> vector_max" if "w_strings ?w' q = Some bs" for q bs
    using that world_okD(5) [OF ok] by (simp add: sel)
  have 6: "handlers_ok d" if "w_chans ?w' y = Some d" for y d
    using that world_okD(6) [OF ok, of y d] ch(3) by (auto simp: sel split: if_splits)
  have "world_ok ?w'"
    unfolding world_ok_def
    by (intro conjI allI impI) (erule 1, erule 2, erule 3, erule (2) 4, erule 5, erule 6)
  then show ?thesis using new(1) by (auto simp: world_le_def sel)
qed

lemma keeps_add_conn:
  assumes ok: "world_ok w" and new: "w_conns w a = None" "conn_ok w c"
    and own: "\<And>b d. w_conns w b = Some d \<Longrightarrow> tc_channel d \<noteq> tc_channel c"
  shows "world_ok (put_conn a c w) \<and> world_le w (put_conn a c w)"
proof -
  let ?w' = "put_conn a c w"
  have sel: "w_conns ?w' = (w_conns w)(a \<mapsto> c)" "w_chans ?w' = w_chans w" "w_loops ?w' = w_loops w"
      "w_strings ?w' = w_strings w"
    by (simp_all add: put_conn_def)
  have chans: "chans_of lp ?w' = chans_of lp w" for lp by (simp add: chans_of_def sel fun_eq_iff)
  have 3: "conn_ok ?w' d" if "w_conns ?w' b = Some d" for b d
    using that [unfolded sel] new(2) world_okD(3) [OF ok, of b d] by (auto simp: conn_ok_def sel split: if_splits)
  have 4: "b = b'" if "w_conns ?w' b = Some d" "w_conns ?w' b' = Some d'" "tc_channel d = tc_channel d'" for b b' d d'
    using that [unfolded sel] own [of b d] own [of b' d'] world_okD(4) [OF ok, of b d b' d']
    by (cases "b = a"; cases "b' = a") auto
  have "world_ok ?w'"
    unfolding world_ok_def chans unfolding sel(2-4)
    using world_okD(1,2,5,6) [OF ok] by (intro conjI allI impI) (blast, blast, erule 3, erule (2) 4, blast, blast)
  then show ?thesis using new(1) by (auto simp: world_le_def sel)
qed

text \<open>
  What a handler may assume of the allocator and of \<open>accept4\<close>: the addresses are not in use, and a descriptor
  it returns is not one of an open socket.
\<close>

definition fresh_conn :: "env \<Rightarrow> world \<Rightarrow> bool" where
  "fresh_conn env w \<longleftrightarrow> (\<forall>s. 0 \<le> fst (e_accept env s) \<longrightarrow>
     w_conns w (fst (e_new env)) = None \<and> w_chans w (snd (e_new env)) = None \<and>
     (\<forall>x ch. w_chans w x = Some ch \<longrightarrow> ch_fd ch \<noteq> fst (e_accept env s)))"

lemma acceptor_handleReadE:
  assumes run: "acceptor_handleRead env a w = Inr w'" and fresh: "fresh_conn env w"
  obtains "w' = w" | s fd peer where "newConnection env s fd peer w = Inr w'"
    "w_conns w (fst (e_new env)) = None" "w_chans w (snd (e_new env)) = None" "\<forall>x ch. w_chans w x = Some ch \<longrightarrow> ch_fd ch \<noteq> fd"
proof -
  from run obtain ac connfd e peer where ac: "w_acceptors w a = Some ac"
    and acc: "socket_accept (e_accept env (sockfd (ac_socket ac))) default_address = Inr (connfd, e, peer)"
    and rest: "(if connfd \<ge> 0 then
       (case newConnectionCallback ac of Some server \<Rightarrow> newConnection env server connfd peer w | None \<Rightarrow> Inr w)
     else if e = EMFILE then Inl (FatalExit ''socket reached limit!'') else Inr w) = Inr w'"
    by (auto simp: acceptor_handleRead_def bindE_eq_Inr the_acceptor_eq)
  have fd: "connfd = fst (e_accept env (sockfd (ac_socket ac)))"
    using acc by (auto simp: socket_accept_def split: prod.splits if_splits errno.splits)
  show thesis
  proof (cases "connfd \<ge> 0 \<and> newConnectionCallback ac \<noteq> None")
    case True
    then obtain s where "newConnection env s connfd peer w = Inr w'" using rest by auto
    with True fresh show thesis unfolding fresh_conn_def fd by (intro that(2)) blast+
  next
    case False
    with rest show thesis by (intro that(1)) (auto split: if_splits)
  qed
qed

lemma keeps_ctor:
  assumes ok: "world_ok w" and lp: "w_loops w lp \<noteq> None"
    and new: "w_conns w a = None" "w_chans w x = None"
    and fd: "\<And>y d. w_chans w y = Some d \<Longrightarrow> ch_fd d \<noteq> fd"
    and run: "TcpConnection_ctor a x lp nm fd la pa w = Inr w'"
  shows "world_ok w' \<and> world_le w w' \<and> w_loops w' = w_loops w \<and> w_servers w' = w_servers w \<and>
    w_acceptors w' = w_acceptors w \<and>
    (\<exists>c. w_conns w' = (w_conns w)(a \<mapsto> c) \<and> tc_state c = kConnecting \<and> tc_loop c = lp \<and> tc_name c = nm \<and>
         sockfd (tc_socket c) = fd \<and> pipe c = [] \<and> tc_closeCallback c = None)"
proof -
  obtain b where b: "Buffer_ctor kInitialSize = Inr b" "buffer_inv b" "content b = []"
    using Buffer_ctor_ok [of kInitialSize] by (auto simp: kInitialSize_def vector_max_def)
  let ?ch = "setErrorCallback (TcpConnection_handleError a) (setCloseCallback (TcpConnection_handleClose a)
      (setWriteCallback (TcpConnection_handleWrite a) (setReadCallback (TcpConnection_handleRead a)
      (Channel_ctor x lp fd))))"
  from run b obtain c where w': "w' = put_conn a c (put_chan x ?ch w)"
    and c: "tc_state c = kConnecting" "tc_loop c = lp" "tc_name c = nm" "tc_channel c = x"
      "tc_socket c = setKeepAlive True (Socket_ctor fd)" "inputBuffer c = b" "outputBuffer c = b" "tc_closeCallback c = None"
    by (auto simp: TcpConnection_ctor_def bindE_eq_Inr)
  have s: "sockfd (tc_socket c) = fd" "pipe c = []"
    using c b by (simp_all add: setKeepAlive_def Socket_ctor_def pipe_def)
  have ch: "ch_index ?ch = kNew" "ch_addr ?ch = x" "ch_loop ?ch = lp" "ch_fd ?ch = fd" "\<not> isWriting ?ch"
      "handlers_ok ?ch"
    by (simp_all add: setErrorCallback_def setCloseCallback_def setWriteCallback_def setReadCallback_def
        Channel_ctor_def index_defs isWriting_def handlers_ok_def)
  have k1: "world_ok (put_chan x ?ch w) \<and> world_le w (put_chan x ?ch w)"
    by (rule keeps_new_chan [OF ok new(2)]) (use lp ch fd in simp_all)
  have "tc_channel d \<noteq> tc_channel c" if "w_conns (put_chan x ?ch w) e = Some d" for e d
    using world_okD(3) [OF ok, of e d] that new(2) c(4) by (auto simp: conn_ok_def put_chan_def)
  moreover have "conn_ok (put_chan x ?ch w) c"
    using c s b ch by (simp add: conn_ok_def put_chan_def)
  moreover have "w_conns (put_chan x ?ch w) a = None" using new(1) by (simp add: put_chan_def)
  ultimately have "world_ok w' \<and> world_le (put_chan x ?ch w) w'"
    using keeps_add_conn [of "put_chan x ?ch w" a c] k1 w' by blast
  then have "world_ok w' \<and> world_le w w'" using k1 world_le_trans by blast
  moreover have "w_loops w' = w_loops w" "w_servers w' = w_servers w" "w_acceptors w' = w_acceptors w"
      "w_conns w' = (w_conns w)(a \<mapsto> c)"
    by (simp_all add: w' put_conn_def put_chan_def)
  ultimately show ?thesis using c s by auto
qed

lemma conn_le_callbacks [simp]:
  "tc_closeCallback c = None \<Longrightarrow> conn_le c (setConnCloseCallback s (setWriteCompleteCallback n (setMessageCallback m (setConnectionCallback k c))))"
  by (simp add: conn_le_def pipe_def setConnCloseCallback_def setWriteCompleteCallback_def
      setMessageCallback_def setConnectionCallback_def)

lemma callbacks_same [simp]:
  "inputBuffer (setConnCloseCallback s (setWriteCompleteCallback n (setMessageCallback m (setConnectionCallback k c)))) = inputBuffer c"
  "outputBuffer (setConnCloseCallback s (setWriteCompleteCallback n (setMessageCallback m (setConnectionCallback k c)))) = outputBuffer c"
  "tc_state (setConnCloseCallback s (setWriteCompleteCallback n (setMessageCallback m (setConnectionCallback k c)))) = tc_state c"
  by (simp_all add: setConnCloseCallback_def setWriteCompleteCallback_def
      setMessageCallback_def setConnectionCallback_def)

text \<open>The four handlers a connection installs in its channel.\<close>

definition conn_handlers :: "ptr \<Rightarrow> callback channel \<Rightarrow> bool" where
  "conn_handlers a ch \<longleftrightarrow> readCallback ch = Some (TcpConnection_handleRead a) \<and>
     writeCallback ch = Some (TcpConnection_handleWrite a) \<and> closeCallback ch = Some (TcpConnection_handleClose a) \<and>
     errorCallback ch = Some (TcpConnection_handleError a)"

text \<open>
  The world has a new connection on the descriptor \<open>fd\<close> and its channel, and the server \<open>s\<close> has entered it under
  its name and moved the cursor of its pool.
\<close>

definition joined :: "env \<Rightarrow> int \<Rightarrow> ptr \<Rightarrow> world \<Rightarrow> world \<Rightarrow> bool" where
  "joined env fd s w w2 \<longleftrightarrow> (\<exists>sv sv' c ch. w_servers w s = Some sv \<and> sv_nextConnId sv < 2 ^ 31 - 1 \<and>
     w_conns w2 = (w_conns w)(fst (e_new env) \<mapsto> c) \<and> w_chans w2 = (w_chans w)(snd (e_new env) \<mapsto> ch) \<and>
     w_servers w2 = (w_servers w)(s \<mapsto> sv') \<and> w_loops w2 = w_loops w \<and> w_acceptors w2 = w_acceptors w \<and>
     sv_connections sv' = (sv_connections sv)(connection_name sv \<mapsto> fst (e_new env)) \<and>
     sv_nextConnId sv' = sv_nextConnId sv + 1 \<and> sv_name sv' = sv_name sv \<and> sv_ipPort sv' = sv_ipPort sv \<and>
     sv_acceptor sv' = sv_acceptor sv \<and> sv_loop sv' = sv_loop sv \<and>
     tc_name c = connection_name sv \<and> tc_channel c = snd (e_new env) \<and> tc_closeCallback c = Some s \<and>
     tc_state c = kConnecting \<and> sockfd (tc_socket c) = fd \<and> pipe c = [] \<and>
     connectionCallback c = sv_connectionCallback sv \<and> messageCallback c = sv_messageCallback sv \<and>
     getNextLoop (sv_threadPool sv) = Inr (tc_loop c, sv_threadPool sv') \<and> conn_handlers (fst (e_new env)) ch)"

context kernel
begin

text \<open>\<open>newConnection\<close>, up to the hand-over to the loop: what has changed in the world.\<close>

lemma newConnection_eq:
  assumes ok: "world_ok w" and sv: "w_servers w s = Some sv" and lim: "sv_nextConnId sv < 2 ^ 31 - 1"
    and pool: "getNextLoop (sv_threadPool sv) = Inr (lp, pool)" and lp: "lp \<noteq> 0" "w_loops w lp \<noteq> None"
    and new: "w_conns w (fst (e_new env)) = None" "w_chans w (snd (e_new env)) = None"
    and fd: "\<forall>y d. w_chans w y = Some d \<longrightarrow> ch_fd d \<noteq> fd"
  shows "\<exists>c w2. joined env fd s w w2 \<and> world_ok w2 \<and> world_le w w2 \<and>
    w_conns w2 (fst (e_new env)) = Some c \<and> tc_loop c = lp \<and>
    newConnection env s fd peer w = run_call (e_sys env) (e_tid env) lp
       (\<lambda>_. connectEstablished env (fst (e_new env))) (ConnectEstablished (fst (e_new env))) w2"
proof -
  obtain a x where ax: "e_new env = (a, x)" by fastforce
  let ?nm = "connection_name sv"
  define la where "la = (case e_sockname env fd of
      None \<Rightarrow> \<lparr>sin_family = 0, sin_port = 0, s_addr = 0\<rparr> | Some x \<Rightarrow> x)"
  obtain b where "Buffer_ctor kInitialSize = Inr b"
    using Buffer_ctor_ok [of kInitialSize] by (auto simp: kInitialSize_def vector_max_def)
  then obtain w1 where w1: "TcpConnection_ctor a x lp ?nm fd la peer w = Inr w1"
    using lp(1) by (simp add: TcpConnection_ctor_def)
  let ?ch = "setErrorCallback (TcpConnection_handleError a)
      (setCloseCallback (TcpConnection_handleClose a) (setWriteCallback (TcpConnection_handleWrite a)
      (setReadCallback (TcpConnection_handleRead a) (Channel_ctor x lp fd))))"
  from w1 obtain c where w1_eq: "w1 = put_conn a c (put_chan x ?ch w)" and cx: "tc_channel c = x" "tc_name c = ?nm"
      "tc_state c = kConnecting" "tc_closeCallback c = None" "tc_loop c = lp"
    by (auto simp: TcpConnection_ctor_def bindE_eq_Inr)
  then have c: "w_conns w1 a = Some c" by (simp add: put_conn_def)
  have k1: "world_ok w1 \<and> world_le w w1" and p: "sockfd (tc_socket c) = fd" "pipe c = []"
    using keeps_ctor [OF ok lp(2) _ _ _ w1] new ax fd c by auto
  let ?c = "setConnCloseCallback s (setWriteCompleteCallback (sv_writeCompleteCallback sv)
         (setMessageCallback (sv_messageCallback sv) (setConnectionCallback (sv_connectionCallback sv) c)))"
  let ?s = "sv\<lparr>sv_threadPool := pool, sv_nextConnId := sv_nextConnId sv + 1,
          sv_connections := (sv_connections sv)(?nm \<mapsto> a)\<rparr>"
  let ?w2 = "put_conn a ?c (put_server s ?s w1)"
  have run: "newConnection env s fd peer w =
      run_call (e_sys env) (e_tid env) lp (\<lambda>_. connectEstablished env a) (ConnectEstablished a) ?w2"
    using sv lim pool w1 c by (simp add: newConnection_def the_server_def the_conn_def Let_def ax la_def)
  have k2: "world_ok (put_server s ?s w1) \<and> world_le w1 (put_server s ?s w1)" using k1 keeps_put_server by blast
  have "world_ok ?w2 \<and> world_le (put_server s ?s w1) ?w2"
    by (rule keeps_put_conn) (use c k1 k2 cx(4) conn_inv [of w1 a c] in auto)
  then have k3: "world_ok ?w2 \<and> world_le w ?w2" using k1 k2 world_le_trans by blast
  have c2: "w_conns ?w2 a = Some ?c" "tc_loop ?c = lp" "tc_name ?c = ?nm" "tc_channel ?c = x" "tc_closeCallback ?c = Some s"
      "tc_state ?c = kConnecting" "connectionCallback ?c = sv_connectionCallback sv" "messageCallback ?c = sv_messageCallback sv"
      "sockfd (tc_socket ?c) = fd" "pipe ?c = []"
    using cx p by (simp_all add: put_conn_def pipe_def setConnCloseCallback_def setWriteCompleteCallback_def
        setMessageCallback_def setConnectionCallback_def)
  have sel: "w_conns ?w2 = (w_conns w)(a \<mapsto> ?c)" "w_chans ?w2 = (w_chans w)(x \<mapsto> ?ch)"
      "w_servers ?w2 = (w_servers w)(s \<mapsto> ?s)" "w_loops ?w2 = w_loops w" "w_acceptors ?w2 = w_acceptors w"
    by (simp_all add: w1_eq put_conn_def put_chan_def put_server_def)
  have ch: "conn_handlers a ?ch"
    by (simp add: conn_handlers_def setErrorCallback_def setCloseCallback_def setWriteCallback_def setReadCallback_def)
  have loop: "getNextLoop (sv_threadPool sv) = Inr (tc_loop ?c, sv_threadPool ?s)" using pool c2(2) by simp
  have "joined env fd s w ?w2"
    unfolding joined_def ax fst_conv snd_conv
    by (rule exI [of _ sv], rule exI [of _ ?s], rule exI [of _ ?c], rule exI [of _ ?ch])
      (intro conjI sv lim sel c2 ch loop, simp_all)
  then show ?thesis using k3 c2(1,2) run unfolding ax fst_conv by blast
qed

lemma newConnection_upto:
  assumes ok: "world_ok w"
    and new: "w_conns w (fst (e_new env)) = None" "w_chans w (snd (e_new env)) = None"
    and fd: "\<forall>y d. w_chans w y = Some d \<longrightarrow> ch_fd d \<noteq> fd"
    and run: "newConnection env s fd peer w = Inr w'"
  shows "\<exists>c w2. joined env fd s w w2 \<and> world_ok w2 \<and> world_le w w2 \<and> w_conns w2 (fst (e_new env)) = Some c \<and>
    run_call (e_sys env) (e_tid env) (tc_loop c) (\<lambda>_. connectEstablished env (fst (e_new env)))
       (ConnectEstablished (fst (e_new env))) w2 = Inr w'"
proof -
  obtain a x where ax: "e_new env = (a, x)" by fastforce
  from run ax obtain sv lp pool la w1 c where sv: "w_servers w s = Some sv" and lim: "sv_nextConnId sv < 2 ^ 31 - 1"
    and pool: "getNextLoop (sv_threadPool sv) = Inr (lp, pool)"
    and w1: "TcpConnection_ctor a x lp (connection_name sv) fd la peer w = Inr w1"
    and rest: "run_call (e_sys env) (e_tid env) lp (\<lambda>_. connectEstablished env a) (ConnectEstablished a)
      (put_conn a (setConnCloseCallback s (setWriteCompleteCallback (sv_writeCompleteCallback sv)
         (setMessageCallback (sv_messageCallback sv) (setConnectionCallback (sv_connectionCallback sv) c))))
       (put_server s (sv\<lparr>sv_threadPool := pool, sv_nextConnId := sv_nextConnId sv + 1,
          sv_connections := (sv_connections sv)(connection_name sv \<mapsto> a)\<rparr>) w1)) = Inr w'"
    by (auto simp: newConnection_def bindE_eq_Inr guardE_eq_Inr the_simps Let_def)
  have "lp \<noteq> 0" "w_loops w1 = w_loops w"
    using w1 by (auto simp: TcpConnection_ctor_def bindE_eq_Inr guardE_eq_Inr put_conn_def put_chan_def)
  moreover from this have "w_loops w lp \<noteq> None" using rest by (auto simp: run_call_def bindE_eq_Inr the_simps put_conn_def)
  ultimately show ?thesis using newConnection_eq [OF ok sv lim pool _ _ new fd, of peer] run by metis
qed

lemma keeps_newConnection:
  assumes env: "e_sys env = sys" and ok: "world_ok w"
    and new: "w_conns w (fst (e_new env)) = None" "w_chans w (snd (e_new env)) = None"
    and fd: "\<And>y d. w_chans w y = Some d \<Longrightarrow> ch_fd d \<noteq> fd"
    and run: "newConnection env s fd peer w = Inr w'"
  shows "world_ok w' \<and> world_le w w'"
proof -
  obtain w2 and c :: tcp_connection where k: "world_ok w2" "world_le w w2"
    and rest: "run_call (e_sys env) (e_tid env) (tc_loop c) (\<lambda>_. connectEstablished env (fst (e_new env)))
       (ConnectEstablished (fst (e_new env))) w2 = Inr w'"
    using newConnection_upto [OF ok new _ run] fd by blast
  show ?thesis
    using wc.keeps_chain [OF k safe_run_call_const [OF safe_connectEstablished [OF env]] rest] .
qed

lemma keeps_acceptor_handleRead:
  assumes env: "e_sys env = sys" and ok: "world_ok w" and fresh: "fresh_conn env w"
    and run: "acceptor_handleRead env a w = Inr w'"
  shows "world_ok w' \<and> world_le w w'"
  using run fresh
proof (rule acceptor_handleReadE)
  fix s fd peer assume "newConnection env s fd peer w = Inr w'" "w_conns w (fst (e_new env)) = None"
    "w_chans w (snd (e_new env)) = None" "\<forall>x ch. w_chans w x = Some ch \<longrightarrow> ch_fd ch \<noteq> fd"
  then show ?thesis using keeps_newConnection [OF env ok] by blast
qed (use ok in simp)

end

subsection \<open>New servers\<close>

lemma keeps_TcpServer_ctor:
  assumes ok: "world_ok w" and lp: "w_loops w lp \<noteq> None" and new: "w_chans w x = None"
    and fd: "\<And>y d. w_chans w y = Some d \<Longrightarrow> ch_fd d \<noteq> fd"
    and run: "TcpServer_ctor fd idle bound s acc x lp addr nm reuse w = Inr w'"
  shows "world_ok w' \<and> world_le w w'"
proof -
  let ?ch = "setReadCallback (Acceptor_handleRead acc) (Channel_ctor x lp fd) :: callback channel"
  obtain ac ac' sv where w': "w' = put_acceptor acc ac' (put_server s sv (put_acceptor acc ac (put_chan x ?ch w)))"
    using run
    by (auto simp: TcpServer_ctor_def Acceptor_ctor_def createNonblocking_def bindE_eq_Inr split: if_splits)
  have "world_ok (put_chan x ?ch w) \<and> world_le w (put_chan x ?ch w)"
    by (rule keeps_new_chan [OF ok new])
      (use lp fd in \<open>simp_all add: setReadCallback_def Channel_ctor_def handlers_ok_def index_defs\<close>)
  then show ?thesis unfolding w' using keeps_put_acceptor keeps_put_server world_le_trans by meson
qed

end
