(* ===== verification/Reactor.thy ===== *)
theory Reactor
  imports ServerSafety
begin

text \<open>
  The reactors at work: functors, callbacks, dispatched events and polling, on any loop, keep the contract;
  an event on the acceptor's channel may bring a new connection.
\<close>

subsection \<open>Functors, callbacks and events keep the contract\<close>

context kernel
begin

lemma safe_exec: "e_sys env = sys \<Longrightarrow> safe (exec env ret f)"
  by (cases f)
    (simp_all add: safe_acceptor_listen safe_connectEstablished safe_connectDestroyed
      safe_removeConnectionInLoop safe_sendInLoop safe_shutdownInLoop safe_call_user)

text \<open>Every callback but the acceptor's.\<close>

lemma safe_run_callback:
  assumes env: "e_sys env = sys" and cb: "\<And>a. cb \<noteq> Acceptor_handleRead a"
  shows "safe (run_callback env t cb)"
proof (cases cb)
  case (EventLoop_handleRead lp)
  have "safe (run_callback env t (EventLoop_handleRead lp))"
  proof (rule keepsI)
    fix w w' assume ok: "world_ok w" and "run_callback env t (EventLoop_handleRead lp) w = Inr w'"
    then have "w_loops w lp \<noteq> None" "w' = upd_loop lp (loop_handleRead (e_sys env)) w"
      by (auto simp: bindE_eq_Inr the_simps)
    then show "world_ok w' \<and> world_le w w'"
      using keeps_upd_loop [OF ok] by (simp add: loop_handleRead_def)
  qed
  then show ?thesis using EventLoop_handleRead by simp
qed (use cb env in \<open>simp_all add: safe_handleRead safe_handleWrite safe_handleClose safe_handleError\<close>)

end

text \<open>
  The four calls of \<open>handleEventWithGuard\<close>, for any invariant \<open>J\<close> that the callbacks keep; the acceptor's, which is
  the only one of its channel, may assume \<open>F\<close>.
\<close>

lemma guarded_keeps:
  assumes J: "\<And>w. J w \<Longrightarrow> world_ok w"
    and other: "\<And>cb. \<forall>a. cb \<noteq> Acceptor_handleRead a \<Longrightarrow> keeps J world_le (run cb)"
    and accept: "\<And>a w'. run (Acceptor_handleRead a) w = Inr w' \<Longrightarrow> J w' \<and> world_le w w'"
    and ok: "J w" and x: "w_chans w x \<noteq> None" and r: "handleEventWithGuard (chan_at x) run w = Inr w'"
  shows "J w' \<and> world_le w w'"
proof -
  have one: "J v' \<and> world_le v v'" if v: "J v" and cb: "\<And>a. cb \<noteq> Some (Acceptor_handleRead a)"
    and c: "call_if b run cb v = Inr v'" for b cb v v'
  proof (cases "b \<and> cb \<noteq> None")
    case True
    then obtain f where f: "cb = Some f" "run f v = Inr v'" using c by (auto simp: call_if_def)
    then show ?thesis using keepsD [OF other v f(2)] cb by blast
  next
    case False
    then show ?thesis using c v by (auto simp: call_if_def split: if_splits option.splits)
  qed
  have there: "\<exists>ch. w_chans v x = Some ch \<and> chan_at x v = ch \<and> handlers_ok ch \<and> chan_le (chan_at x w) ch"
    if v: "J v \<and> world_le w v" for v
  proof -
    obtain c where c: "w_chans w x = Some c" using x by auto
    obtain d where d: "w_chans v x = Some d" "chan_le c d" using world_le_chan [OF _ c] v by blast
    then show ?thesis using world_okD(6) [OF J, of v x d] v c by (simp add: chan_at_def)
  qed
  from r obtain b1 b2 b3 b4 w1 w2 w3 where
    1: "call_if b1 run (closeCallback (chan_at x w)) w = Inr w1"
    and 2: "call_if b2 run (errorCallback (chan_at x w1)) w1 = Inr w2"
    and 3: "call_if b3 run (readCallback (chan_at x w2)) w2 = Inr w3"
    and 4: "call_if b4 run (writeCallback (chan_at x w3)) w3 = Inr w'"
    by (auto simp: handleEventWithGuard_def bindE_eq_Inr)
  have h0: "handlers_ok (chan_at x w)" using there [of w] ok by auto
  have k1: "J w1 \<and> world_le w w1"
    by (rule one [OF ok _ 1]) (use h0 in \<open>auto simp: handlers_ok_def\<close>)
  have h1: "handlers_ok (chan_at x w1)" using there [OF k1] by auto
  have "J w2 \<and> world_le w1 w2"
    by (rule one [OF _ _ 2]) (use k1 h1 in \<open>auto simp: handlers_ok_def\<close>)
  with k1 have k2: "J w2 \<and> world_le w w2" using world_le_trans by blast
  have k3: "J w3 \<and> world_le w w3"
  proof (cases "\<exists>a. readCallback (chan_at x w) = Some (Acceptor_handleRead a)")
    case True
    then have none: "closeCallback (chan_at x w) = None" "errorCallback (chan_at x w) = None"
      using h0 by (auto simp: handlers_ok_def)
    have w1: "w1 = w" using 1 none by (simp add: call_if_def split: if_splits)
    then have w2: "w2 = w" using 2 none by (simp add: call_if_def split: if_splits)
    show ?thesis using 3 ok True accept unfolding w2 by (auto simp: call_if_def split: if_splits)
  next
    case False
    then have "\<And>a. readCallback (chan_at x w2) \<noteq> Some (Acceptor_handleRead a)"
      using there [OF k2] by (auto simp: chan_le_def)
    then have "J w3 \<and> world_le w2 w3" using one [OF _ _ 3] k2 by blast
    then show ?thesis using k2 world_le_trans by blast
  qed
  have h3: "handlers_ok (chan_at x w3)" using there [OF k3] by auto
  have "J w' \<and> world_le w3 w'"
    by (rule one [OF _ _ 4]) (use k3 h3 in \<open>auto simp: handlers_ok_def\<close>)
  then show ?thesis using k3 world_le_trans by blast
qed

lemma dispatch_keeps:
  assumes "\<And>w. J w \<Longrightarrow> world_ok w"
    and "\<And>cb. \<forall>a. cb \<noteq> Acceptor_handleRead a \<Longrightarrow> keeps J world_le (run_callback env t cb)"
    and "\<And>a w'. acceptor_handleRead env a w = Inr w' \<Longrightarrow> J w' \<and> world_le w w'"
    and "J w" "dispatch env t x w = Inr w'"
  shows "J w' \<and> world_le w w'"
proof -
  have x: "w_chans w x \<noteq> None" and run: "handleEvent (chan_at x) (run_callback env t) alive w = Inr w'"
    using assms(5) by (auto simp: dispatch_def bindE_eq_Inr the_simps)
  have "J v \<and> world_le w v" if "handleEventWithGuard (chan_at x) (run_callback env t) w = Inr v" for v
    by (rule guarded_keeps [OF assms(1,2) _ assms(4) x that]) (use assms(3) in simp_all)
  then show ?thesis using run assms(4) by (auto simp: handleEvent_def split: if_splits)
qed

context kernel
begin

lemma keeps_dispatch:
  assumes "e_sys env = sys" "world_ok w" "fresh_conn env w" "dispatch env t x w = Inr w'"
  shows "world_ok w' \<and> world_le w w'"
  by (rule dispatch_keeps [where J = world_ok, OF _ _ _ assms(2,4)])
    (use safe_run_callback [OF assms(1)] keeps_acceptor_handleRead [OF assms(1-3)] in blast)+

end

text \<open>\<open>doPendingFunctors\<close> of the loop at \<open>lp\<close>, by the contract restricted to worlds that have the loop.\<close>

interpretation wl: contract "\<lambda>w. world_ok w \<and> w_loops w lp \<noteq> None" world_le for lp
  by unfold_locales (auto intro: world_le_trans)

lemma keeps_at_loop: "safe f \<Longrightarrow> keeps (\<lambda>w. world_ok w \<and> w_loops w lp \<noteq> None) world_le f"
  unfolding keeps_def using world_le_loop by blast

lemma keeps_upd_at_loop:
  assumes "world_ok w \<and> w_loops w lp \<noteq> None" "\<And>l. el_poller (f l) = el_poller l"
  shows "(world_ok (upd_loop lp f w) \<and> w_loops (upd_loop lp f w) lp \<noteq> None) \<and> world_le w (upd_loop lp f w)"
  using keeps_upd_loop [of w lp f] assms by (simp add: upd_loop_def put_loop_def)

context kernel
begin

lemma keeps_functors:
  assumes env: "e_sys env = sys" and ok: "world_ok w" and l: "w_loops w lp \<noteq> None"
    and run: "doPendingFunctors (loop_at lp) (upd_loop lp) (exec env ret) w = Inr w'"
  shows "world_ok w' \<and> world_le w w'"
proof -
  have "keeps (\<lambda>w. world_ok w \<and> w_loops w lp \<noteq> None) world_le
      (doPendingFunctors (loop_at lp) (upd_loop lp) (exec env ret))"
    by (rule wl.keeps_doPendingFunctors)
      (rule keeps_upd_at_loop, assumption, assumption, rule keeps_at_loop, rule safe_exec [OF env])
  from keepsD [OF this _ run] ok l show ?thesis by blast
qed

end

end
