(* ===== verification/Startup.thy ===== *)
theory Startup
  imports Reactor
begin

text \<open>
  Setting up: the thread of a new loop, and the start of a server. User code creates and destroys none of the
  library's objects, so addresses that were free stay free.
\<close>

subsection \<open>No objects come or go\<close>

definition same_objects :: "world \<Rightarrow> world \<Rightarrow> bool" where
  "same_objects w w' \<longleftrightarrow> dom (w_loops w') = dom (w_loops w) \<and> dom (w_chans w') = dom (w_chans w) \<and>
     dom (w_conns w') = dom (w_conns w) \<and> w_servers w' = w_servers w \<and> w_acceptors w' = w_acceptors w"

interpretation so: contract "\<lambda>_. True" same_objects
  by unfold_locales (auto simp: same_objects_def)

abbreviation inert :: "(world \<Rightarrow> fault + world) \<Rightarrow> bool" where
  "inert \<equiv> keeps (\<lambda>_. True) same_objects"

lemma inertI: "(\<And>w w'. f w = Inr w' \<Longrightarrow> same_objects w w') \<Longrightarrow> inert f"
  by (rule keepsI) blast

lemma inertD: "inert f \<Longrightarrow> f w = Inr w' \<Longrightarrow> same_objects w w'"
  using keepsD [of "\<lambda>_. True" same_objects f w w'] by blast

lemma same_objects_refl [simp]: "same_objects w w"
  by (simp add: same_objects_def)

lemma same_objects_trans: "same_objects w w' \<Longrightarrow> same_objects w' w'' \<Longrightarrow> same_objects w w''"
  by (simp add: same_objects_def)

lemma same_objects_None:
  assumes "same_objects w w'"
  shows "w_conns w' a = None \<longleftrightarrow> w_conns w a = None" "w_chans w' x = None \<longleftrightarrow> w_chans w x = None"
    "w_loops w' lp = None \<longleftrightarrow> w_loops w lp = None"
  using assms unfolding same_objects_def by blast+

lemma same_objects_put:
  "w_conns w a = Some c \<Longrightarrow> same_objects w (put_conn a c' w)"
  "w_loops w lp = Some l \<Longrightarrow> same_objects w (upd_loop lp f w)"
  "w_chans w x = Some ch \<Longrightarrow> w_loops w lp = Some l \<Longrightarrow> same_objects w (put_loop lp l' (put_chan x ch' w))"
  by (auto simp: same_objects_def put_conn_def put_loop_def put_chan_def upd_loop_def)

lemma inert_chan_call: "inert (chan_call sys x a)"
  by (rule inertI) (auto simp: chan_call_def bindE_eq_Inr the_simps intro: same_objects_put(3))

lemma inert_queue_call: "inert (queue_call sys tid lp f)"
  by (rule inertI) (auto simp: queue_call_def bindE_eq_Inr the_simps intro: same_objects_put(2))

lemma inert_run_call:
  assumes "inert (ex f)"
  shows "inert (run_call sys tid lp ex f)"
proof (rule inertI)
  fix w w' assume run: "run_call sys tid lp ex f w = Inr w'"
  then obtain l where "w_loops w lp = Some l" by (auto simp: run_call_def bindE_eq_Inr the_simps)
  then show "same_objects w w'"
    using run inertD [OF assms]
    by (auto simp: run_call_def runInLoop_def bindE_eq_Inr the_simps split: if_splits intro: same_objects_put(2))
qed

lemma same_queue_opt:
  "(case cb of None \<Rightarrow> Inr w | Some n \<Rightarrow> queue_call sys tid lp (f n) w) = Inr w' \<Longrightarrow> same_objects w w'"
  using inertD [OF inert_queue_call] by (cases cb) auto

lemma same_send_direct:
  assumes "send_direct sys tid a msg len w = Inr (n, r, e, w')"
  shows "same_objects w w'"
proof -
  obtain c ch where c: "w_conns w a = Some c" and ch: "w_chans w (tc_channel c) = Some ch"
    using assms by (auto simp: send_direct_def bindE_eq_Inr the_simps)
  have q: "same_objects w w2" if "queue_call sys tid lp f (put_conn a d w) = Inr w2" for lp f d w2
    using inertD [OF inert_queue_call that] same_objects_put(1) [OF c] same_objects_trans by blast
  show ?thesis
  proof (cases "\<not> isWriting ch \<and> readableBytes (outputBuffer c) = 0")
    case False
    then show ?thesis using assms c ch by (auto simp: send_direct_def the_conn_def the_chan_def)
  next
    case True
    then obtain bs where bs: "read_mem msg len w = Inr bs"
      using assms c ch by (auto simp: send_direct_def the_conn_def the_chan_def bindE_eq_Inr)
    obtain k er where k: "sys_write sys (ch_fd ch) bs = (k, er)" by fastforce
    show ?thesis
    proof (cases "0 \<le> k")
      case False
      then show ?thesis using assms c ch True bs k by (simp add: send_direct_def the_conn_def the_chan_def)
    next
      case pos: True
      show ?thesis
      proof (cases "if len - of_int k = 0 then writeCompleteCallback c else None")
        case None
        then show ?thesis
          using assms c ch True bs k pos same_objects_put(1) [OF c]
          by (auto simp: send_direct_def the_conn_def the_chan_def Let_def)
      next
        case (Some cb)
        then have "queue_call sys tid (tc_loop c) (WriteComplete cb a)
            (put_conn a (c\<lparr>tc_socket := kernel_took k bs (tc_socket c)\<rparr>) w) = Inr w'"
          using assms c ch True bs k pos
          by (auto simp: send_direct_def the_conn_def the_chan_def Let_def bindE_eq_Inr)
        then show ?thesis by (rule q)
      qed
    qed
  qed
qed

lemma same_send_rest:
  assumes "send_rest sys tid a msg len (n, r, e, w) = Inr w'"
  shows "same_objects w w'"
proof (cases "\<not> e \<and> r > 0")
  case False
  then show ?thesis using assms by (simp add: send_rest_def split: if_splits)
next
  case True
  obtain c where c: "w_conns w a = Some c" using assms True by (auto simp: send_rest_def bindE_eq_Inr the_simps)
  let ?old = "readableBytes (outputBuffer c)"
  let ?q = "case (if ?old + r \<ge> highWaterMark c \<and> ?old < highWaterMark c then highWaterMarkCallback c else None) of
      Some cb \<Rightarrow> queue_call sys tid (tc_loop c) (HighWaterMark cb a (?old + r)) w | None \<Rightarrow> Inr w"
  have "\<exists>w1. ?q = Inr w1"
    by (cases ?q) (use assms c True in \<open>simp_all add: send_rest_def the_conn_def Let_def\<close>)
  then obtain w1 where q: "?q = Inr w1" by blast
  obtain b and ch :: "callback channel" where
    r: "(if \<not> isWriting ch then chan_call sys EnableWriting (tc_channel c) (put_conn a (c\<lparr>outputBuffer := b\<rparr>) w1)
        else Inr (put_conn a (c\<lparr>outputBuffer := b\<rparr>) w1)) = Inr w'"
    using assms c True q unfolding send_rest_def the_conn_def prod.case Let_def
    by (auto simp: bindE_eq_Inr)
  have 1: "same_objects w w1" using same_queue_opt [OF q] .
  then obtain d where "w_conns w1 a = Some d" using c same_objects_None(1) [OF 1, of a] by auto
  then have "same_objects w1 (put_conn a (c\<lparr>outputBuffer := b\<rparr>) w1)" by (rule same_objects_put(1))
  moreover have "same_objects (put_conn a (c\<lparr>outputBuffer := b\<rparr>) w1) w'"
    using r inertD [OF inert_chan_call] by (cases "isWriting ch") auto
  ultimately show ?thesis using 1 same_objects_trans by blast
qed

lemma inert_sendInLoop: "inert (sendInLoop sys tid a msg len)"
  by (rule inertI) (auto simp: sendInLoop_def bindE_eq_Inr split: if_splits
      intro: same_objects_trans [OF same_send_direct same_send_rest])

lemma inert_shutdownInLoop: "inert (shutdownInLoop sys a)"
  by (rule inertI) (auto simp: shutdownInLoop_def bindE_eq_Inr the_simps split: if_splits
      intro: same_objects_put(1))

lemma inert_user_do: "inert (user_do sys tid x)"
proof (rule inertI)
  fix w w' assume run: "user_do sys tid x w = Inr w'"
  show "same_objects w w'"
  proof (cases x)
    case (SendString a p)
    then show ?thesis
      using run inertD [OF inert_sendInLoop] inertD [OF inert_run_call [OF inert_sendInLoop]]
      by (auto simp: send_def bindE_eq_Inr split: if_splits)
  next
    case (ShutdownConnection a)
    then obtain c where c: "w_conns w a = Some c" using run by (auto simp: shutdown_def bindE_eq_Inr the_simps)
    show ?thesis
    proof (cases "tc_state c = kConnected")
      case True
      then have "run_call sys tid (tc_loop c) (\<lambda>_. shutdownInLoop sys a) (ShutdownInLoop a)
          (put_conn a (setState kDisconnecting c) w) = Inr w'"
        using run c ShutdownConnection by (simp add: shutdown_def the_conn_def)
      from inertD [OF inert_run_call [OF inert_shutdownInLoop] this] show ?thesis
        by (rule same_objects_trans [OF same_objects_put(1) [OF c]])
    next
      case False
      then show ?thesis using run c ShutdownConnection by (simp add: shutdown_def the_conn_def)
    qed
  next
    case (QueueInLoop lp n)
    then show ?thesis using run inertD [OF inert_queue_call] by simp
  qed (use run in \<open>auto simp: bindE_eq_Inr the_simps split: if_splits intro: same_objects_put\<close>,
      auto simp: same_objects_def put_conn_def)
qed

lemma inert_run_user: "inert (run_user sys tid xs)"
proof (induction xs)
  case Nil
  show ?case by (rule inertI) simp
next
  case (Cons x xs)
  have "inert (\<lambda>w. bindE (user_do sys tid x w) (run_user sys tid xs))"
    by (rule so.keeps_bind [OF inert_user_do Cons.IH])
  then show ?case by (simp add: keeps_def)
qed

lemma inert_call_user: "inert (call_user env x)"
  by (rule inertI) (auto simp: call_user_def dest: inertD [OF inert_run_user])

lemma same_objects_chan: "w_chans w x = Some ch \<Longrightarrow> same_objects w (put_chan x ch' w)"
  by (auto simp: same_objects_def put_chan_def)

lemma inert_call_connectionCallback: "inert (call_connectionCallback env a)"
proof (rule inertI)
  fix w w' assume run: "call_connectionCallback env a w = Inr w'"
  then obtain c where c: "the_conn w a = Inr c" by (auto simp: call_connectionCallback_def bindE_eq_Inr)
  show "same_objects w w'"
  proof (cases "connectionCallback c")
    case None
    then show ?thesis using run c by (simp add: call_connectionCallback_def)
  next
    case (Some cb)
    then show ?thesis
      using run c inertD [OF inert_call_user] by (cases cb) (auto simp: call_connectionCallback_def)
  qed
qed

lemma inert_connectEstablished: "inert (connectEstablished env a)"
proof (rule inertI)
  fix w w' assume "connectEstablished env a w = Inr w'"
  then obtain c w1 w2 where c: "w_conns w a = Some c"
      and w1: "chan_tie a (tc_channel c) (put_conn a (setState kConnected c) w) = Inr w1"
      and w2: "chan_call (e_sys env) EnableReading (tc_channel c) w1 = Inr w2"
      and rest: "call_connectionCallback env a w2 = Inr w'"
    by (auto simp: connectEstablished_def bindE_eq_Inr the_simps guardE_eq_Inr)
  have "same_objects w (put_conn a (setState kConnected c) w)" by (rule same_objects_put(1) [OF c])
  moreover have "same_objects (put_conn a (setState kConnected c) w) w1"
    using w1 by (auto simp: chan_tie_def bindE_eq_Inr the_simps intro: same_objects_chan)
  moreover have "same_objects w1 w2" by (rule inertD [OF inert_chan_call w2])
  moreover have "same_objects w2 w'"
    by (rule inertD [OF inert_call_connectionCallback rest])
  ultimately show "same_objects w w'" using same_objects_trans by meson
qed

subsection \<open>The thread of a loop\<close>

text \<open>
  \<open>EventLoopThread::startLoop\<close> and the part of \<open>threadFunc\<close> that the caller waits for: the new thread
  constructs its loop and calls the initialisation callback before it publishes the address
  (\<open>EventLoopThread\<close> proves that the caller sees it only then). \<open>sp\<close> holds what the system and the
  allocator give to the thread of each name.
\<close>

record spawn =
  sp_loop :: ptr
  sp_chan :: ptr
  sp_tid :: int
  sp_use_poll :: bool
  sp_epollfd :: int
  sp_evtfd :: int

definition startLoop :: "os \<Rightarrow> (string \<Rightarrow> spawn) \<Rightarrow> world init_cb \<Rightarrow> string \<Rightarrow> world \<Rightarrow> fault + ptr \<times> world" where
  "startLoop sys sp cb nm w =
     (let s = sp nm in
      bindE (EventLoop_ctor sys (sp_use_poll s) (sp_epollfd s) (sp_evtfd s) None (sp_tid s) (sp_loop s) (sp_chan s))
        (\<lambda>(l, ch).
      let w1 = put_loop (sp_loop s) l (put_chan (sp_chan s) ch w) in
      bindE (case cb of None \<Rightarrow> Inr w1 | Some f \<Rightarrow> f (sp_loop s) w1) (\<lambda>w2. Inr (sp_loop s, w2))))"

definition fresh_threads :: "(string \<Rightarrow> spawn) \<Rightarrow> string list \<Rightarrow> world \<Rightarrow> bool" where
  "fresh_threads sp nms w \<longleftrightarrow> distinct (map (\<lambda>nm. sp_loop (sp nm)) nms) \<and> distinct (map (\<lambda>nm. sp_chan (sp nm)) nms) \<and>
     (\<forall>nm \<in> set nms. sp_loop (sp nm) \<noteq> 0 \<and> w_loops w (sp_loop (sp nm)) = None \<and> w_chans w (sp_chan (sp nm)) = None)"

lemma poller_ok_inv: "poller_ok (m, p) \<Longrightarrow> m x = Some ch \<Longrightarrow> chan_inv ch p"
  unfolding poller_ok_def registry_ok_def prod.case fst_conv by blast

context epoll_kernel
begin

lemma EventLoop_ctor_ok:
  assumes "EventLoop_ctor sys up epfd evfd other tid this x = Inr (l, ch)"
  shows "poller_ok ([x \<mapsto> ch], el_poller l)" "ch_loop ch = this" "handlers_ok ch" "el_threadId l = tid"
    "el_pendingFunctors l = []" "el_addr l = this" "ch_fd ch = evfd"
    "readCallback ch = Some (EventLoop_handleRead this)" "writeCallback ch = None" "closeCallback ch = None"
    "errorCallback ch = None"
proof -
  let ?ch = "setReadCallback (EventLoop_handleRead this) (Channel_ctor x this evfd)"
  obtain p p' where p: "p = \<lparr>pl_loop = this, pl_channels = Map.empty, pl_epollfd = epfd,
        pl_events_size = kInitEventListSize, pl_interest = Map.empty\<rparr>"
    and e: "enableReading sys ?ch p = Inr (ch, p')" and l: "el_poller l = p'" "el_threadId l = tid"
      "el_pendingFunctors l = []" "el_addr l = this"
    using assms unfolding EventLoop_ctor_def newDefaultPoller_def EPollPoller_ctor_def createEventfd_def
    by (auto simp: bindE_eq_Inr Let_def split: if_splits)
  have e: "chan_do sys EnableReading ?ch p = Inr (ch, p')" using e by simp
  have ch: "ch_index ?ch = kNew" "ch_addr ?ch = x" "ch_loop ?ch = this"
    by (simp_all add: setReadCallback_def Channel_ctor_def index_defs)
  have "poller_ok (Map.empty, p)" by (simp add: poller_ok_def registry_ok_def poller_view_def p)
  from poller_ok_insert [OF this _ ch(1,2)] have ok: "poller_ok ([x \<mapsto> ?ch], p)" by simp
  then have "chan_inv ?ch p" by (rule poller_ok_inv) simp
  from chan_do_eq [OF chan_inv_slot [OF this], of EnableReading]
  have "Inr (ch, p') = Inr (chan_after EnableReading ?ch, place (chan_after EnableReading ?ch) p)"
    unfolding e by (simp add: chan_legal_def)
  then have r: "ch = chan_after EnableReading ?ch" "p' = place ch p" by simp_all
  from poller_ok_chan_do [OF ok, of x ?ch EnableReading] show "poller_ok ([x \<mapsto> ch], el_poller l)"
    unfolding l r by (simp add: chan_legal_def)
  show "ch_loop ch = this" using ch(3) by (simp add: r)
  show "ch_fd ch = evfd"
    using chan_le_after [of ?ch EnableReading] by (simp add: r(1) chan_le_def setReadCallback_def Channel_ctor_def)
  show "readCallback ch = Some (EventLoop_handleRead this)" "writeCallback ch = None" "closeCallback ch = None"
      "errorCallback ch = None"
    using chan_le_after [of ?ch EnableReading] by (simp_all add: r(1) chan_le_def setReadCallback_def Channel_ctor_def)
  have "handlers_ok ?ch" by (simp add: handlers_ok_def setReadCallback_def Channel_ctor_def)
  then show "handlers_ok ch" unfolding r(1) by (rule handlers_ok_le [OF chan_le_after])
  show "el_threadId l = tid" "el_pendingFunctors l = []" "el_addr l = this" by (simp_all add: l)
qed

end

lemma keeps_new_loop:
  assumes ok: "world_ok w" and new: "w_loops w lp = None" "w_chans w x = None"
    and p: "poller_ok ([x \<mapsto> ch], el_poller l)" and ch: "ch_loop ch = lp" "handlers_ok ch"
  shows "world_ok (put_loop lp l (put_chan x ch w)) \<and> world_le w (put_loop lp l (put_chan x ch w))"
proof -
  let ?w' = "put_loop lp l (put_chan x ch w)"
  have sel: "w_conns ?w' = w_conns w" "w_chans ?w' = (w_chans w)(x \<mapsto> ch)"
      "w_loops ?w' = (w_loops w)(lp \<mapsto> l)" "w_strings ?w' = w_strings w"
    by (simp_all add: put_loop_def put_chan_def)
  have old: "chans_of lp w = Map.empty"
    using world_okD(2) [OF ok] new(1) by (fastforce simp: chans_of_def fun_eq_iff split: option.splits)
  have chans: "chans_of q ?w' = (if q = lp then [x \<mapsto> ch] else chans_of q w)" for q
    using ch(1) new(2) old by (auto simp: chans_of_def sel fun_eq_iff)
  have 1: "poller_ok (chans_of q ?w', el_poller k)" if "w_loops ?w' q = Some k" for q k
    using that chans [of q] p world_okD(1) [OF ok] by (cases "q = lp") (auto simp: sel)
  have 2: "w_loops ?w' (ch_loop d) \<noteq> None" if "w_chans ?w' y = Some d" for y d
    using that ch(1) world_okD(2) [OF ok, of y d] by (auto simp: sel split: if_splits)
  have 3: "conn_ok ?w' d" if "w_conns ?w' b = Some d" for b d
    using world_okD(3) [OF ok, of b d] that new(2) by (auto simp: conn_ok_def sel)
  have 4: "b = b'" if "w_conns ?w' b = Some d" "w_conns ?w' b' = Some d'" "tc_channel d = tc_channel d'" for b b' d d'
    using that world_okD(4) [OF ok, of b d b' d'] by (simp add: sel)
  have 5: "length bs \<le> vector_max" if "w_strings ?w' q = Some bs" for q bs
    using that world_okD(5) [OF ok] by (simp add: sel)
  have 6: "handlers_ok d" if "w_chans ?w' y = Some d" for y d
    using that world_okD(6) [OF ok, of y d] ch(2) by (auto simp: sel split: if_splits)
  have "world_ok ?w'"
    unfolding world_ok_def
    by (intro conjI allI impI) (erule 1, erule 2, erule 3, erule (2) 4, erule 5, erule 6)
  then show ?thesis using new by (auto simp: world_le_def sel)
qed

text \<open>
  Starting a server keeps any invariant \<open>J\<close> of consistent worlds that a new loop, user code, the two fields \<open>start\<close>
  writes and the listening acceptor keep; it is used for \<open>world_ok\<close> and for the stronger invariant of \<open>Lifetime\<close>.
\<close>

locale starting = kernel +
  fixes J :: "world \<Rightarrow> bool"
  assumes J_ok: "J w \<Longrightarrow> world_ok w"
    and J_loop: "J w \<Longrightarrow> w_loops w lp = None \<Longrightarrow> w_chans w x = None \<Longrightarrow>
      EventLoop_ctor sys up epfd evfd None tid lp x = Inr (l, ch) \<Longrightarrow> J (put_loop lp l (put_chan x ch w))"
    and J_server: "J w \<Longrightarrow> w_servers w s = Some sv \<Longrightarrow>
      tp_baseLoop pool = tp_baseLoop (sv_threadPool sv) \<Longrightarrow> (pool_fit (sv_threadPool sv) \<Longrightarrow> pool_fit pool) \<Longrightarrow>
      J (put_server s (sv\<lparr>sv_started := n, sv_threadPool := pool\<rparr>) w)"
    and J_user: "e_sys env = sys \<Longrightarrow> keeps J world_le (call_user env u)"
    and J_listen: "keeps J world_le (run_call sys tid lp (\<lambda>_. acceptor_listen sys ret p) (Acceptor_listen p))"
begin

sublocale wj: contract J world_le
  by unfold_locales (auto intro: world_le_trans)

definition quiet :: "world init_cb \<Rightarrow> bool" where
  "quiet cb \<longleftrightarrow> (\<forall>f lp. cb = Some f \<longrightarrow> keeps J world_le (f lp) \<and> inert (f lp))"

lemma quiet_run:
  assumes q: "quiet cb" and ok: "J w" and r: "(case cb of None \<Rightarrow> Inr w | Some f \<Rightarrow> f lp w) = Inr w'"
  shows "J w' \<and> world_le w w' \<and> same_objects w w'"
proof (cases cb)
  case None
  then show ?thesis using r ok by simp
next
  case (Some f)
  then have f: "keeps J world_le (f lp)" "inert (f lp)" "f lp w = Inr w'" using q r by (simp_all add: quiet_def)
  show ?thesis using keepsD [OF f(1) ok f(3)] inertD [OF f(2,3)] by blast
qed

lemma startLoop_keeps:
  assumes ok: "J w" and fresh: "w_loops w (sp_loop (sp nm)) = None" "w_chans w (sp_chan (sp nm)) = None"
    and cb: "quiet cb"
    and run: "startLoop sys sp cb nm w = Inr (lp, w')"
  shows "J w' \<and> world_le w w'" "lp = sp_loop (sp nm)"
    "w_loops w' q = None \<longleftrightarrow> q \<noteq> sp_loop (sp nm) \<and> w_loops w q = None"
    "w_chans w' y = None \<longleftrightarrow> y \<noteq> sp_chan (sp nm) \<and> w_chans w y = None"
    "w_servers w' = w_servers w"
proof -
  let ?lp = "sp_loop (sp nm)" and ?x = "sp_chan (sp nm)"
  obtain l ch where
    e: "EventLoop_ctor sys (sp_use_poll (sp nm)) (sp_epollfd (sp nm)) (sp_evtfd (sp nm)) None (sp_tid (sp nm)) ?lp ?x
          = Inr (l, ch)"
    and r: "(case cb of None \<Rightarrow> Inr (put_loop ?lp l (put_chan ?x ch w))
             | Some f \<Rightarrow> f ?lp (put_loop ?lp l (put_chan ?x ch w))) = Inr w'" and lp: "lp = ?lp"
    using run by (auto simp: startLoop_def Let_def bindE_eq_Inr)
  let ?w1 = "put_loop ?lp l (put_chan ?x ch w)"
  have k: "J ?w1" by (rule J_loop [OF ok fresh e])
  have le: "world_le w ?w1" using keeps_new_loop [OF J_ok [OF ok] fresh EventLoop_ctor_ok(1,2,3) [OF e]] by blast
  have q: "J w' \<and> world_le ?w1 w' \<and> same_objects ?w1 w'" by (rule quiet_run [OF cb k r])
  with le show "J w' \<and> world_le w w'" using world_le_trans by blast
  show "lp = ?lp" by (rule lp)
  have "same_objects ?w1 w'" using q by blast
  note o = same_objects_None [OF this]
  show "w_loops w' q = None \<longleftrightarrow> q \<noteq> ?lp \<and> w_loops w q = None" "w_chans w' y = None \<longleftrightarrow> y \<noteq> ?x \<and> w_chans w y = None"
    unfolding o by (simp_all add: put_loop_def put_chan_def)
  show "w_servers w' = w_servers w"
    using \<open>same_objects ?w1 w'\<close> by (simp add: same_objects_def put_loop_def put_chan_def)
qed

lemma quiet_init_callback:
  assumes env: "e_sys env = sys"
  shows "quiet (init_callback env sv)"
proof -
  let ?env = "\<lambda>lp w. if lp = sv_loop sv then env else env\<lparr>e_tid := el_threadId (loop_at lp w)\<rparr>"
  have s: "e_sys (?env lp w) = sys" for lp w using env by simp
  have "keeps J world_le (\<lambda>w. call_user (?env lp w) x w)" for lp x
    by (rule keepsI) (rule keepsD [OF J_user [OF s]])
  moreover have "inert (\<lambda>w. call_user (?env lp w) x w)" for lp x
    by (rule inertI) (rule inertD [OF inert_call_user])
  ultimately show ?thesis unfolding quiet_def init_callback_def by fastforce
qed

lemma start_threads_keeps:
  assumes cb: "quiet cb"
  shows "J w \<Longrightarrow> fresh_threads sp (map (thread_name (tp_name p)) is) w \<Longrightarrow>
    start_threads (startLoop sys sp) cb is p w = Inr (p', w') \<Longrightarrow>
    J w' \<and> world_le w w' \<and> w_servers w' = w_servers w"
proof (induction "is" arbitrary: p w)
  case Nil
  then show ?case by simp
next
  case (Cons i "is")
  let ?nm = "thread_name (tp_name p) i"
  obtain lp w1 p1 where s: "startLoop sys sp cb ?nm w = Inr (lp, w1)"
    and r: "start_threads (startLoop sys sp) cb is p1 w1 = Inr (p', w')" and p1: "tp_name p1 = tp_name p"
    using Cons.prems(3) by (auto simp: bindE_eq_Inr Let_def)
  have new: "w_loops w (sp_loop (sp ?nm)) = None" "w_chans w (sp_chan (sp ?nm)) = None"
    using Cons.prems(2) by (auto simp: fresh_threads_def)
  note k = startLoop_keeps [OF Cons.prems(1) new cb s]
  have "fresh_threads sp (map (thread_name (tp_name p1)) is) w1"
    using Cons.prems(2) unfolding fresh_threads_def p1 k(3,4)
    by (auto simp: image_iff dest: sym)
  from Cons.IH [OF _ this r] k(1,5) show ?case using world_le_trans by auto
qed

lemma keeps_put_started:
  assumes "J w" "w_servers w s = Some sv" "tp_baseLoop pool = tp_baseLoop (sv_threadPool sv)"
    "pool_fit (sv_threadPool sv) \<Longrightarrow> pool_fit pool"
  shows "J (put_server s (sv\<lparr>sv_started := n\<rparr>) w) \<and> world_le w (put_server s (sv\<lparr>sv_started := n\<rparr>) w)"
    "J (put_server s (sv\<lparr>sv_threadPool := pool\<rparr>) w) \<and> world_le w (put_server s (sv\<lparr>sv_threadPool := pool\<rparr>) w)"
  using J_server [OF assms(1,2), where n = n and pool = "sv_threadPool sv"]
    J_server [OF assms, where n = "sv_started sv"]
    keeps_put_server [OF J_ok [OF assms(1)]] by simp_all

text \<open>Starting a server, with the threads it asks for.\<close>

lemma keeps_server_start:
  assumes env: "e_sys env = sys" and ok: "J w" and sv: "w_servers w s = Some sv"
    and fresh: "fresh_threads sp (map (thread_name (tp_name (sv_threadPool sv)))
      [0 .. tp_numThreads (sv_threadPool sv) - 1]) w"
    and run: "server_start env (startLoop sys sp) ret s w = Inr w'"
  shows "J w' \<and> world_le w w'"
proof -
  let ?w1 = "put_server s (sv\<lparr>sv_started := sv_started sv + 1\<rparr>) w"
  have k1: "J ?w1 \<and> world_le w ?w1" by (rule keeps_put_started(1) [OF ok sv refl])
  show ?thesis
  proof (cases "sv_started sv = 0")
    case False
    then show ?thesis using run sv k1 by (simp add: server_start_def the_server_def Let_def)
  next
    case True
    obtain pool w2 s2 ac where
      st: "start (startLoop sys sp) (init_callback env sv) (sv_threadPool sv) ?w1 = Inr (pool, w2)"
      and s2: "w_servers w2 s = Some s2"
      and r: "run_call (e_sys env) (e_tid env) (sv_loop s2) (\<lambda>_. acceptor_listen (e_sys env) ret (sv_acceptor s2))
         (Acceptor_listen (sv_acceptor s2)) (put_server s (s2\<lparr>sv_threadPool := pool\<rparr>) w2) = Inr w'"
      using run sv True by (auto simp: server_start_def the_server_def Let_def bindE_eq_Inr
          split: option.splits prod.splits)
    let ?cb = "init_callback env sv"
    have cb: "quiet ?cb" by (rule quiet_init_callback [OF env])
    obtain z where z: "start_threads (startLoop sys sp) ?cb [0 .. tp_numThreads (sv_threadPool sv) - 1]
          ((sv_threadPool sv)\<lparr>tp_started := True\<rparr>) ?w1 = Inr z"
        "(\<lambda>(p1, w3). if tp_numThreads p1 = 0 then case ?cb of None \<Rightarrow> Inr (p1, w3)
          | Some f \<Rightarrow> bindE (f (tp_baseLoop p1) w3) (\<lambda>w. Inr (p1, w)) else Inr (p1, w3)) z = Inr (pool, w2)"
      using st unfolding start_def bindE_eq_Inr by blast
    obtain p1 w3 where zz: "z = (p1, w3)" by fastforce
    note th = z(1) [unfolded zz] and rest = z(2) [unfolded zz prod.case]
    have t3: "J w3 \<and> world_le ?w1 w3" "w_servers w3 = w_servers ?w1"
      using start_threads_keeps [OF cb _ _ th] k1 fresh by (simp_all add: fresh_threads_def)
    with k1 have k3: "J w3 \<and> world_le w w3" using world_le_trans by blast
    have k2: "J w2 \<and> world_le w w2 \<and> same_objects w3 w2"
    proof (cases "tp_numThreads p1 = 0")
      case True
      then have "(case ?cb of None \<Rightarrow> Inr w3 | Some f \<Rightarrow> f (tp_baseLoop p1) w3) = Inr w2"
        using rest by (cases ?cb) (auto simp: bindE_eq_Inr)
      from quiet_run [OF cb _ this] k3 show ?thesis using world_le_trans by blast
    next
      case False
      then show ?thesis using rest k3 by simp
    qed
    have "pool = p1" using rest by (auto simp: bindE_eq_Inr split: if_splits option.splits)
    moreover have "sv_threadPool s2 = sv_threadPool sv"
      using k2 t3(2) s2 by (auto simp: same_objects_def put_server_def)
    moreover have "l \<noteq> 0" if "i \<in> set [0 .. tp_numThreads (sv_threadPool sv) - 1]"
      "startLoop sys sp ?cb (thread_name (tp_name ((sv_threadPool sv)\<lparr>tp_started := True\<rparr>)) i) v = Inr (l, v')" for i l v v'
      using that fresh by (auto simp: startLoop_def Let_def bindE_eq_Inr fresh_threads_def)
    ultimately have "tp_baseLoop pool = tp_baseLoop (sv_threadPool s2)" "pool_fit (sv_threadPool s2) \<Longrightarrow> pool_fit pool"
      using start_threads_fit [OF th] by (simp_all add: pool_fit_def pool_ok_def)
    then have "J (put_server s (s2\<lparr>sv_threadPool := pool\<rparr>) w2) \<and>
        world_le w (put_server s (s2\<lparr>sv_threadPool := pool\<rparr>) w2)"
      using keeps_put_started(2) [OF _ s2] k2 world_le_trans by blast
    then show ?thesis using wj.keeps_chain [OF _ _ J_listen r [unfolded env]] by blast
  qed
qed

end

context kernel
begin

sublocale st: starting sys world_ok
proof
  fix w lp x up epfd evfd tid l ch
  assume "world_ok w" "w_loops w lp = None" "w_chans w x = None"
    and e: "EventLoop_ctor sys up epfd evfd None tid lp x = Inr (l, ch)"
  then show "world_ok (put_loop lp l (put_chan x ch w))"
    using keeps_new_loop [OF _ _ _ EventLoop_ctor_ok(1,2,3) [OF e]] by blast
next
  fix w s n pool and sv :: tcp_server assume "world_ok w"
  then show "world_ok (put_server s (sv\<lparr>sv_started := n, sv_threadPool := pool\<rparr>) w)"
    using keeps_put_server by blast
qed (simp_all add: safe_call_user safe_run_call_const [OF safe_acceptor_listen])

end

end
