(* ===== verification/Ownership.thy ===== *)
theory Ownership
  imports Startup
begin

text \<open>
  Who owns a connection. The library keeps \<open>shared_ptr\<close>s to a connection in the table of its server and in
  functors; everything else (its channel's callbacks, the poller, \<open>SendInLoop\<close>, \<open>ShutdownInLoop\<close>) holds a raw
  pointer. This theory states what the owners promise each other (\<open>own_ok\<close>) and
  proves that every operation keeps the promise.
\<close>

subsection \<open>Owners\<close>

text \<open>The connection whose \<open>shared_ptr\<close> a functor holds a copy of.\<close>

fun owns :: "Functor \<Rightarrow> ptr option" where
  "owns (ConnectEstablished a) = Some a"
| "owns (ConnectDestroyed a) = Some a"
| "owns (RemoveConnectionInLoop s a) = Some a"
| "owns (WriteComplete n a) = Some a"
| "owns (HighWaterMark n a k) = Some a"
| "owns (Acceptor_listen p) = None"
| "owns (SendInLoop a p len) = None"
| "owns (ShutdownInLoop a) = None"
| "owns (UserFunctor n) = None"

text \<open>The functors that lead to the end of a connection's life.\<close>

fun ends :: "Functor \<Rightarrow> ptr option" where
  "ends (ConnectDestroyed a) = Some a"
| "ends (RemoveConnectionInLoop s a) = Some a"
| "ends _ = None"

lemma ends_owns: "ends f = Some a \<Longrightarrow> owns f = Some a"
  by (cases f) simp_all

definition pend :: "world \<Rightarrow> ptr \<Rightarrow> Functor list" where
  "pend w lp = (case w_loops w lp of None \<Rightarrow> [] | Some l \<Rightarrow> el_pendingFunctors l)"

definition index_at :: "ptr \<Rightarrow> world \<Rightarrow> int option" where
  "index_at x w = map_option ch_index (w_chans w x)"

text \<open>A functor that finds its connection, and whose server is the one the connection calls back.\<close>

definition functor_ok :: "world \<Rightarrow> Functor \<Rightarrow> bool" where
  "functor_ok w f \<longleftrightarrow> (\<forall>a. owns f = Some a \<longrightarrow> w_conns w a \<noteq> None) \<and>
     (\<forall>s a. f = RemoveConnectionInLoop s a \<longrightarrow> map_option tc_closeCallback (w_conns w a) = Some (Some s))"

text \<open>What matters of a server: its table, and what the names of its connections are made of.\<close>

definition sv_core :: "tcp_server \<Rightarrow> (string \<Rightarrow> ptr option) \<times> string \<times> string \<times> int" where
  "sv_core sv = (sv_connections sv, sv_name sv, sv_ipPort sv, sv_nextConnId sv)"

definition cores :: "world \<Rightarrow> ptr \<Rightarrow> ((string \<Rightarrow> ptr option) \<times> string \<times> string \<times> int) option" where
  "cores w s = map_option sv_core (w_servers w s)"

text \<open>A server whose pool hands out loops: the pool is based on the server's loop, and its cursor is in range.\<close>

definition server_fit :: "tcp_server \<Rightarrow> bool" where
  "server_fit sv \<longleftrightarrow> sv_loop sv \<noteq> 0 \<and> tp_baseLoop (sv_threadPool sv) = sv_loop sv \<and> pool_fit (sv_threadPool sv)"

text \<open>Which channels there are, and what acceptors and servers point to.\<close>

definition shape ::
    "world \<Rightarrow> ptr set \<times> (ptr \<Rightarrow> (ptr \<times> ptr option) option) \<times> (ptr \<Rightarrow> (ptr \<times> ptr \<times> bool) option)" where
  "shape w = (dom (w_chans w), \<lambda>p. map_option (\<lambda>ac. (ac_channel ac, newConnectionCallback ac)) (w_acceptors w p),
     \<lambda>s. map_option (\<lambda>sv. (sv_acceptor sv, sv_loop sv, server_fit sv)) (w_servers w s))"

subsection \<open>Operations that begin and end no life\<close>

text \<open>
  \<open>calm\<close>: no object comes or goes, no connection becomes disconnected, the channels of disconnected ones keep their
  index, the tables stay, and queues grow only by functors that find their connection.
\<close>

definition calm_conn :: "world \<Rightarrow> world \<Rightarrow> tcp_connection \<Rightarrow> tcp_connection \<Rightarrow> bool" where
  "calm_conn w w' c c' \<longleftrightarrow> tc_name c' = tc_name c \<and> tc_channel c' = tc_channel c \<and>
     tc_closeCallback c' = tc_closeCallback c \<and> (tc_state c' = kDisconnected \<longleftrightarrow> tc_state c = kDisconnected) \<and>
     (tc_state c = kDisconnected \<longrightarrow> index_at (tc_channel c) w' = index_at (tc_channel c) w)"

definition calm :: "world \<Rightarrow> world \<Rightarrow> bool" where
  "calm w w' \<longleftrightarrow> cores w' = cores w \<and> shape w' = shape w \<and> dom (w_conns w') = dom (w_conns w) \<and>
     (\<forall>a c c'. w_conns w a = Some c \<longrightarrow> w_conns w' a = Some c' \<longrightarrow> calm_conn w w' c c') \<and>
     (\<forall>lp. \<exists>gs. pend w' lp = pend w lp @ gs \<and> (\<forall>g \<in> set gs. functor_ok w g))"

lemma calm_conn_refl [simp]: "calm_conn w w c c"
  by (simp add: calm_conn_def)

lemma calm_conn_trans: "calm_conn w w1 c c1 \<Longrightarrow> calm_conn w1 w2 c1 c2 \<Longrightarrow> calm_conn w w2 c c2"
  by (simp add: calm_conn_def)

lemma calm_refl [simp]: "calm w w"
  by (simp add: calm_def)

lemma calm_dom: "calm w w' \<Longrightarrow> w_conns w' a = None \<longleftrightarrow> w_conns w a = None"
  unfolding calm_def by blast

lemma calm_connE:
  assumes "calm w w'" "w_conns w' a = Some c'"
  obtains c where "w_conns w a = Some c" "calm_conn w w' c c'"
proof -
  have "w_conns w a \<noteq> None" using calm_dom [OF assms(1), of a] assms(2) by simp
  then obtain c where "w_conns w a = Some c" by blast
  with that assms show thesis unfolding calm_def by blast
qed

lemma calm_connD:
  assumes "calm w w'" "w_conns w a = Some c"
  obtains c' where "w_conns w' a = Some c'" "calm_conn w w' c c'"
proof -
  have "w_conns w' a \<noteq> None" using calm_dom [OF assms(1), of a] assms(2) by simp
  then obtain c' where "w_conns w' a = Some c'" by blast
  with that assms show thesis unfolding calm_def by blast
qed

lemma functor_ok_calm:
  assumes calm: "calm w w'"
  shows "functor_ok w' g = functor_ok w g"
proof -
  have "map_option tc_closeCallback (w_conns w' a) = map_option tc_closeCallback (w_conns w a)" for a
  proof (cases "w_conns w a")
    case None
    then show ?thesis using calm_dom [OF calm, of a] by simp
  next
    case (Some c)
    then obtain c' where "w_conns w' a = Some c'" "calm_conn w w' c c'" using calm_connD [OF calm] by blast
    then show ?thesis using Some by (simp add: calm_conn_def)
  qed
  then show ?thesis by (simp add: functor_ok_def calm_dom [OF calm])
qed

lemma calm_trans:
  assumes 1: "calm w w1" and 2: "calm w1 w2"
  shows "calm w w2"
  unfolding calm_def
proof (intro conjI allI impI)
  show "cores w2 = cores w" "shape w2 = shape w" "dom (w_conns w2) = dom (w_conns w)" using 1 2 by (simp_all add: calm_def)
next
  fix a c c2 assume c: "w_conns w a = Some c" "w_conns w2 a = Some c2"
  obtain c1 where "w_conns w1 a = Some c1" "calm_conn w w1 c c1" using calm_connD [OF 1 c(1)] .
  moreover from this c(2) 2 have "calm_conn w1 w2 c1 c2" unfolding calm_def by blast
  ultimately show "calm_conn w w2 c c2" using calm_conn_trans by blast
next
  fix lp
  obtain gs where "pend w1 lp = pend w lp @ gs" "\<forall>g \<in> set gs. functor_ok w g" using 1 unfolding calm_def by blast
  moreover obtain hs where "pend w2 lp = pend w1 lp @ hs" "\<forall>g \<in> set hs. functor_ok w g"
    using 2 functor_ok_calm [OF 1] unfolding calm_def by blast
  ultimately show "\<exists>gs. pend w2 lp = pend w lp @ gs \<and> (\<forall>g \<in> set gs. functor_ok w g)"
    by (intro exI [of _ "gs @ hs"]) auto
qed

definition tame :: "world \<Rightarrow> world \<Rightarrow> bool" where
  "tame w w' \<longleftrightarrow> world_le w w' \<and> calm w w'"

interpretation wt: contract world_ok tame
  by unfold_locales (auto simp: tame_def intro: world_le_trans calm_trans)

abbreviation gentle :: "(world \<Rightarrow> fault + world) \<Rightarrow> bool" where
  "gentle \<equiv> keeps world_ok tame"

lemma gentleI:
  assumes "safe f" "\<And>w w'. world_ok w \<Longrightarrow> f w = Inr w' \<Longrightarrow> calm w w'"
  shows "gentle f"
  using keepsD [OF assms(1)] assms(2) by (auto intro: keepsI simp: tame_def)

lemma gentleD: "gentle f \<Longrightarrow> world_ok w \<Longrightarrow> f w = Inr w' \<Longrightarrow> calm w w'"
  using keepsD [of world_ok tame f w w'] by (simp add: tame_def)

text \<open>The elementary changes of the world.\<close>

lemma calm_same:
  assumes "w_conns w' = w_conns w" "\<And>x. index_at x w' = index_at x w" "cores w' = cores w" "shape w' = shape w"
    "\<And>lp. pend w' lp = pend w lp"
  shows "calm w w'"
  using assms by (auto simp: calm_def calm_conn_def)

lemma calm_put_conn:
  assumes "w_conns w a = Some c" "tc_name c' = tc_name c" "tc_channel c' = tc_channel c"
    "tc_closeCallback c' = tc_closeCallback c" "tc_state c' = kDisconnected \<longleftrightarrow> tc_state c = kDisconnected"
  shows "calm w (put_conn a c' w)"
  using assms by (auto simp: calm_def calm_conn_def put_conn_def cores_def shape_def pend_def index_at_def split: if_splits)

lemma pend_put_loop [simp]: "pend (put_loop lp l w) q = (if q = lp then el_pendingFunctors l else pend w q)"
  by (simp add: pend_def put_loop_def)

lemma put_loop_sel [simp]:
  "w_conns (put_loop lp l w) = w_conns w" "w_chans (put_loop lp l w) = w_chans w"
  "w_servers (put_loop lp l w) = w_servers w" "w_acceptors (put_loop lp l w) = w_acceptors w"
  "w_strings (put_loop lp l w) = w_strings w" "w_loops (put_loop lp l w) = (w_loops w)(lp \<mapsto> l)"
  by (simp_all add: put_loop_def)

lemma put_chan_sel [simp]:
  "w_conns (put_chan x ch w) = w_conns w" "w_loops (put_chan x ch w) = w_loops w"
  "w_servers (put_chan x ch w) = w_servers w" "w_acceptors (put_chan x ch w) = w_acceptors w"
  "w_strings (put_chan x ch w) = w_strings w" "w_chans (put_chan x ch w) = (w_chans w)(x \<mapsto> ch)"
  by (simp_all add: put_chan_def)

lemma calm_upd_loop:
  assumes "w_loops w lp = Some l" "el_pendingFunctors (f l) = el_pendingFunctors l @ gs" "\<forall>g \<in> set gs. functor_ok w g"
  shows "calm w (upd_loop lp f w)"
  using assms by (auto simp: calm_def calm_conn_def upd_loop_def loop_at_def cores_def shape_def index_at_def pend_def
      intro: exI [of _ gs])

lemma calm_install:
  assumes at: "attached a c ch l w" and solo: "\<And>b d. w_conns w b = Some d \<Longrightarrow> tc_channel d = tc_channel c \<Longrightarrow> b = a"
    and c: "tc_state c \<noteq> kDisconnected" "tc_state c' \<noteq> kDisconnected" "tc_name c' = tc_name c"
      "tc_channel c' = tc_channel c" "tc_loop c' = tc_loop c" "tc_closeCallback c' = tc_closeCallback c"
    and l: "el_pendingFunctors l' = el_pendingFunctors l @ gs" "\<forall>g \<in> set gs. functor_ok w g"
  shows "calm w (install a c' ch' l' w)"
proof -
  have "calm_conn w (install a c' ch' l' w) d d'" if "w_conns w b = Some d" "w_conns (install a c' ch' l' w) b = Some d'" for b d d'
    using that at c solo [OF that(1)] by (auto simp: calm_conn_def attached_def index_at_def split: if_splits)
  moreover have "\<exists>gs. pend (install a c' ch' l' w) lp = pend w lp @ gs \<and> (\<forall>g\<in>set gs. functor_ok w g)" for lp
    using at l c(5) by (cases "lp = tc_loop c") (auto simp: pend_def attached_def intro: exI [of _ gs])
  moreover have "dom (w_chans (install a c' ch' l' w)) = dom (w_chans w)" using at c(4) by (auto simp: attached_def)
  ultimately show ?thesis using at by (auto simp: calm_def cores_def shape_def attached_def)
qed

subsection \<open>The operations of connections and user code\<close>

lemma functor_ok_simps [simp]:
  "functor_ok w (UserFunctor n)" "functor_ok w (SendInLoop a p len)" "functor_ok w (ShutdownInLoop a)"
  "functor_ok w (Acceptor_listen p)"
  "functor_ok w (ConnectEstablished a) \<longleftrightarrow> w_conns w a \<noteq> None"
  "functor_ok w (ConnectDestroyed a) \<longleftrightarrow> w_conns w a \<noteq> None"
  "functor_ok w (WriteComplete n a) \<longleftrightarrow> w_conns w a \<noteq> None"
  "functor_ok w (HighWaterMark n a k) \<longleftrightarrow> w_conns w a \<noteq> None"
  "functor_ok w (RemoveConnectionInLoop s a) \<longleftrightarrow> map_option tc_closeCallback (w_conns w a) = Some (Some s)"
  by (auto simp: functor_ok_def)

lemma calm_queue_call:
  assumes "queue_call sys tid lp f w = Inr w'" "functor_ok w f"
  shows "calm w w'"
proof -
  obtain l where "w_loops w lp = Some l" "w' = upd_loop lp (queueInLoop sys tid f) w"
    using assms(1) by (auto simp: queue_call_def bindE_eq_Inr the_simps)
  then show ?thesis using calm_upd_loop [of w lp l "queueInLoop sys tid f" "[f]"] assms(2) by simp
qed

lemma run_callE:
  assumes "run_call sys tid lp ex f w = Inr w'"
  obtains "ex f w = Inr w'" | "queue_call sys tid lp f w = Inr w'"
  using assms by (auto simp: run_call_def queue_call_def runInLoop_def bindE_eq_Inr the_simps split: if_splits)

lemma calm_run_call:
  assumes "run_call sys tid lp ex f w = Inr w'" "functor_ok w f" "\<And>w'. ex f w = Inr w' \<Longrightarrow> calm w w'"
  shows "calm w w'"
  using assms(1) by (rule run_callE) (use assms calm_queue_call in blast)+

lemma solo: "world_ok w \<Longrightarrow> w_conns w a = Some c \<Longrightarrow> w_conns w b = Some d \<Longrightarrow> tc_channel d = tc_channel c \<Longrightarrow> b = a"
  using world_okD(4) [of w b d a c] by simp

lemma calm_shutdownInLoop:
  assumes "shutdownInLoop sys a w = Inr w'"
  shows "calm w w'"
proof -
  obtain c where c: "w_conns w a = Some c" using assms by (auto simp: shutdownInLoop_def bindE_eq_Inr the_simps)
  then have "w' = w \<or> w' = put_conn a (c\<lparr>tc_socket := shutdownWrite sys (tc_socket c)\<rparr>) w"
    using assms by (auto simp: shutdownInLoop_def the_conn_def bindE_eq_Inr split: if_splits)
  then show ?thesis using calm_put_conn [OF c, of "c\<lparr>tc_socket := shutdownWrite sys (tc_socket c)\<rparr>"] by auto
qed

lemma calm_shutdown:
  assumes run: "shutdown sys tid a w = Inr w'"
  shows "calm w w'"
proof -
  obtain c where c: "w_conns w a = Some c" using run by (auto simp: shutdown_def bindE_eq_Inr the_simps)
  show ?thesis
  proof (cases "tc_state c = kConnected")
    case False
    then show ?thesis using run c by (simp add: shutdown_def the_conn_def)
  next
    case True
    let ?w = "put_conn a (setState kDisconnecting c) w"
    have 1: "calm w ?w" by (rule calm_put_conn [OF c]) (simp_all add: setState_def True)
    have "run_call sys tid (tc_loop c) (\<lambda>_. shutdownInLoop sys a) (ShutdownInLoop a) ?w = Inr w'"
      using run c True by (simp add: shutdown_def the_conn_def)
    then have "calm ?w w'" by (rule calm_run_call) (simp_all add: calm_shutdownInLoop)
    with 1 show ?thesis by (rule calm_trans)
  qed
qed

context kernel
begin

lemma calm_sendInLoop:
  assumes ok: "world_ok w" and run: "sendInLoop sys tid a msg len w = Inr w'"
  shows "calm w w'"
proof -
  obtain c where c: "w_conns w a = Some c" using run by (auto simp: sendInLoop_def bindE_eq_Inr the_simps)
  obtain ch l where at: "attached a c ch l w" using attachedE [OF ok c] by blast
  show ?thesis
  proof (cases "tc_state c = kDisconnected")
    case True
    then show ?thesis using run c by (simp add: sendInLoop_def the_conn_def)
  next
    case live: False
    consider "w' = w" | fs s left where "send_result a c l w s left fs (Inr w')"
        "\<forall>f \<in> set fs. (\<exists>n. f = WriteComplete n a) \<or> (\<exists>n k. f = HighWaterMark n a k)"
      using sendInLoop_done [OF ok at live run] by blast
    then show ?thesis
    proof cases
      case (2 fs s left)
      from 2(1) obtain b ch' l' where w': "w' = install a (c\<lparr>tc_socket := s, outputBuffer := b\<rparr>) ch' l' w"
        and l': "el_pendingFunctors l' = el_pendingFunctors l @ fs"
        by (auto simp: send_result_def)
      have "\<forall>f \<in> set fs. functor_ok w f" using 2(2) c by auto
      with l' show ?thesis unfolding w'
        by (intro calm_install [OF at]) (use live in \<open>simp_all add: solo [OF ok c]\<close>)
    qed simp
  qed
qed

lemma calm_send:
  assumes ok: "world_ok w" and run: "send sys tid a p w = Inr w'"
  shows "calm w w'"
proof -
  obtain c where c: "w_conns w a = Some c" using run by (auto simp: send_def bindE_eq_Inr the_simps)
  show ?thesis
  proof (cases "tc_state c = kConnected")
    case False
    then show ?thesis using run c by (simp add: send_def the_conn_def)
  next
    case True
    then obtain len where "sendInLoop sys tid a p len w = Inr w' \<or>
        run_call sys tid (tc_loop c) (\<lambda>_. sendInLoop sys tid a p len) (SendInLoop a p len) w = Inr w'"
      using run c by (auto simp: send_def the_conn_def bindE_eq_Inr split: option.splits if_splits)
    then show ?thesis using calm_sendInLoop [OF ok] calm_run_call [OF _ functor_ok_simps(2)] by blast
  qed
qed

lemma calm_strings [simp]: "calm w (w\<lparr>w_strings := m\<rparr>)"
  by (rule calm_same) (simp_all add: index_at_def cores_def shape_def pend_def fun_eq_iff)

lemma gentle_user_do: "gentle (user_do sys tid x)"
proof (rule gentleI [OF safe_user_do])
  fix w w' assume ok: "world_ok w" and run: "user_do sys tid x w = Inr w'"
  show "calm w w'"
  proof (cases x)
    case (TakeInput a p)
    then obtain c b where c: "w_conns w a = Some c"
        and w': "\<exists>m. w' = (put_conn a (c\<lparr>inputBuffer := b\<rparr>) w)\<lparr>w_strings := m\<rparr>"
      using run by (auto simp: bindE_eq_Inr the_simps)
    have "calm w (put_conn a (c\<lparr>inputBuffer := b\<rparr>) w)" by (rule calm_put_conn [OF c]) simp_all
    then show ?thesis using w' calm_trans calm_strings by blast
  next
    case (QueueInLoop lp n)
    then show ?thesis using run calm_queue_call [OF _ functor_ok_simps(1)] by simp
  next
    case (QuitLoop lp)
    then obtain l where "w_loops w lp = Some l" "w' = upd_loop lp (quit sys tid) w"
      using run by (auto simp: bindE_eq_Inr the_simps)
    then show ?thesis using calm_upd_loop [of w lp l "quit sys tid" "[]"]
      by (simp add: quit_def set_quit_def wakeup_def Let_def)
  qed (use run ok calm_send calm_shutdown in
      \<open>auto simp: bindE_eq_Inr the_simps setWriteCompleteCallback_def setHighWaterMarkCallback_def
        split: if_splits intro: calm_put_conn\<close>)
qed

lemma gentle_run_user: "gentle (run_user sys tid xs)"
proof (induction xs)
  case Nil
  show ?case by (rule gentleI [OF safe_run_user]) simp
next
  case (Cons x xs)
  have "gentle (\<lambda>w. bindE (user_do sys tid x w) (run_user sys tid xs))"
    by (rule wt.keeps_bind [OF gentle_user_do Cons.IH])
  then show ?case by (simp add: keeps_def)
qed

lemma gentle_call_user: "e_sys env = sys \<Longrightarrow> gentle (call_user env x)"
  using gentle_run_user unfolding keeps_def call_user_def by blast

end

text \<open>A channel that is not that of a disconnected connection.\<close>

definition live_chan :: "ptr \<Rightarrow> world \<Rightarrow> bool" where
  "live_chan x w \<longleftrightarrow> (\<forall>b d. w_conns w b = Some d \<longrightarrow> tc_channel d = x \<longrightarrow> tc_state d \<noteq> kDisconnected)"

lemma live_chan_calm:
  assumes "calm w w'" "live_chan x w"
  shows "live_chan x w'"
  unfolding live_chan_def
proof (intro allI impI)
  fix b d assume d: "w_conns w' b = Some d" "tc_channel d = x"
  obtain c where "w_conns w b = Some c" "calm_conn w w' c d" using calm_connE [OF assms(1) d(1)] .
  with d(2) assms(2) show "tc_state d \<noteq> kDisconnected" by (auto simp: live_chan_def calm_conn_def)
qed

lemma live_chan_own:
  "world_ok w \<Longrightarrow> w_conns w a = Some c \<Longrightarrow> tc_state c \<noteq> kDisconnected \<Longrightarrow> live_chan (tc_channel c) w"
  unfolding live_chan_def using solo by fastforce

lemma calm_put_chan:
  assumes "w_chans w x \<noteq> None" "live_chan x w \<or> map_option ch_index (w_chans w x) = Some (ch_index ch)"
  shows "calm w (put_chan x ch w)"
  using assms by (auto simp: calm_def calm_conn_def live_chan_def cores_def shape_def index_at_def pend_def)

lemma calm_chan_call:
  assumes "chan_call sys op x w = Inr w'" "live_chan x w"
  shows "calm w w'"
proof -
  obtain ch where ch: "the_chan w x = Inr ch" using assms(1) by (auto simp: chan_call_def bindE_eq_Inr)
  obtain l where l': "the_loop w (ch_loop ch) = Inr l" using assms(1) ch by (auto simp: chan_call_def bindE_eq_Inr)
  obtain ch' p' where "chan_do sys op ch (el_poller l) = Inr (ch', p')"
    using assms(1) ch l' by (auto simp: chan_call_def bindE_eq_Inr)
  then have w': "w' = put_loop (ch_loop ch) (l\<lparr>el_poller := p'\<rparr>) (put_chan x ch' w)"
    using assms(1) ch l' by (simp add: chan_call_def)
  have l: "w_loops w (ch_loop ch) = Some l" using l' by (simp add: the_simps)
  have "calm w (put_chan x ch' w)" using assms(2) ch by (intro calm_put_chan) (simp_all add: the_simps)
  moreover have "calm (put_chan x ch' w) w'"
    using l unfolding w' by (intro calm_same) (auto simp: index_at_def cores_def shape_def pend_def)
  ultimately show ?thesis by (rule calm_trans)
qed

lemma calm_handleError: "handleError a w = Inr w' \<Longrightarrow> calm w w'"
  by (auto simp: handleError_def bindE_eq_Inr)

context kernel
begin

lemma gentle_call_connectionCallback:
  assumes env: "e_sys env = sys"
  shows "gentle (call_connectionCallback env a)"
proof (rule gentleI [OF safe_call_connectionCallback [OF env]])
  fix w w' assume ok: "world_ok w" and run: "call_connectionCallback env a w = Inr w'"
  then obtain c cb where "connectionCallback c = Some cb" "the_conn w a = Inr c"
    by (auto simp: call_connectionCallback_def bindE_eq_Inr split: option.splits)
  then show "calm w w'"
    using run gentleD [OF gentle_call_user [OF env] ok] by (cases cb) (simp_all add: call_connectionCallback_def)
qed

lemma gentle_call_messageCallback:
  assumes env: "e_sys env = sys"
  shows "gentle (call_messageCallback env a t)"
proof (rule gentleI [OF safe_call_messageCallback [OF env]])
  fix w w' assume ok: "world_ok w" and run: "call_messageCallback env a t w = Inr w'"
  then obtain c cb where cb: "messageCallback c = Some cb" "the_conn w a = Inr c"
    by (auto simp: call_messageCallback_def bindE_eq_Inr split: option.splits)
  have "calm w w'" if "defaultMessageCallback a w = Inr w'"
    using that by (auto simp: defaultMessageCallback_def bindE_eq_Inr the_simps intro: calm_put_conn)
  with cb show "calm w w'"
    using run gentleD [OF gentle_call_user [OF env] ok] by (cases cb) (simp_all add: call_messageCallback_def)
qed

lemma gentle_handleWrite:
  assumes env: "e_sys env = sys"
  shows "gentle (handleWrite env a)"
proof (rule gentleI [OF safe_handleWrite [OF env]])
  fix w w' assume ok: "world_ok w" and run: "handleWrite env a w = Inr w'"
  then obtain c where c: "w_conns w a = Some c" by (auto simp: handleWrite_def bindE_eq_Inr the_simps)
  obtain n e where n: "sys_write sys (sockfd (tc_socket c)) (content (outputBuffer c)) = (n, e)" by fastforce
  note le = write_le [OF n]
  consider "tc_state c = kDisconnected \<or> content (outputBuffer c) = []"
    | "tc_state c \<noteq> kDisconnected" "content (outputBuffer c) \<noteq> []" "n \<le> 0"
    | "tc_state c \<noteq> kDisconnected" "content (outputBuffer c) \<noteq> []" "0 < n" "nat n < length (content (outputBuffer c))"
    | "tc_state c \<noteq> kDisconnected" "content (outputBuffer c) \<noteq> []" "0 < n" "nat n = length (content (outputBuffer c))"
    using le by linarith
  then show "calm w w'"
  proof cases
    case 1
    then show ?thesis using handleWrite_idle [OF ok c] run by simp
  next
    case 2
    then show ?thesis using handleWrite_error [OF env ok c _ _ n] run by simp
  next
    case 3
    from handleWrite_partial [OF env ok c 3(1,2) n 3(3,4)] run obtain b ch l where
      at: "attached a c ch l w" and w': "w' = install a (c\<lparr>outputBuffer := b,
            tc_socket := kernel_took n (content (outputBuffer c)) (tc_socket c)\<rparr>) ch l w" by auto
    show ?thesis unfolding w'
      by (rule calm_install [OF at, where gs = "[]"]) (use 3(1) in \<open>simp_all add: solo [OF ok c]\<close>)
  next
    case 4
    from handleWrite_last [OF env ok c 4(1,2) n 4(3,4)] run obtain b ch l ch' l' where
      at: "attached a c ch l w" and w': "w' = install a (drained sys c n b) ch' l' w" and
      l': "el_pendingFunctors l' = el_pendingFunctors l @ opt_to_list (write_done a c)" by auto
    have d: "tc_state (drained sys c n b) = tc_state c" "tc_name (drained sys c n b) = tc_name c"
        "tc_channel (drained sys c n b) = tc_channel c" "tc_loop (drained sys c n b) = tc_loop c"
        "tc_closeCallback (drained sys c n b) = tc_closeCallback c"
      by (simp_all add: drained_def Let_def)
    have "\<forall>f \<in> set (opt_to_list (write_done a c)). functor_ok w f"
      using c write_done_Some [of a c] by (auto simp: set_opt_to_list)
    then show ?thesis unfolding w'
      by (intro calm_install [OF at _ _ _ _ _ _ _ l']) (use 4(1) in \<open>simp_all add: d solo [OF ok c]\<close>)
  qed
qed

lemma gentle_connectEstablished:
  assumes env: "e_sys env = sys"
  shows "gentle (connectEstablished env a)"
proof (rule gentleI [OF safe_connectEstablished [OF env]])
  fix w w' assume ok: "world_ok w" and run: "connectEstablished env a w = Inr w'"
  then obtain c w1 w2 where c: "w_conns w a = Some c" and st: "tc_state c = kConnecting"
      and w1: "chan_tie a (tc_channel c) (put_conn a (setState kConnected c) w) = Inr w1"
      and w2: "chan_call (e_sys env) EnableReading (tc_channel c) w1 = Inr w2"
      and rest: "call_connectionCallback env a w2 = Inr w'"
    by (auto simp: connectEstablished_def bindE_eq_Inr the_simps guardE_eq_Inr)
  let ?w0 = "put_conn a (setState kConnected c) w"
  have c0: "calm w ?w0" by (rule calm_put_conn [OF c]) (simp_all add: setState_def st)
  have "calm ?w0 w1" using w1
    by (auto simp: chan_tie_def bindE_eq_Inr the_simps tie_def intro!: calm_put_chan)
  with c0 have c1: "calm w w1" by (rule calm_trans)
  have "live_chan (tc_channel c) w" by (rule live_chan_own [OF ok c]) (simp add: st)
  from calm_chan_call [OF w2 live_chan_calm [OF c1 this]] c1 have c2: "calm w w2" using calm_trans by blast
  have "world_ok w2" using connectEstablished_upto [OF env ok c st w1 w2] by simp
  from gentleD [OF gentle_call_connectionCallback [OF env] this rest] c2 show "calm w w'" using calm_trans by blast
qed

end

subsection \<open>Polling, listening and the wake-up channel\<close>

lemma calm_world_set_revents:
  assumes "world_set_revents x r w = Inr w'"
  shows "calm w w' \<and> w_loops w' = w_loops w"
  using assms by (auto simp: world_set_revents_def bindE_eq_Inr the_simps set_revents_def intro!: calm_put_chan)

lemma calm_fill_events:
  "fill_events world_set_revents evs act w = Inr (act', w') \<Longrightarrow> calm w w' \<and> w_loops w' = w_loops w"
proof (induction evs arbitrary: act w)
  case (Cons ev evs)
  then obtain w1 where "world_set_revents (ev_ptr ev) (ev_events ev) w = Inr w1"
      "fill_events world_set_revents evs (act @ [ev_ptr ev]) w1 = Inr (act', w')"
    by (auto simp: bindE_eq_Inr)
  then show ?case using Cons.IH calm_world_set_revents calm_trans by metis
qed simp

lemma gentle_world_poll: "gentle (world_poll sys lp)"
proof (rule gentleI [OF safe_world_poll])
  fix w w' assume "world_poll sys lp w = Inr w'"
  then obtain l active p w1 where l: "w_loops w lp = Some l"
      and poll: "poller_poll sys kPollTimeMs world_set_revents (el_poller l) w = Inr (active, p, w1)"
      and w': "w' = upd_loop lp (\<lambda>l. l\<lparr>el_poller := p, el_activeChannels := active,
                             el_pollReturnTime := sys_now sys\<rparr>) w1"
    by (auto simp: world_poll_def bindE_eq_Inr the_simps)
  have 1: "calm w w1 \<and> w_loops w1 = w_loops w"
    using poll by (auto simp: poller_poll_def fillActiveChannels_def bindE_eq_Inr guardE_eq_Inr
        split: if_splits prod.splits dest: calm_fill_events)
  then have "calm w1 w'" unfolding w' using calm_upd_loop [of w1 lp l _ "[]"] l by simp
  with conjunct1 [OF 1] show "calm w w'" by (rule calm_trans)
qed

lemma calm_wakeup_channel:
  assumes "run_callback env t (EventLoop_handleRead lp) w = Inr w'"
  shows "calm w w'"
proof -
  obtain l where "w_loops w lp = Some l" "w' = upd_loop lp (loop_handleRead (e_sys env)) w"
    using assms by (auto simp: bindE_eq_Inr the_simps)
  then show ?thesis using calm_upd_loop [of w lp l _ "[]"] by (simp add: loop_handleRead_def)
qed

lemma calm_put_acceptor:
  assumes "w_acceptors w p = Some ac" "ac_channel ac' = ac_channel ac" "newConnectionCallback ac' = newConnectionCallback ac"
  shows "calm w (put_acceptor p ac' w)"
  by (rule calm_same) (use assms in \<open>auto simp: index_at_def cores_def shape_def pend_def\<close>)

lemma calm_put_server:
  assumes "w_servers w s = Some sv" "sv_core sv' = sv_core sv" "sv_acceptor sv' = sv_acceptor sv" "sv_loop sv' = sv_loop sv"
    "server_fit sv' = server_fit sv"
  shows "calm w (put_server s sv' w)"
  by (rule calm_same) (use assms in \<open>auto simp: index_at_def cores_def shape_def pend_def put_server_def\<close>)

lemma calm_acceptor_listen:
  assumes run: "acceptor_listen sys ret p w = Inr w'" and ac: "w_acceptors w p = Some ac" and live: "live_chan (ac_channel ac) w"
  shows "calm w w'"
proof -
  obtain s where call: "chan_call sys EnableReading (ac_channel ac)
      (put_acceptor p (ac\<lparr>ac_listening := True, ac_socket := s\<rparr>) w) = Inr w'"
    using run ac by (auto simp: acceptor_listen_def bindE_eq_Inr the_acceptor_eq)
  have "calm w (put_acceptor p (ac\<lparr>ac_listening := True, ac_socket := s\<rparr>) w)"
    by (rule calm_put_acceptor [OF ac]) simp_all
  then show ?thesis using calm_chan_call [OF call] live_chan_calm [OF _ live] calm_trans by blast
qed

end
