(* ===== verification/Objects.thy ===== *)
theory Objects
  imports Ownership
begin

text \<open>
  Which pointers of the library lead where: the callbacks of a channel are bound to the object that owns the
  channel, an acceptor calls the server that owns it, and both ends are there. Raw pointers, kept right by
  construction and destruction order alone.
\<close>

subsection \<open>Operations that leave the objects where they are\<close>

definition fixed :: "world \<Rightarrow> world \<Rightarrow> bool" where
  "fixed w w' \<longleftrightarrow> shape w' = shape w \<and> dom (w_conns w') = dom (w_conns w)"

interpretation fx: contract "\<lambda>_. True" fixed
  by unfold_locales (auto simp: fixed_def)

abbreviation stable :: "(world \<Rightarrow> fault + world) \<Rightarrow> bool" where
  "stable \<equiv> keeps (\<lambda>_. True) fixed"

lemma stableI: "(\<And>w w'. f w = Inr w' \<Longrightarrow> fixed w w') \<Longrightarrow> stable f"
  by (rule keepsI) blast

lemma stableD: "stable f \<Longrightarrow> f w = Inr w' \<Longrightarrow> fixed w w'"
  using keepsD [of "\<lambda>_. True" fixed f w w'] by blast

lemma fixed_refl [simp]: "fixed w w"
  by (simp add: fixed_def)

lemma fixed_trans: "fixed w w1 \<Longrightarrow> fixed w1 w2 \<Longrightarrow> fixed w w2"
  by (simp add: fixed_def)

lemma same_objects_fixed: "same_objects w w' \<Longrightarrow> fixed w w'"
  by (simp add: same_objects_def fixed_def shape_def)

lemma calm_fixed: "calm w w' \<Longrightarrow> fixed w w'"
  by (simp add: calm_def fixed_def)

lemma inert_stable: "inert f \<Longrightarrow> stable f"
  using inertD same_objects_fixed by (blast intro: stableI)

lemma fixed_put_server:
  "w_servers w s = Some sv \<Longrightarrow> sv_acceptor sv' = sv_acceptor sv \<Longrightarrow> sv_loop sv' = sv_loop sv \<Longrightarrow>
     server_fit sv' = server_fit sv \<Longrightarrow> fixed w (put_server s sv' w)"
  by (auto simp: fixed_def shape_def put_server_def)

lemma stable_removeConnectionInLoop: "stable (removeConnectionInLoop sys tid s a)"
proof (rule stableI)
  fix w w' assume "removeConnectionInLoop sys tid s a w = Inr w'"
  then obtain sv and c :: tcp_connection where sv: "w_servers w s = Some sv"
    and q: "queue_call sys tid (tc_loop c) (ConnectDestroyed a)
       (put_server s (sv\<lparr>sv_connections := (sv_connections sv)(tc_name c := None)\<rparr>) w) = Inr w'"
    unfolding removeConnectionInLoop_def bindE_eq_Inr the_simps by blast
  have "fixed w (put_server s (sv\<lparr>sv_connections := (sv_connections sv)(tc_name c := None)\<rparr>) w)"
    by (rule fixed_put_server [OF sv]) (simp_all add: server_fit_def)
  then show "fixed w w'" using same_objects_fixed [OF inertD [OF inert_queue_call q]] fixed_trans by blast
qed

lemma stable_run_call:
  assumes "stable g"
  shows "stable (run_call sys tid lp (\<lambda>_. g) f)"
proof (rule stableI)
  fix w w' assume "run_call sys tid lp (\<lambda>_. g) f w = Inr w'"
  then show "fixed w w'"
    by (rule run_callE)
      (use stableD [OF assms] same_objects_fixed [OF inertD [OF inert_queue_call]] in \<open>blast, blast\<close>)
qed

lemma stable_closeCallback: "stable (call_closeCallback sys tid a)"
proof (rule stableI)
  fix w w' assume run: "call_closeCallback sys tid a w = Inr w'"
  then obtain c s where "w_conns w a = Some c" "tc_closeCallback c = Some s"
    by (auto simp: call_closeCallback_def bindE_eq_Inr the_simps split: option.splits)
  then have "removeConnection sys tid s a w = Inr w'" using run by (simp add: call_closeCallback_def the_conn_def)
  then obtain sv :: tcp_server where "run_call sys tid (sv_loop sv) (\<lambda>_. removeConnectionInLoop sys tid s a)
       (RemoveConnectionInLoop s a) w = Inr w'"
    unfolding removeConnection_def bindE_eq_Inr by blast
  then show "fixed w w'" by (rule stableD [OF stable_run_call [OF stable_removeConnectionInLoop]])
qed

lemma fixed_disconnect:
  assumes "w_conns w a = Some c" "chan_call sys DisableAll x (put_conn a c' w) = Inr w'"
  shows "fixed w w'"
  using same_objects_trans [OF same_objects_put(1) [OF assms(1)] inertD [OF inert_chan_call assms(2)]]
  by (rule same_objects_fixed)

lemma stable_handleClose: "stable (handleClose env a)"
proof (rule stableI)
  fix w w' assume "handleClose env a w = Inr w'"
  then obtain c w1 w2 where "w_conns w a = Some c"
      "chan_call (e_sys env) DisableAll (tc_channel c) (put_conn a (setState kDisconnected c) w) = Inr w1"
      and w2: "call_connectionCallback env a w1 = Inr w2"
      and w': "call_closeCallback (e_sys env) (e_tid env) a w2 = Inr w'"
    unfolding handleClose_def bindE_eq_Inr the_simps by blast
  then have "fixed w w1" using fixed_disconnect by blast
  moreover have "fixed w1 w2" by (rule stableD [OF inert_stable [OF inert_call_connectionCallback] w2])
  moreover have "fixed w2 w'" by (rule stableD [OF stable_closeCallback w'])
  ultimately show "fixed w w'" using fixed_trans by blast
qed

lemma inert_connectDestroyed: "inert (connectDestroyed env a)"
proof (rule inertI)
  fix w w' assume "connectDestroyed env a w = Inr w'"
  then obtain c w1 where c: "w_conns w a = Some c"
      and w1: "(if tc_state c = kConnected
        then bindE (chan_call (e_sys env) DisableAll (tc_channel c) (put_conn a (setState kDisconnected c) w))
               (call_connectionCallback env a)
        else Inr w) = Inr w1"
      and w2: "chan_call (e_sys env) Remove (tc_channel c) w1 = Inr w'"
    unfolding connectDestroyed_def bindE_eq_Inr the_simps by blast
  have "same_objects w w1"
  proof (cases "tc_state c = kConnected")
    case True
    then obtain w0 where w0: "chan_call (e_sys env) DisableAll (tc_channel c) (put_conn a (setState kDisconnected c) w) = Inr w0"
        "call_connectionCallback env a w0 = Inr w1"
      using w1 by (auto simp: bindE_eq_Inr)
    from same_objects_put(1) [OF c] inertD [OF inert_chan_call w0(1)] inertD [OF inert_call_connectionCallback w0(2)]
    show ?thesis using same_objects_trans by blast
  next
    case False
    then show ?thesis using w1 by simp
  qed
  with inertD [OF inert_chan_call w2] show "same_objects w w'" using same_objects_trans by blast
qed

subsection \<open>The invariant\<close>

text \<open>The object a channel's callback is bound to owns the channel.\<close>

fun leads :: "callback \<Rightarrow> ptr \<Rightarrow> world \<Rightarrow> bool" where
  "leads (EventLoop_handleRead lp) x w \<longleftrightarrow> w_loops w lp \<noteq> None"
| "leads (Acceptor_handleRead p) x w \<longleftrightarrow> (\<exists>ac. w_acceptors w p = Some ac \<and> ac_channel ac = x)"
| "leads (TcpConnection_handleRead a) x w \<longleftrightarrow> (\<exists>c. w_conns w a = Some c \<and> tc_channel c = x)"
| "leads (TcpConnection_handleWrite a) x w \<longleftrightarrow> (\<exists>c. w_conns w a = Some c \<and> tc_channel c = x)"
| "leads (TcpConnection_handleClose a) x w \<longleftrightarrow> (\<exists>c. w_conns w a = Some c \<and> tc_channel c = x)"
| "leads (TcpConnection_handleError a) x w \<longleftrightarrow> (\<exists>c. w_conns w a = Some c \<and> tc_channel c = x)"

definition callbacks :: "callback channel \<Rightarrow> callback set" where
  "callbacks ch = {cb. Some cb \<in> {readCallback ch, writeCallback ch, closeCallback ch, errorCallback ch}}"

text \<open>A connection that calls back a server when it closes; its other callbacks may be empty.\<close>

definition callable :: "tcp_connection \<Rightarrow> bool" where
  "callable c \<longleftrightarrow> tc_closeCallback c \<noteq> None"

definition objects_ok :: "world \<Rightarrow> bool" where
  "objects_ok w \<longleftrightarrow>
     (\<forall>x ch cb. w_chans w x = Some ch \<longrightarrow> cb \<in> callbacks ch \<longrightarrow> leads cb x w) \<and>
     (\<forall>a c. w_conns w a = Some c \<longrightarrow> (\<exists>ch. w_chans w (tc_channel c) = Some ch \<and> conn_handlers a ch)) \<and>
     (\<forall>p ac. w_acceptors w p = Some ac \<longrightarrow>
        (\<exists>ch. w_chans w (ac_channel ac) = Some ch \<and> readCallback ch = Some (Acceptor_handleRead p)) \<and>
        (\<exists>s sv. newConnectionCallback ac = Some s \<and> w_servers w s = Some sv \<and> sv_acceptor sv = p)) \<and>
     (\<forall>s sv. w_servers w s = Some sv \<longrightarrow> w_loops w (sv_loop sv) \<noteq> None \<and>
        (\<exists>ac. w_acceptors w (sv_acceptor sv) = Some ac \<and> newConnectionCallback ac = Some s)) \<and>
     (\<forall>a c. w_conns w a = Some c \<longrightarrow> callable c) \<and>
     (\<forall>s sv. w_servers w s = Some sv \<longrightarrow> server_fit sv)"

lemma objects_okD:
  assumes "objects_ok w"
  shows "w_chans w x = Some ch \<Longrightarrow> cb \<in> callbacks ch \<Longrightarrow> leads cb x w"
    "w_conns w a = Some c \<Longrightarrow> \<exists>ch. w_chans w (tc_channel c) = Some ch \<and> conn_handlers a ch"
    "w_acceptors w p = Some ac \<Longrightarrow> \<exists>ch. w_chans w (ac_channel ac) = Some ch \<and> readCallback ch = Some (Acceptor_handleRead p)"
    "w_acceptors w p = Some ac \<Longrightarrow> \<exists>s sv. newConnectionCallback ac = Some s \<and> w_servers w s = Some sv \<and> sv_acceptor sv = p"
    "w_servers w s = Some sv \<Longrightarrow> w_loops w (sv_loop sv) \<noteq> None"
    "w_servers w s = Some sv \<Longrightarrow> \<exists>ac. w_acceptors w (sv_acceptor sv) = Some ac \<and> newConnectionCallback ac = Some s"
    "w_conns w a = Some c \<Longrightarrow> callable c"
    "w_servers w s = Some sv \<Longrightarrow> server_fit sv"
  using assms unfolding objects_ok_def by blast+

text \<open>The channel of an acceptor is nobody else's.\<close>

lemma acceptor_chan_live:
  assumes "objects_ok w" "w_acceptors w p = Some ac"
  shows "live_chan (ac_channel ac) w"
  unfolding live_chan_def
proof (intro allI impI)
  fix b d assume d: "w_conns w b = Some d" "tc_channel d = ac_channel ac"
  obtain ch where "w_chans w (tc_channel d) = Some ch" "conn_handlers b ch" using objects_okD(2) [OF assms(1) d(1)] by blast
  moreover obtain ch' where "w_chans w (ac_channel ac) = Some ch'" "readCallback ch' = Some (Acceptor_handleRead p)"
    using objects_okD(3) [OF assms] by blast
  ultimately show "tc_state d \<noteq> kDisconnected" using d(2) by (simp add: conn_handlers_def)
qed

subsection \<open>What keeps it\<close>

lemma shapeD:
  assumes "shape w' = shape w"
  shows "w_chans w' x = None \<longleftrightarrow> w_chans w x = None"
    "map_option (\<lambda>ac. (ac_channel ac, newConnectionCallback ac)) (w_acceptors w' p) =
       map_option (\<lambda>ac. (ac_channel ac, newConnectionCallback ac)) (w_acceptors w p)"
    "map_option (\<lambda>sv. (sv_acceptor sv, sv_loop sv, server_fit sv)) (w_servers w' s) =
       map_option (\<lambda>sv. (sv_acceptor sv, sv_loop sv, server_fit sv)) (w_servers w s)"
  using assms by (auto simp: shape_def fun_eq_iff)

lemma shape_acceptor:
  assumes "shape w' = shape w" "w_acceptors w p = Some ac"
  shows "\<exists>ac'. w_acceptors w' p = Some ac' \<and> ac_channel ac' = ac_channel ac \<and>
    newConnectionCallback ac' = newConnectionCallback ac"
  using shapeD(2) [OF assms(1), of p] assms(2) by auto

lemma shape_server:
  assumes "shape w' = shape w" "w_servers w s = Some sv"
  shows "\<exists>sv'. w_servers w' s = Some sv' \<and> sv_acceptor sv' = sv_acceptor sv \<and> sv_loop sv' = sv_loop sv \<and>
    server_fit sv' = server_fit sv"
  using shapeD(3) [OF assms(1), of s] assms(2) by auto

lemma callbacks_le: "chan_le ch ch' \<Longrightarrow> callbacks ch' = callbacks ch"
  by (simp add: chan_le_def callbacks_def)

lemma conn_handlers_le: "chan_le ch ch' \<Longrightarrow> conn_handlers a ch' = conn_handlers a ch"
  by (simp add: chan_le_def conn_handlers_def)

lemma conn_chan_le:
  assumes "world_le w w'" "\<exists>c. w_conns w a = Some c \<and> tc_channel c = x"
  shows "\<exists>c'. w_conns w' a = Some c' \<and> tc_channel c' = x"
proof -
  obtain c where c: "w_conns w a = Some c" "tc_channel c = x" using assms(2) by blast
  from world_le_conn [OF assms(1) c(1)] obtain c' where "w_conns w' a = Some c'" "conn_le c c'" .
  with c(2) show ?thesis by (simp add: conn_le_def)
qed

lemma leads_le:
  assumes le: "world_le w w'" and sh: "shape w' = shape w" and b: "leads cb x w"
  shows "leads cb x w'"
proof -
  note c = conn_chan_le [OF le]
  have "\<exists>ac'. w_acceptors w' p = Some ac' \<and> ac_channel ac' = x" if "\<exists>ac. w_acceptors w p = Some ac \<and> ac_channel ac = x" for p
    using that shape_acceptor [OF sh] by metis
  then show ?thesis using b c world_le_loop [OF le] by (cases cb) auto
qed

lemma objects_ok_keeps:
  assumes le: "world_le w w'" and fixed: "fixed w w'" and obj: "objects_ok w"
  shows "objects_ok w'"
proof -
  have sh: "shape w' = shape w" and dom: "dom (w_conns w') = dom (w_conns w)" using fixed by (simp_all add: fixed_def)
  have old: "\<exists>ch. w_chans w x = Some ch \<and> chan_le ch ch'" if "w_chans w' x = Some ch'" for x ch'
    using that shapeD(1) [OF sh, of x] world_le_chan [OF le, of x] by fastforce
  have chan: "\<exists>ch'. w_chans w' x = Some ch' \<and> chan_le ch ch'" if "w_chans w x = Some ch" for x ch
    using world_le_chan [OF le that] by blast
  have 1: "leads cb x w'" if "w_chans w' x = Some ch'" "cb \<in> callbacks ch'" for x ch' cb
  proof -
    obtain ch where ch: "w_chans w x = Some ch" "chan_le ch ch'" using old [OF \<open>w_chans w' x = Some ch'\<close>] by blast
    have "leads cb x w" by (rule objects_okD(1) [OF obj ch(1)]) (use \<open>cb \<in> callbacks ch'\<close> callbacks_le [OF ch(2)] in simp)
    then show ?thesis by (rule leads_le [OF le sh])
  qed
  have 2: "\<exists>ch. w_chans w' (tc_channel c') = Some ch \<and> conn_handlers a ch" if "w_conns w' a = Some c'" for a c'
  proof -
    have "a \<in> dom (w_conns w)" unfolding dom [symmetric] using that by (simp add: dom_def)
    then obtain c where c: "w_conns w a = Some c" by blast
    then obtain d where "w_conns w' a = Some d" "conn_le c d" using world_le_conn [OF le] by blast
    then have eq: "tc_channel c' = tc_channel c" using that by (simp add: conn_le_def)
    obtain ch where ch: "w_chans w (tc_channel c) = Some ch" "conn_handlers a ch"
      using objects_okD(2) [OF obj c] by blast
    obtain ch' where "w_chans w' (tc_channel c) = Some ch'" "chan_le ch ch'" using chan [OF ch(1)] by blast
    then show ?thesis using ch(2) conn_handlers_le eq by metis
  qed
  have 3: "(\<exists>ch. w_chans w' (ac_channel ac') = Some ch \<and> readCallback ch = Some (Acceptor_handleRead p)) \<and>
      (\<exists>s sv. newConnectionCallback ac' = Some s \<and> w_servers w' s = Some sv \<and> sv_acceptor sv = p)"
    if acc: "w_acceptors w' p = Some ac'" for p ac'
  proof -
    obtain ac where ac: "w_acceptors w p = Some ac" "ac_channel ac = ac_channel ac'"
        "newConnectionCallback ac = newConnectionCallback ac'"
      using shape_acceptor [OF sh [symmetric] acc] by blast
    obtain ch where ch: "w_chans w (ac_channel ac) = Some ch" "readCallback ch = Some (Acceptor_handleRead p)"
      using objects_okD(3) [OF obj ac(1)] by blast
    obtain ch' where "w_chans w' (ac_channel ac) = Some ch'" "chan_le ch ch'" using chan [OF ch(1)] by blast
    then have "\<exists>ch. w_chans w' (ac_channel ac') = Some ch \<and> readCallback ch = Some (Acceptor_handleRead p)"
      using ch(2) ac(2) by (simp add: chan_le_def)
    moreover have "\<exists>s sv. newConnectionCallback ac' = Some s \<and> w_servers w' s = Some sv \<and> sv_acceptor sv = p"
      using objects_okD(4) [OF obj ac(1)] shape_server [OF sh] ac(3) by metis
    ultimately show ?thesis by blast
  qed
  have 4: "w_loops w' (sv_loop sv') \<noteq> None \<and>
      (\<exists>ac. w_acceptors w' (sv_acceptor sv') = Some ac \<and> newConnectionCallback ac = Some s)"
    if srv: "w_servers w' s = Some sv'" for s sv'
  proof -
    obtain sv where sv: "w_servers w s = Some sv" "sv_acceptor sv = sv_acceptor sv'" "sv_loop sv = sv_loop sv'"
      using shape_server [OF sh [symmetric] srv] by blast
    then show ?thesis
      using objects_okD(5,6) [OF obj sv(1)] world_le_loop [OF le] shape_acceptor [OF sh] by metis
  qed
  have 5: "callable c'" if "w_conns w' a = Some c'" for a c'
  proof -
    have "a \<in> dom (w_conns w)" unfolding dom [symmetric] using that by (simp add: dom_def)
    then obtain c where c: "w_conns w a = Some c" by blast
    then obtain d where "w_conns w' a = Some d" "conn_le c d" using world_le_conn [OF le] by blast
    then show ?thesis using that objects_okD(7) [OF obj c] by (simp add: conn_le_def callable_def)
  qed
  have 6: "server_fit sv'" if "w_servers w' s = Some sv'" for s sv'
    using shape_server [OF sh [symmetric] that] objects_okD(8) [OF obj] by metis
  show ?thesis unfolding objects_ok_def using 1 2 3 4 5 6 by blast
qed

end
