(* ===== verification/Lifetime.thy ===== *)
theory Lifetime
  imports Objects
begin

text \<open>
  The lives of connections: the invariant that ties every live connection to the table of its server or to
  the functors that will end it, and its preservation by the operations that begin and end a life.
\<close>

subsection \<open>The invariant\<close>

text \<open>
  \<open>K\<close> are the functors taken out of a queue that are still to run, \<open>H\<close> all functors of the running
  batches: the local vector of \<open>doPendingFunctors\<close> keeps them, and what they own, until the batch is over.
\<close>

definition anchored :: "Functor set \<Rightarrow> world \<Rightarrow> ptr \<Rightarrow> bool" where
  "anchored K w a \<longleftrightarrow> (\<exists>s sv nm. w_servers w s = Some sv \<and> sv_connections sv nm = Some a) \<or>
     (\<exists>f. ends f = Some a \<and> (f \<in> K \<or> (\<exists>lp. f \<in> set (pend w lp))))"

definition owned :: "Functor set \<Rightarrow> world \<Rightarrow> ptr \<Rightarrow> bool" where
  "owned H w a \<longleftrightarrow> (\<exists>s sv nm. w_servers w s = Some sv \<and> sv_connections sv nm = Some a) \<or>
     (\<exists>f. owns f = Some a \<and> (f \<in> H \<or> (\<exists>lp. f \<in> set (pend w lp))))"

definition table_ok :: "world \<Rightarrow> ptr \<Rightarrow> tcp_server \<Rightarrow> bool" where
  "table_ok w s sv \<longleftrightarrow> (\<forall>nm a. sv_connections sv nm = Some a \<longrightarrow>
     (\<exists>c. w_conns w a = Some c \<and> tc_name c = nm \<and> tc_closeCallback c = Some s))"

definition ids_ok :: "world \<Rightarrow> ptr \<Rightarrow> tcp_server \<Rightarrow> bool" where
  "ids_ok w s sv \<longleftrightarrow> (\<exists>addr. sv_ipPort sv = toIpPort addr) \<and> 1 \<le> sv_nextConnId sv \<and> sv_nextConnId sv < 2 ^ 31 \<and>
     (\<forall>a c. w_conns w a = Some c \<longrightarrow> tc_closeCallback c = Some s \<longrightarrow>
        (\<exists>k. 1 \<le> k \<and> k < sv_nextConnId sv \<and> tc_name c = sv_name sv @ id_suffix sv k))"

definition names_differ :: "world \<Rightarrow> ptr \<Rightarrow> bool" where
  "names_differ w s \<longleftrightarrow> (\<forall>a b c d. w_conns w a = Some c \<longrightarrow> w_conns w b = Some d \<longrightarrow>
     tc_closeCallback c = Some s \<longrightarrow> tc_closeCallback d = Some s \<longrightarrow> tc_name c = tc_name d \<longrightarrow> a = b)"

text \<open>The connections of \<open>E\<close> are in the middle of being closed.\<close>

definition own_ok :: "ptr set \<Rightarrow> Functor set \<Rightarrow> Functor set \<Rightarrow> world \<Rightarrow> bool" where
  "own_ok E K H w \<longleftrightarrow>
     (\<forall>s sv. w_servers w s = Some sv \<longrightarrow> table_ok w s sv \<and> ids_ok w s sv \<and> names_differ w s) \<and>
     (\<forall>f. f \<in> H \<or> (\<exists>lp. f \<in> set (pend w lp)) \<longrightarrow> functor_ok w f) \<and>
     (\<forall>a c. w_conns w a = Some c \<longrightarrow> a \<notin> E \<longrightarrow> tc_state c = kDisconnected \<longrightarrow> \<not> anchored K w a \<longrightarrow>
        index_at (tc_channel c) w = Some kNew)"

lemma own_okD:
  assumes "own_ok E K H w"
  shows "w_servers w s = Some sv \<Longrightarrow> table_ok w s sv" "w_servers w s = Some sv \<Longrightarrow> ids_ok w s sv"
    "w_servers w s = Some sv \<Longrightarrow> names_differ w s"
    "f \<in> H \<Longrightarrow> functor_ok w f" "f \<in> set (pend w lp) \<Longrightarrow> functor_ok w f"
    "w_conns w a = Some c \<Longrightarrow> a \<notin> E \<Longrightarrow> tc_state c = kDisconnected \<Longrightarrow> \<not> anchored K w a \<Longrightarrow>
       index_at (tc_channel c) w = Some kNew"
  using assms unfolding own_ok_def by blast+

lemma own_ok_mono: "own_ok E K H w \<Longrightarrow> E \<subseteq> E' \<Longrightarrow> H' \<subseteq> H \<Longrightarrow> own_ok E' K H' w"
  unfolding own_ok_def by blast

text \<open>A functor that has been taken out of \<open>K\<close> leaves its connection without an anchor.\<close>

lemma own_ok_drop:
  assumes "own_ok E K H w" "K \<subseteq> insert f K'"
  shows "own_ok (E \<union> {a. ends f = Some a}) K' H w"
proof -
  have "anchored K' w a \<or> ends f = Some a" if "anchored K w a" for a
    using that assms(2) unfolding anchored_def by blast
  then show ?thesis using assms(1) unfolding own_ok_def by blast
qed

text \<open>\<open>calm_but X\<close>: as \<open>calm\<close>, except that the connections of \<open>X\<close> may become disconnected, and their channels move.\<close>

definition calm_but :: "ptr set \<Rightarrow> world \<Rightarrow> world \<Rightarrow> bool" where
  "calm_but X w w' \<longleftrightarrow> cores w' = cores w \<and> dom (w_conns w') = dom (w_conns w) \<and>
     (\<forall>a c c'. w_conns w a = Some c \<longrightarrow> w_conns w' a = Some c' \<longrightarrow>
        (if a \<in> X then tc_name c' = tc_name c \<and> tc_channel c' = tc_channel c \<and> tc_closeCallback c' = tc_closeCallback c
         else calm_conn w w' c c')) \<and>
     (\<forall>lp. \<exists>gs. pend w' lp = pend w lp @ gs \<and> (\<forall>g \<in> set gs. functor_ok w g))"

lemma calm_calm_but: "calm w w' \<Longrightarrow> calm_but X w w'"
  unfolding calm_but_def calm_def calm_conn_def by simp

lemma calm_but_connE:
  assumes "calm_but X w w'" "w_conns w' a = Some c'"
  obtains c where "w_conns w a = Some c" "tc_name c' = tc_name c" "tc_channel c' = tc_channel c"
    "tc_closeCallback c' = tc_closeCallback c" "a \<notin> X \<Longrightarrow> calm_conn w w' c c'"
proof -
  have "a \<in> dom (w_conns w)" using assms unfolding calm_but_def by blast
  then obtain c where c: "w_conns w a = Some c" by blast
  with assms have "if a \<in> X then tc_name c' = tc_name c \<and> tc_channel c' = tc_channel c \<and> tc_closeCallback c' = tc_closeCallback c
         else calm_conn w w' c c'" unfolding calm_but_def by blast
  with c that show thesis by (auto simp: calm_conn_def split: if_splits)
qed

lemma calm_but_callback:
  assumes "calm_but X w w'"
  shows "map_option tc_closeCallback (w_conns w' a) = map_option tc_closeCallback (w_conns w a)"
proof (cases "w_conns w' a")
  case None
  then have "w_conns w a = None" using assms unfolding calm_but_def by blast
  with None show ?thesis by simp
next
  case (Some c')
  from calm_but_connE [OF assms this] show ?thesis using Some by fastforce
qed

lemma functor_ok_calm_but: "calm_but X w w' \<Longrightarrow> functor_ok w' g = functor_ok w g"
  using calm_but_callback [of X w w'] unfolding functor_ok_def by (metis option.map_disc_iff)

lemma cores_Some:
  assumes "cores w' = cores w" "w_servers w' s = Some sv'"
  obtains sv where "w_servers w s = Some sv" "sv_connections sv' = sv_connections sv" "sv_name sv' = sv_name sv"
    "sv_ipPort sv' = sv_ipPort sv" "sv_nextConnId sv' = sv_nextConnId sv"
proof -
  have "cores w s = cores w' s" using assms(1) by simp
  then have "cores w s = Some (sv_core sv')" using assms(2) by (simp add: cores_def)
  with that show thesis by (auto simp: cores_def sv_core_def)
qed

lemma anchored_calm_but:
  assumes calm: "calm_but X w w'" and a: "anchored K w a"
  shows "anchored K w' a"
proof -
  have "\<exists>sv'. w_servers w' s = Some sv' \<and> sv_connections sv' = sv_connections sv" if "w_servers w s = Some sv" for s sv
    using cores_Some [of w w' s sv] calm that unfolding calm_but_def by metis
  moreover have "f \<in> set (pend w' lp)" if "f \<in> set (pend w lp)" for f lp
  proof -
    obtain gs where "pend w' lp = pend w lp @ gs" using calm unfolding calm_but_def by blast
    with that show ?thesis by simp
  qed
  ultimately show ?thesis using a unfolding anchored_def by metis
qed

lemma own_ok_calm_but:
  assumes calm: "calm_but X w w'" and own: "own_ok E K H w"
  shows "own_ok (E \<union> X) K H w'"
  unfolding own_ok_def
proof (intro conjI allI impI)
  fix s sv' assume "w_servers w' s = Some sv'"
  moreover have "cores w' = cores w" using calm unfolding calm_but_def by blast
  ultimately obtain sv where sv: "w_servers w s = Some sv" and eq: "sv_connections sv' = sv_connections sv"
      "sv_name sv' = sv_name sv" "sv_ipPort sv' = sv_ipPort sv" "sv_nextConnId sv' = sv_nextConnId sv"
    using cores_Some by blast
  note o = own_okD(1-3) [OF own sv]
  have suf: "id_suffix sv' k = id_suffix sv k" for k by (simp add: id_suffix_def eq)
  show "table_ok w' s sv'"
    unfolding table_ok_def eq
  proof (intro allI impI)
    fix nm a assume "sv_connections sv nm = Some a"
    then obtain c where c: "w_conns w a = Some c" "tc_name c = nm" "tc_closeCallback c = Some s"
      using o(1) unfolding table_ok_def by blast
    then have "a \<in> dom (w_conns w')" using calm unfolding calm_but_def by blast
    then obtain c' where c': "w_conns w' a = Some c'" by blast
    from calm_but_connE [OF calm c'] show "\<exists>c. w_conns w' a = Some c \<and> tc_name c = nm \<and> tc_closeCallback c = Some s"
      using c c' by auto
  qed
  show "ids_ok w' s sv'"
    unfolding ids_ok_def eq suf
  proof (intro conjI allI impI)
    fix a c' assume c': "w_conns w' a = Some c'" "tc_closeCallback c' = Some s"
    from calm_but_connE [OF calm c'(1)] obtain c where
      "w_conns w a = Some c" "tc_name c' = tc_name c" "tc_closeCallback c' = tc_closeCallback c" .
    with c'(2) o(2) show "\<exists>k\<ge>1. k < sv_nextConnId sv \<and> tc_name c' = sv_name sv @ id_suffix sv k"
      unfolding ids_ok_def by auto
  qed (use o(2) in \<open>auto simp: ids_ok_def\<close>)
  show "names_differ w' s"
    unfolding names_differ_def
  proof (intro allI impI)
    fix a b c' d' assume *: "w_conns w' a = Some c'" "w_conns w' b = Some d'"
      "tc_closeCallback c' = Some s" "tc_closeCallback d' = Some s" "tc_name c' = tc_name d'"
    from calm_but_connE [OF calm *(1)] obtain c where
      "w_conns w a = Some c" "tc_name c' = tc_name c" "tc_closeCallback c' = tc_closeCallback c" .
    moreover from calm_but_connE [OF calm *(2)] obtain d where
      "w_conns w b = Some d" "tc_name d' = tc_name d" "tc_closeCallback d' = tc_closeCallback d" .
    ultimately show "a = b" using o(3) * unfolding names_differ_def by metis
  qed
next
  fix f assume "f \<in> H \<or> (\<exists>lp. f \<in> set (pend w' lp))"
  then consider "f \<in> H" | lp where "f \<in> set (pend w' lp)" by blast
  then have "functor_ok w f"
  proof cases
    case (2 lp)
    obtain gs where "pend w' lp = pend w lp @ gs" "\<forall>g \<in> set gs. functor_ok w g"
      using calm unfolding calm_but_def by blast
    with 2 show ?thesis using own_okD(5) [OF own] by auto
  qed (rule own_okD(4) [OF own])
  then show "functor_ok w' f" by (simp add: functor_ok_calm_but [OF calm])
next
  fix a c' assume *: "w_conns w' a = Some c'" "a \<notin> E \<union> X" "tc_state c' = kDisconnected" "\<not> anchored K w' a"
  from calm_but_connE [OF calm *(1)] obtain c where c: "w_conns w a = Some c" "a \<notin> X \<Longrightarrow> calm_conn w w' c c'" by blast
  then have k: "calm_conn w w' c c'" using *(2) by simp
  have "\<not> anchored K w a" using *(4) anchored_calm_but [OF calm] by blast
  then have "index_at (tc_channel c) w = Some kNew"
    using own_okD(6) [OF own c(1)] *(2,3) k by (simp add: calm_conn_def)
  then show "index_at (tc_channel c') w' = Some kNew" using k *(3) by (simp add: calm_conn_def)
qed

lemma own_ok_calm: "calm w w' \<Longrightarrow> own_ok E K H w \<Longrightarrow> own_ok E K H w'"
  using own_ok_calm_but [OF calm_calm_but, of w w' E K H "{}"] by simp

subsection \<open>Closing a connection\<close>

lemma functor_ok_cong: "w_conns w' = w_conns w \<Longrightarrow> functor_ok w' f = functor_ok w f"
  by (simp add: functor_ok_def)

text \<open>Erasing an entry of a server's table: its connection loses this anchor.\<close>

lemma own_ok_erase:
  assumes own: "own_ok E K H w" and sv: "w_servers w s = Some sv" and a: "\<And>b. sv_connections sv nm = Some b \<Longrightarrow> b = a"
  shows "own_ok (insert a E) K H (put_server s (sv\<lparr>sv_connections := (sv_connections sv)(nm := None)\<rparr>) w)"
proof -
  let ?sv = "sv\<lparr>sv_connections := (sv_connections sv)(nm := None)\<rparr>" and ?w = "put_server s (sv\<lparr>sv_connections := (sv_connections sv)(nm := None)\<rparr>) w"
  have pend: "pend ?w lp = pend w lp" for lp by (simp add: pend_def)
  have anch: "anchored K ?w b" if "anchored K w b" "b \<noteq> a" for b
  proof -
    have "\<exists>svt'. w_servers ?w t = Some svt' \<and> sv_connections svt' n = Some b"
      if "w_servers w t = Some svt" "sv_connections svt n = Some b" for t svt n
      using that sv a \<open>b \<noteq> a\<close> by auto
    with \<open>anchored K w b\<close> show ?thesis unfolding anchored_def pend by blast
  qed
  have "table_ok ?w t svt \<and> ids_ok ?w t svt \<and> names_differ ?w t" if t: "w_servers ?w t = Some svt" for t svt
  proof (cases "t = s")
    case True
    then have svt: "svt = ?sv" using t by simp
    have "id_suffix ?sv k = id_suffix sv k" for k by (simp add: id_suffix_def)
    then show ?thesis using own_okD(1-3) [OF own sv] True
      unfolding svt table_ok_def ids_ok_def names_differ_def by simp
  next
    case False
    then show ?thesis using own_okD(1-3) [OF own, of t svt] t
      unfolding table_ok_def ids_ok_def names_differ_def by simp
  qed
  moreover have "functor_ok ?w f" if "f \<in> H \<or> (\<exists>lp. f \<in> set (pend ?w lp))" for f
    using that own_okD(4,5) [OF own] functor_ok_cong [of ?w w f] unfolding pend by auto
  moreover have "index_at (tc_channel d) ?w = Some kNew"
    if "w_conns ?w b = Some d" "b \<notin> insert a E" "tc_state d = kDisconnected" "\<not> anchored K ?w b" for b d
    using that anch own_okD(6) [OF own, of b d] by (simp add: index_at_def) blast
  ultimately show ?thesis unfolding own_ok_def by blast
qed

lemma own_ok_queue:
  assumes "own_ok E K H w" "queue_call sys tid lp f w = Inr w'" "functor_ok w f"
  shows "own_ok (E - {a. ends f = Some a}) K H w'"
proof -
  have own: "own_ok E K H w'" by (rule own_ok_calm [OF calm_queue_call [OF assms(2,3)] assms(1)])
  obtain l where "w_loops w lp = Some l" "w' = upd_loop lp (queueInLoop sys tid f) w"
    using assms(2) by (auto simp: queue_call_def bindE_eq_Inr the_simps)
  then have "f \<in> set (pend w' lp)" by (simp add: upd_loop_def loop_at_def)
  then have "anchored K w' a" if "ends f = Some a" for a using that unfolding anchored_def by blast
  then show ?thesis using own unfolding own_ok_def by blast
qed

lemma own_ok_removeConnectionInLoop:
  assumes own: "own_ok E K H w" and c: "w_conns w a = Some c" "tc_closeCallback c = Some s"
    and run: "removeConnectionInLoop sys tid s a w = Inr w'"
  shows "own_ok (E - {a}) K H w'"
proof -
  obtain sv where sv: "w_servers w s = Some sv"
    and q: "queue_call sys tid (tc_loop c) (ConnectDestroyed a)
       (put_server s (sv\<lparr>sv_connections := (sv_connections sv)(tc_name c := None)\<rparr>) w) = Inr w'"
    using run c(1) unfolding removeConnectionInLoop_def bindE_eq_Inr the_simps by auto
  have "b = a" if entry: "sv_connections sv (tc_name c) = Some b" for b
  proof -
    obtain d where "w_conns w b = Some d" "tc_name d = tc_name c" "tc_closeCallback d = Some s"
      using own_okD(1) [OF own sv] entry unfolding table_ok_def by blast
    then show ?thesis using own_okD(3) [OF own sv] c unfolding names_differ_def by metis
  qed
  from own_ok_erase [OF own sv this] have "own_ok (insert a E) K H
      (put_server s (sv\<lparr>sv_connections := (sv_connections sv)(tc_name c := None)\<rparr>) w)" .
  from own_ok_queue [OF this q] c(1) show ?thesis by (simp add: insert_compr [symmetric] eq_commute)
qed

lemma own_ok_closeCallback:
  assumes own: "own_ok E K H w" and run: "call_closeCallback sys tid a w = Inr w'"
  shows "own_ok (E - {a}) K H w'"
proof -
  obtain c s where c: "w_conns w a = Some c" "tc_closeCallback c = Some s"
    using run by (auto simp: call_closeCallback_def bindE_eq_Inr the_simps split: option.splits)
  then have "removeConnection sys tid s a w = Inr w'" using run by (simp add: call_closeCallback_def the_conn_def)
  then obtain sv :: tcp_server where call: "run_call sys tid (sv_loop sv) (\<lambda>_. removeConnectionInLoop sys tid s a)
       (RemoveConnectionInLoop s a) w = Inr w'"
    unfolding removeConnection_def bindE_eq_Inr by blast
  from call show ?thesis
  proof (rule run_callE)
    assume "removeConnectionInLoop sys tid s a w = Inr w'"
    then show ?thesis by (rule own_ok_removeConnectionInLoop [OF own c])
  next
    assume "queue_call sys tid (sv_loop sv) (RemoveConnectionInLoop s a) w = Inr w'"
    from own_ok_queue [OF own this] c show ?thesis by (simp add: insert_compr [symmetric])
  qed
qed

text \<open>Disabling and removing a channel, as far as other connections see it.\<close>

lemma calm_but_install:
  assumes ok: "world_ok w" and at: "attached a c ch l w"
    and c: "tc_name c' = tc_name c" "tc_channel c' = tc_channel c" "tc_loop c' = tc_loop c"
      "tc_closeCallback c' = tc_closeCallback c"
    and l: "el_pendingFunctors l' = el_pendingFunctors l"
  shows "calm_but {a} w (install a c' ch' l' w)"
proof -
  have a: "w_conns w a = Some c" using at by (simp add: attached_def)
  have "calm_conn w (install a c' ch' l' w) d d" if "w_conns w b = Some d" "b \<noteq> a" for b d
    using that solo [OF ok a, of b d] c by (auto simp: calm_conn_def index_at_def)
  then show ?thesis using at c l by (auto simp: calm_but_def cores_def pend_def attached_def split: if_splits)
qed

context kernel
begin

lemma calm_but_disconnect:
  assumes ok: "world_ok w" and c: "w_conns w a = Some c"
    and run: "chan_call sys DisableAll (tc_channel c) (put_conn a (setState kDisconnected c) w) = Inr w'"
  shows "calm_but {a} w w'"
proof -
  obtain ch l where at: "attached a c ch l w"
    and w': "w' = install a (setState kDisconnected c) (chan_after DisableAll ch)
        (l\<lparr>el_poller := place (chan_after DisableAll ch) (el_poller l)\<rparr>) w"
    using keeps_disconnect [OF ok c run] by blast
  show ?thesis unfolding w' by (rule calm_but_install [OF ok at]) (simp_all add: setState_def)
qed

lemma own_ok_handleClose:
  assumes env: "e_sys env = sys" and ok: "world_ok w" and own: "own_ok E K H w" and run: "handleClose env a w = Inr w'"
  shows "own_ok E K H w'"
proof -
  from run obtain c w1 w2 where c: "w_conns w a = Some c"
      and w1: "chan_call sys DisableAll (tc_channel c) (put_conn a (setState kDisconnected c) w) = Inr w1"
      and w2: "call_connectionCallback env a w1 = Inr w2"
      and rest: "call_closeCallback sys (e_tid env) a w2 = Inr w'"
    unfolding handleClose_def bindE_eq_Inr the_simps env by blast
  have "own_ok (E \<union> {a}) K H w1" by (rule own_ok_calm_but [OF calm_but_disconnect [OF ok c w1] own])
  moreover have "world_ok w1" using keeps_disconnect [OF ok c w1] by blast
  ultimately have "own_ok (E \<union> {a}) K H w2"
    using own_ok_calm [OF gentleD [OF gentle_call_connectionCallback [OF env] _ w2]] by blast
  from own_ok_closeCallback [OF this rest] show ?thesis by (rule own_ok_mono) auto
qed

text \<open>Removing the channel from its poller ends what the connection owes.\<close>

lemma remove_channel:
  assumes ok: "world_ok w" and c: "w_conns w a = Some c" and run: "chan_call sys Remove (tc_channel c) w = Inr w'"
  shows "calm_but {a} w w' \<and> index_at (tc_channel c) w' = Some kNew"
proof -
  from attachedE [OF ok c] obtain ch l where at: "attached a c ch l w" and f: "ch_loop ch = tc_loop c"
      "chan_inv ch (el_poller l)" by blast
  have legal: "chan_legal Remove ch"
  proof (rule ccontr)
    assume "\<not> chan_legal Remove ch"
    then have "chan_do sys Remove ch (el_poller l) = Inl (AssertFail ''removeChannel'')"
      by (auto simp: chan_legal_def chan_do_remove removeChannel_new)
    then show False using run at f(1) by (simp add: chan_call_def attached_def the_chan_def the_loop_def)
  qed
  have "w' = install a c (chan_after Remove ch) (l\<lparr>el_poller := place (chan_after Remove ch) (el_poller l)\<rparr>) w"
    using install_chan_call [OF f(1) chan_inv_slot [OF f(2)] legal, of a w] run attached_install [OF at] by simp
  moreover have "ch_index (chan_after Remove ch) = kNew" by (simp add: chan_after_def)
  ultimately show ?thesis using calm_but_install [OF ok at, of c] by (simp add: index_at_def)
qed

lemma own_ok_connectDestroyed:
  assumes env: "e_sys env = sys" and ok: "world_ok w" and own: "own_ok (insert a E) K H w"
    and run: "connectDestroyed env a w = Inr w'"
  shows "own_ok E K H w'"
proof -
  from run obtain c w1 where c: "w_conns w a = Some c"
      and w1: "(if tc_state c = kConnected
        then bindE (chan_call sys DisableAll (tc_channel c) (put_conn a (setState kDisconnected c) w))
               (call_connectionCallback env a)
        else Inr w) = Inr w1"
      and w2: "chan_call sys Remove (tc_channel c) w1 = Inr w'"
    unfolding connectDestroyed_def bindE_eq_Inr the_simps env by blast
  have k1: "world_ok w1 \<and> world_le w w1 \<and> own_ok (insert a E) K H w1"
  proof (cases "tc_state c = kConnected")
    case True
    then obtain w0 where w0: "chan_call sys DisableAll (tc_channel c) (put_conn a (setState kDisconnected c) w) = Inr w0"
        "call_connectionCallback env a w0 = Inr w1"
      using w1 by (auto simp: bindE_eq_Inr)
    have "own_ok (insert a E \<union> {a}) K H w0"
      by (rule own_ok_calm_but [OF calm_but_disconnect [OF ok c w0(1)] own])
    moreover have k0: "world_ok w0 \<and> world_le w w0" using keeps_disconnect [OF ok c w0(1)] by blast
    moreover have t: "tame w0 w1 \<and> world_ok w1"
      using keepsD [OF gentle_call_connectionCallback [OF env] _ w0(2)] k0 by blast
    ultimately show ?thesis using own_ok_calm [of w0 w1 "insert a E \<union> {a}" K H] world_le_trans by (auto simp: tame_def)
  next
    case False
    then show ?thesis using w1 ok own by simp
  qed
  obtain c1 where c1: "w_conns w1 a = Some c1" "conn_le c c1" using k1 c world_le_conn by blast
  then have ch: "tc_channel c1 = tc_channel c" by (simp add: conn_le_def)
  have r: "calm_but {a} w1 w'" "index_at (tc_channel c) w' = Some kNew"
    using remove_channel [OF _ c1(1), of w'] k1 w2 ch by simp_all
  have own': "own_ok (insert a E \<union> {a}) K H w'" by (rule own_ok_calm_but [OF r(1)]) (use k1 in blast)
  have "tc_channel c' = tc_channel c" if "w_conns w' a = Some c'" for c'
    using calm_but_connE [OF r(1) that] c1(1) ch by fastforce
  then have "index_at (tc_channel d) w' = Some kNew" if "w_conns w' b = Some d" "b \<notin> E" "tc_state d = kDisconnected"
      "\<not> anchored K w' b" for b d
    using that own_okD(6) [OF own', of b d] r(2) by (cases "b = a") simp_all
  then show ?thesis using own' unfolding own_ok_def by blast
qed

end

subsection \<open>Accepting a connection\<close>

lemma own_ok_joined:
  assumes ok: "world_ok w" and own: "own_ok {} K H w" and new: "w_conns w (fst (e_new env)) = None"
      "w_chans w (snd (e_new env)) = None"
    and j: "joined env fd s w w2"
  shows "own_ok {} K H w2"
proof -
  let ?a = "fst (e_new env)" and ?x = "snd (e_new env)"
  obtain sv sv' c ch where sv: "w_servers w s = Some sv" and lim: "sv_nextConnId sv < 2 ^ 31 - 1"
    and sel: "w_conns w2 = (w_conns w)(?a \<mapsto> c)" "w_chans w2 = (w_chans w)(?x \<mapsto> ch)"
     "w_servers w2 = (w_servers w)(s \<mapsto> sv')" "w_loops w2 = w_loops w"
    and sv': "sv_connections sv' = (sv_connections sv)(connection_name sv \<mapsto> ?a)"
     "sv_nextConnId sv' = sv_nextConnId sv + 1" "sv_name sv' = sv_name sv" "sv_ipPort sv' = sv_ipPort sv"
    and c: "tc_name c = connection_name sv" "tc_channel c = ?x" "tc_closeCallback c = Some s" "tc_state c = kConnecting"
    using j unfolding joined_def by blast
  have ids: "ids_ok w s sv" by (rule own_okD(2) [OF own sv])
  then obtain addr where addr: "sv_ipPort sv = toIpPort addr" and range: "1 \<le> sv_nextConnId sv" "sv_nextConnId sv < 2 ^ 31"
    unfolding ids_ok_def by blast
  have suf: "id_suffix sv' k = id_suffix sv k" for k by (simp add: id_suffix_def sv')
  have nm: "connection_name sv = sv_name sv @ id_suffix sv (sv_nextConnId sv)"
    using id_suffix_fits [OF addr, of "sv_nextConnId sv"] range by (simp add: connection_name_def id_suffix_def)
  have old_name: "tc_name d \<noteq> connection_name sv" if "w_conns w b = Some d" "tc_closeCallback d = Some s" for b d
    using ids that unfolding ids_ok_def nm by (fastforce simp: id_suffix_inj)
  have pend: "pend w2 lp = pend w lp" for lp by (simp add: pend_def sel)
  have fresh: "sv_connections sv (connection_name sv) = None"
    using own_okD(1) [OF own sv] old_name unfolding table_ok_def by (metis not_Some_eq)
  have anch: "anchored K w2 b" if "anchored K w b" for b
  proof -
    have "\<exists>svt'. w_servers w2 t = Some svt' \<and> sv_connections svt' n = Some b"
      if "w_servers w t = Some svt" "sv_connections svt n = Some b" for t svt n
      using that sv fresh by (cases "t = s") (auto simp: sel sv')
    with \<open>anchored K w b\<close> show ?thesis unfolding anchored_def pend by blast
  qed
  have "table_ok w2 t svt \<and> ids_ok w2 t svt \<and> names_differ w2 t" if t: "w_servers w2 t = Some svt" for t svt
  proof (cases "t = s")
    case True
    then have svt: "svt = sv'" using t by (simp add: sel)
    have "table_ok w2 s sv'"
      using own_okD(1) [OF own sv] new(1) c unfolding table_ok_def sel sv' by (fastforce split: if_splits)
    moreover have "\<exists>k\<ge>1. k < sv_nextConnId sv + 1 \<and> tc_name d = sv_name sv @ id_suffix sv k"
      if d: "w_conns w2 b = Some d" "tc_closeCallback d = Some s" for b d
    proof (cases "b = ?a")
      case True
      then show ?thesis using d c(1) range nm by (intro exI [of _ "sv_nextConnId sv"]) (simp add: sel)
    next
      case False
      then obtain k where "1 \<le> k" "k < sv_nextConnId sv" "tc_name d = sv_name sv @ id_suffix sv k"
        using d ids unfolding ids_ok_def by (auto simp: sel)
      then show ?thesis by (intro exI [of _ k]) simp
    qed
    then have "ids_ok w2 s sv'" unfolding ids_ok_def sv' suf using addr lim range by auto
    moreover have "names_differ w2 s"
      using own_okD(3) [OF own sv] old_name c(1) unfolding names_differ_def sel
      by (auto split: if_splits) (metis+)
    ultimately show ?thesis using True svt by simp
  next
    case False
    then have t': "w_servers w t = Some svt" using t by (simp add: sel)
    note o = own_okD(1-3) [OF own t']
    have "table_ok w2 t svt" using o(1) new(1) unfolding table_ok_def sel by (fastforce split: if_splits)
    moreover have "ids_ok w2 t svt" using o(2) c(3) False unfolding ids_ok_def sel by (auto split: if_splits)
    moreover have "names_differ w2 t" using o(3) c(3) False unfolding names_differ_def sel by (auto split: if_splits)
    ultimately show ?thesis by blast
  qed
  moreover have "functor_ok w2 f" if "f \<in> H \<or> (\<exists>lp. f \<in> set (pend w2 lp))" for f
  proof -
    have "functor_ok w f" using that own_okD(4,5) [OF own] unfolding pend by blast
    then show ?thesis using new(1) by (auto simp: functor_ok_def sel)
  qed
  moreover have "index_at (tc_channel d) w2 = Some kNew"
    if d: "w_conns w2 b = Some d" "tc_state d = kDisconnected" "\<not> anchored K w2 b" for b d
  proof -
    have b: "b \<noteq> ?a" using d c(4) by (auto simp: sel)
    then have d': "w_conns w b = Some d" using d(1) by (simp add: sel)
    have "w_chans w (tc_channel d) \<noteq> None" using world_okD(3) [OF ok d'] by (auto simp: conn_ok_def)
    then have "index_at (tc_channel d) w2 = index_at (tc_channel d) w" using new(2) by (auto simp: index_at_def sel)
    then show ?thesis using own_okD(6) [OF own d'] d(2,3) anch by auto
  qed
  ultimately show ?thesis unfolding own_ok_def by blast
qed

lemma objects_ok_joined:
  assumes obj: "objects_ok w" and new: "w_conns w (fst (e_new env)) = None" "w_chans w (snd (e_new env)) = None"
    and j: "joined env fd s w w2"
  shows "objects_ok w2"
proof -
  let ?a = "fst (e_new env)" and ?x = "snd (e_new env)"
  obtain sv sv' c ch where sv: "w_servers w s = Some sv"
    and sel: "w_conns w2 = (w_conns w)(?a \<mapsto> c)" "w_chans w2 = (w_chans w)(?x \<mapsto> ch)"
     "w_servers w2 = (w_servers w)(s \<mapsto> sv')" "w_loops w2 = w_loops w" "w_acceptors w2 = w_acceptors w"
    and sv': "sv_acceptor sv' = sv_acceptor sv" "sv_loop sv' = sv_loop sv"
    and c: "tc_channel c = ?x" "conn_handlers ?a ch" "callable c"
    and pool: "getNextLoop (sv_threadPool sv) = Inr (tc_loop c, sv_threadPool sv')"
    using j unfolding joined_def callable_def by blast
  have b: "leads cb y w2" if "leads cb y w" for cb y
    using that new(1) by (cases cb) (auto simp: sel)
  have 1: "leads cb y w2" if "w_chans w2 y = Some d" "cb \<in> callbacks d" for y d cb
  proof (cases "y = ?x")
    case True
    then have "cb \<in> callbacks ch" using that by (simp add: sel)
    then have "cb \<in> {TcpConnection_handleRead ?a, TcpConnection_handleWrite ?a, TcpConnection_handleClose ?a,
        TcpConnection_handleError ?a}"
      using c(2) by (auto simp: callbacks_def conn_handlers_def)
    then show ?thesis using True c(1) by (auto simp: sel)
  next
    case False
    then show ?thesis using b objects_okD(1) [OF obj] that by (simp add: sel)
  qed
  have 2: "\<exists>d'. w_chans w2 (tc_channel d) = Some d' \<and> conn_handlers e d'" if "w_conns w2 e = Some d" for e d
    using that objects_okD(2) [OF obj, of e d] c new(2) by (cases "e = ?a") (auto simp: sel)
  have 3: "(\<exists>d. w_chans w2 (ac_channel ac) = Some d \<and> readCallback d = Some (Acceptor_handleRead p)) \<and>
      (\<exists>t svt. newConnectionCallback ac = Some t \<and> w_servers w2 t = Some svt \<and> sv_acceptor svt = p)"
    if "w_acceptors w2 p = Some ac" for p ac
    using that objects_okD(3,4) [OF obj, of p ac] new(2) sv sv' by (fastforce simp: sel)
  have 4: "w_loops w2 (sv_loop svt) \<noteq> None \<and>
      (\<exists>ac. w_acceptors w2 (sv_acceptor svt) = Some ac \<and> newConnectionCallback ac = Some t)"
    if "w_servers w2 t = Some svt" for t svt
    using that objects_okD(5,6) [OF obj] sv sv' by (cases "t = s") (auto simp: sel)
  have 5: "callable d" if "w_conns w2 e = Some d" for e d
    using that objects_okD(7) [OF obj] c(3) by (auto simp: sel split: if_splits)
  have "server_fit sv'"
    using objects_okD(8) [OF obj sv] getNextLoop_fit [of "sv_threadPool sv"] pool sv'(2) by (fastforce simp: server_fit_def)
  then have 6: "server_fit svt" if "w_servers w2 t = Some svt" for t svt
    using that objects_okD(8) [OF obj] by (auto simp: sel split: if_splits)
  show ?thesis unfolding objects_ok_def using 1 2 3 4 5 6 by blast
qed

subsection \<open>Everything together\<close>

definition fine :: "Functor set \<Rightarrow> Functor set \<Rightarrow> world \<Rightarrow> bool" where
  "fine K H w \<longleftrightarrow> world_ok w \<and> objects_ok w \<and> own_ok {} K H w"

interpretation wf: contract "fine K H" world_le for K H
  by unfold_locales (auto intro: world_le_trans)

lemma fine_calm:
  assumes "fine K H w" "world_ok w'" "world_le w w'" "calm w w'"
  shows "fine K H w'"
  using assms objects_ok_keeps [OF assms(3) calm_fixed [OF assms(4)]] own_ok_calm [OF assms(4)] by (simp add: fine_def)

lemma fine_gentle: "gentle f \<Longrightarrow> keeps (fine K H) world_le f"
  using fine_calm unfolding keeps_def tame_def fine_def by blast

lemma fineI:
  assumes "safe f" "stable f" "\<And>w w'. world_ok w \<Longrightarrow> own_ok {} K H w \<Longrightarrow> f w = Inr w' \<Longrightarrow> own_ok {} K H w'"
  shows "keeps (fine K H) world_le f"
proof (rule keepsI)
  fix w w' assume w: "fine K H w" and run: "f w = Inr w'"
  then have "world_ok w' \<and> world_le w w'" using keepsD [OF assms(1) _ run] by (simp add: fine_def)
  moreover have "objects_ok w'"
    using objects_ok_keeps [OF _ stableD [OF assms(2) run]] calculation w by (simp add: fine_def)
  moreover have "own_ok {} K H w'" using assms(3) [OF _ _ run] w by (simp add: fine_def)
  ultimately show "fine K H w' \<and> world_le w w'" by (simp add: fine_def)
qed

context kernel
begin

lemma fine_handleClose: "e_sys env = sys \<Longrightarrow> keeps (fine K H) world_le (handleClose env a)"
  by (rule fineI [OF safe_handleClose stable_handleClose]) (use own_ok_handleClose in blast)+

lemma fine_handleRead:
  assumes env: "e_sys env = sys"
  shows "keeps (fine K H) world_le (handleRead env t a)"
proof (rule keepsI)
  fix w w' assume w: "fine K H w" and run: "handleRead env t a w = Inr w'"
  then obtain c n e b and ch :: "callback channel" where c: "w_conns w a = Some c"
      and rd: "readFd sys (ch_fd ch) (inputBuffer c) = Inr (n, e, b)"
      and rest: "(if n > 0 then call_messageCallback env a t (put_conn a (c\<lparr>inputBuffer := b\<rparr>) w)
        else if n = 0 then handleClose env a (put_conn a (c\<lparr>inputBuffer := b\<rparr>) w)
        else handleError a (put_conn a (c\<lparr>inputBuffer := b\<rparr>) w)) = Inr w'"
    by (auto simp: handleRead_def bindE_eq_Inr the_simps Let_def env)
  let ?w1 = "put_conn a (c\<lparr>inputBuffer := b\<rparr>) w"
  have ok: "world_ok w" using w by (simp add: fine_def)
  have b: "buffer_inv b"
    using rd by (cases rule: readFd_result [OF posix_io_axioms, of "inputBuffer c" "ch_fd ch"])
      (use conn_inv [OF ok c] in auto)
  have k: "world_ok ?w1 \<and> world_le w ?w1" by (rule keeps_put_conn [OF ok c]) (use b in simp_all)
  have "calm w ?w1" by (rule calm_put_conn [OF c]) simp_all
  with k have f1: "fine K H ?w1" using fine_calm [OF w] by blast
  have g: "fine K H w' \<and> world_le w w'" if "keeps (fine K H) world_le g" "g ?w1 = Inr w'" for g
    using wf.keeps_chain [OF f1 _ that] k by blast
  show "fine K H w' \<and> world_le w w'"
  proof (cases "n > 0")
    case True
    then show ?thesis using g [OF fine_gentle [OF gentle_call_messageCallback [OF env]]] rest by simp
  next
    case False
    have "gentle (handleError a)" by (rule gentleI [OF safe_handleError calm_handleError])
    then show ?thesis
      using g [OF fine_handleClose [OF env]] g [OF fine_gentle] rest False by (cases "n = 0") auto
  qed
qed

text \<open>Every callback but the acceptor's.\<close>

lemma fine_run_callback:
  assumes env: "e_sys env = sys" and cb: "\<forall>a. cb \<noteq> Acceptor_handleRead a"
  shows "keeps (fine K H) world_le (run_callback env t cb)"
proof (cases cb)
  case (EventLoop_handleRead lp)
  have "safe (run_callback env t (EventLoop_handleRead lp))" by (rule safe_run_callback [OF env]) simp
  then show ?thesis unfolding EventLoop_handleRead by (rule fine_gentle [OF gentleI [OF _ calm_wakeup_channel]])
next
  case (TcpConnection_handleError a)
  have "gentle (handleError a)" by (rule gentleI [OF safe_handleError calm_handleError])
  then show ?thesis using fine_gentle TcpConnection_handleError by simp
qed (use cb env in \<open>simp_all add: fine_handleRead fine_gentle gentle_handleWrite fine_handleClose\<close>)

lemma fine_newConnection:
  assumes env: "e_sys env = sys" and w: "fine K H w"
    and new: "w_conns w (fst (e_new env)) = None" "w_chans w (snd (e_new env)) = None"
      "\<forall>y d. w_chans w y = Some d \<longrightarrow> ch_fd d \<noteq> fd"
    and run: "newConnection env s fd peer w = Inr w'"
  shows "fine K H w' \<and> world_le w w'"
proof -
  let ?a = "fst (e_new env)"
  have ok: "world_ok w" and own: "own_ok {} K H w" and obj: "objects_ok w" using w by (simp_all add: fine_def)
  obtain w2 and c :: tcp_connection where j: "joined env fd s w w2" and k: "world_ok w2" "world_le w w2"
    and rest: "run_call sys (e_tid env) (tc_loop c) (\<lambda>_. connectEstablished env ?a) (ConnectEstablished ?a) w2 = Inr w'"
    using newConnection_upto [OF ok new run] env by auto
  have own2: "own_ok {} K H w2" by (rule own_ok_joined [OF ok own new(1,2) j])
  have obj2: "objects_ok w2" by (rule objects_ok_joined [OF obj new(1,2) j])
  have a: "functor_ok w2 (ConnectEstablished ?a)" using j by (auto simp: joined_def)
  have "calm w2 w'"
    by (rule calm_run_call [OF rest a]) (rule gentleD [OF gentle_connectEstablished [OF env] k(1)])
  moreover have "world_ok w' \<and> world_le w2 w'"
    using keepsD [OF safe_run_call_const [OF safe_connectEstablished [OF env]] k(1) rest] .
  ultimately have "fine K H w'" using fine_calm [of K H w2 w'] k own2 obj2 by (simp add: fine_def)
  then show ?thesis using \<open>world_ok w' \<and> world_le w2 w'\<close> k(2) world_le_trans by blast
qed

lemma fine_acceptor_handleRead:
  assumes env: "e_sys env = sys" and w: "fine K H w" and fresh: "fresh_conn env w"
    and run: "acceptor_handleRead env p w = Inr w'"
  shows "fine K H w' \<and> world_le w w'"
  using run fresh
proof (rule acceptor_handleReadE)
  fix s fd peer assume "newConnection env s fd peer w = Inr w'" "w_conns w (fst (e_new env)) = None"
    "w_chans w (snd (e_new env)) = None" "\<forall>x ch. w_chans w x = Some ch \<longrightarrow> ch_fd ch \<noteq> fd"
  then show ?thesis using fine_newConnection [OF env w] by blast
qed (use w in simp)

lemma fine_dispatch:
  assumes "e_sys env = sys" "fine K H w" "fresh_conn env w" "dispatch env t x w = Inr w'"
  shows "fine K H w' \<and> world_le w w'"
  by (rule dispatch_keeps [where J = "fine K H", OF _ _ _ assms(2,4)])
    (use fine_run_callback [OF assms(1)] fine_acceptor_handleRead [OF assms(1-3)] in \<open>simp_all add: fine_def [of K H]\<close>)

text \<open>One functor of a running batch.\<close>

lemma fine_exec:
  assumes env: "e_sys env = sys" and w: "fine K H w" and f: "f \<in> H" and K: "K \<subseteq> insert f K'"
    and run: "exec env ret f w = Inr w'"
  shows "fine K' H w' \<and> world_le w w'"
proof -
  have ok: "world_ok w" and own: "own_ok {} K H w" and obj: "objects_ok w" using w by (simp_all add: fine_def)
  have k: "world_ok w' \<and> world_le w w'" using keepsD [OF safe_exec [OF env] ok run] .
  have drop: "own_ok {a. ends f = Some a} K' H w" using own_ok_drop [OF own K] by simp
  have calm: "fixed w w' \<and> own_ok {} K' H w'" if "calm w w'" "ends f = None"
    using that calm_fixed own_ok_calm [OF that(1)] drop by simp
  have gentle: "fixed w w' \<and> own_ok {} K' H w'" if "gentle g" "g w = Inr w'" "ends f = None" for g
    using calm [OF gentleD [OF that(1) ok that(2)] that(3)] .
  have "fixed w w' \<and> own_ok {} K' H w'"
  proof (cases f)
    case (ConnectDestroyed a)
    then have r: "connectDestroyed env a w = Inr w'" using run by simp
    have "own_ok (insert a {}) K' H w" using drop ConnectDestroyed by (simp add: eq_commute)
    from own_ok_connectDestroyed [OF env ok this r] stableD [OF inert_stable [OF inert_connectDestroyed] r] show ?thesis by blast
  next
    case (RemoveConnectionInLoop s a)
    then have r: "removeConnectionInLoop sys (e_tid env) s a w = Inr w'" using run env by simp
    have "functor_ok w f" by (rule own_okD(4) [OF own f])
    then obtain c where c: "w_conns w a = Some c" "tc_closeCallback c = Some s"
      using RemoveConnectionInLoop by auto
    from own_ok_removeConnectionInLoop [OF drop c r] stableD [OF stable_removeConnectionInLoop r]
    show ?thesis by (simp add: RemoveConnectionInLoop insert_compr [symmetric] eq_commute)
  next
    case (Acceptor_listen p)
    then have r: "acceptor_listen sys ret p w = Inr w'" using run env by simp
    then obtain ac where ac: "w_acceptors w p = Some ac"
      by (auto simp: acceptor_listen_def bindE_eq_Inr the_acceptor_eq)
    from calm_acceptor_listen [OF r ac acceptor_chan_live [OF obj ac]] show ?thesis
      by (rule calm) (simp add: Acceptor_listen)
  next
    case (ConnectEstablished a)
    then show ?thesis using gentle [OF gentle_connectEstablished [OF env]] run by simp
  next
    case (SendInLoop a p len)
    then show ?thesis using calm calm_sendInLoop [OF ok] run env by simp
  next
    case (ShutdownInLoop a)
    then show ?thesis using calm calm_shutdownInLoop run by simp
  qed (use gentle [OF gentle_call_user [OF env]] run in simp_all)
  then show ?thesis using k objects_ok_keeps [of w w'] obj by (simp add: fine_def)
qed

lemma fine_run_user: "keeps (fine K H) world_le (run_user sys tid xs)"
  by (rule fine_gentle [OF gentle_run_user])

end

lemma fine_world_poll: "keeps (fine K H) world_le (world_poll sys lp)"
  by (rule fine_gentle [OF gentle_world_poll])

end
