(* ===== verification/ServerLife.thy ===== *)
theory ServerLife
  imports Lifetime
begin

text \<open>
  The invariant of \<open>Lifetime\<close> when loops, servers and acceptors are made and taken down, and
  when a connection that nobody owns any more is destroyed.
\<close>

subsection \<open>New loops, started servers\<close>

lemma conn_chan_Some: "world_ok w \<Longrightarrow> w_conns w a = Some c \<Longrightarrow> w_chans w (tc_channel c) \<noteq> None"
  using world_okD(3) [of w a c] by (auto simp: conn_ok_def)

lemma calm_but_new_chan:
  assumes ok: "world_ok w" and new: "w_chans w x = None" and sel: "w_conns w' = w_conns w"
      "w_chans w' = (w_chans w)(x \<mapsto> ch)" "cores w' = cores w" "\<And>lp. pend w' lp = pend w lp"
  shows "calm_but {} w w'"
proof -
  have "index_at (tc_channel c) w' = index_at (tc_channel c) w" if "w_conns w a = Some c" for a c
    using conn_chan_Some [OF ok that] new by (auto simp: index_at_def sel)
  then show ?thesis by (auto simp: calm_but_def calm_conn_def sel)
qed

lemma objects_ok_new_chan:
  assumes obj: "objects_ok w" and new: "w_chans w x = None" and sel: "w_conns w' = w_conns w"
      "w_chans w' = (w_chans w)(x \<mapsto> ch)" "w_servers w' = w_servers w" "w_acceptors w' = w_acceptors w"
      "\<And>lp. w_loops w lp \<noteq> None \<Longrightarrow> w_loops w' lp \<noteq> None"
    and ch: "\<And>cb. cb \<in> callbacks ch \<Longrightarrow> leads cb x w'"
  shows "objects_ok w'"
proof -
  have b: "leads cb y w'" if "leads cb y w" for cb y using that sel(5) by (cases cb) (auto simp: sel(1-4))
  have 1: "leads cb y w'" if "w_chans w' y = Some d" "cb \<in> callbacks d" for y d cb
    using that ch b objects_okD(1) [OF obj] by (cases "y = x") (auto simp: sel(1-4))
  have 2: "\<exists>d'. w_chans w' (tc_channel d) = Some d' \<and> conn_handlers e d'" if "w_conns w' e = Some d" for e d
    using that objects_okD(2) [OF obj, of e d] new by (auto simp: sel(1-4))
  have 3: "(\<exists>d. w_chans w' (ac_channel ac) = Some d \<and> readCallback d = Some (Acceptor_handleRead p)) \<and>
      (\<exists>t svt. newConnectionCallback ac = Some t \<and> w_servers w' t = Some svt \<and> sv_acceptor svt = p)"
    if "w_acceptors w' p = Some ac" for p ac
    using that objects_okD(3,4) [OF obj, of p ac] new by (auto simp: sel(1-4))
  have 4: "w_loops w' (sv_loop svt) \<noteq> None \<and>
      (\<exists>ac. w_acceptors w' (sv_acceptor svt) = Some ac \<and> newConnectionCallback ac = Some t)"
    if "w_servers w' t = Some svt" for t svt
    using that objects_okD(5,6) [OF obj, of t svt] sel(5) by (simp add: sel(1-4))
  show ?thesis unfolding objects_ok_def using 1 2 3 4 objects_okD(7,8) [OF obj] unfolding sel(1,3) by blast
qed

lemma fine_put_server:
  assumes w: "fine K H w" and sv: "w_servers w s = Some sv" and same: "sv_core sv' = sv_core sv"
    "sv_acceptor sv' = sv_acceptor sv" "sv_loop sv' = sv_loop sv" "server_fit sv' = server_fit sv"
  shows "fine K H (put_server s sv' w) \<and> world_le w (put_server s sv' w)"
  using fine_calm [OF w _ _ calm_put_server [OF sv same]] keeps_put_server w by (simp add: fine_def [of K H w])

context kernel
begin

lemma fine_new_loop:
  assumes w: "fine K H w" and new: "w_loops w lp = None" "w_chans w x = None"
    and e: "EventLoop_ctor sys up epfd evfd other tid lp x = Inr (l, ch)"
  shows "fine K H (put_loop lp l (put_chan x ch w))"
proof -
  let ?w' = "put_loop lp l (put_chan x ch w)"
  note ctor = EventLoop_ctor_ok [OF e]
  have ok: "world_ok w" and own: "own_ok {} K H w" and obj: "objects_ok w" using w by (simp_all add: fine_def)
  have "world_ok ?w'" using keeps_new_loop [OF ok new ctor(1,2,3)] by blast
  moreover have "calm_but {} w ?w'"
    by (rule calm_but_new_chan [OF ok new(2)]) (use new(1) ctor(5) in \<open>simp_all add: cores_def fun_eq_iff pend_def put_loop_def\<close>)
  then have "own_ok {} K H ?w'" using own_ok_calm_but [OF _ own] by fastforce
  moreover have "objects_ok ?w'"
    by (rule objects_ok_new_chan [OF obj new(2)]) (use ctor(8-11) in \<open>auto simp: callbacks_def\<close>)
  ultimately show ?thesis by (simp add: fine_def)
qed

lemma fine_listen: "keeps (fine K H) world_le (run_call sys tid lp (\<lambda>_. acceptor_listen sys ret p) (Acceptor_listen p))"
proof (rule keepsI)
  fix w w' assume w: "fine K H w"
    and run: "run_call sys tid lp (\<lambda>_. acceptor_listen sys ret p) (Acceptor_listen p) w = Inr w'"
  have "calm w w'"
  proof (rule calm_run_call [OF run])
    fix w' assume r: "acceptor_listen sys ret p w = Inr w'"
    then obtain ac where ac: "w_acceptors w p = Some ac"
      by (auto simp: acceptor_listen_def bindE_eq_Inr the_acceptor_eq)
    show "calm w w'" using calm_acceptor_listen [OF r ac acceptor_chan_live [OF _ ac]] w by (simp add: fine_def)
  qed simp
  moreover have "world_ok w' \<and> world_le w w'"
    using keepsD [OF safe_run_call_const [OF safe_acceptor_listen] _ run] w by (simp add: fine_def)
  ultimately show "fine K H w' \<and> world_le w w'" using fine_calm [OF w] by blast
qed

sublocale fs: starting sys "fine K H" for K H
proof
  fix w assume "fine K H w" then show "world_ok w" by (simp add: fine_def)
next
  fix w lp x up epfd evfd tid l ch
  assume "fine K H w" "w_loops w lp = None" "w_chans w x = None"
    "EventLoop_ctor sys up epfd evfd None tid lp x = Inr (l, ch)"
  then show "fine K H (put_loop lp l (put_chan x ch w))" by (rule fine_new_loop)
next
  fix w s n pool and sv :: tcp_server assume w: "fine K H w" and sv: "w_servers w s = Some sv"
    and pool: "tp_baseLoop pool = tp_baseLoop (sv_threadPool sv)" "pool_fit (sv_threadPool sv) \<Longrightarrow> pool_fit pool"
  have "server_fit sv" using w objects_okD(8) [OF _ sv] by (simp add: fine_def)
  then have "server_fit (sv\<lparr>sv_started := n, sv_threadPool := pool\<rparr>) = server_fit sv" using pool by (simp add: server_fit_def)
  then show "fine K H (put_server s (sv\<lparr>sv_started := n, sv_threadPool := pool\<rparr>) w)"
    using fine_put_server [OF w sv] by (simp add: sv_core_def)
qed (simp_all add: fine_gentle gentle_call_user fine_listen)

lemma fine_server_start:
  assumes "e_sys env = sys" "fine K H w" "w_servers w s = Some sv"
    "fresh_threads sp (map (thread_name (tp_name (sv_threadPool sv))) [0 .. tp_numThreads (sv_threadPool sv) - 1]) w"
    "server_start env (startLoop sys sp) ret s w = Inr w'"
  shows "fine K H w' \<and> world_le w w'"
  by (rule fs.keeps_server_start [OF assms])

end

subsection \<open>The end of a connection\<close>

text \<open>
  A connection that nothing in the library owns can be destroyed: if its destructor's assertion holds,
  its channel has left the poller, and no pointer is left to it but those of queued \<open>SendInLoop\<close> and \<open>ShutdownInLoop\<close>.
\<close>

lemma unowned_not_anchored: "K \<subseteq> H \<Longrightarrow> \<not> owned H w a \<Longrightarrow> \<not> anchored K w a"
  unfolding owned_def anchored_def using ends_owns by blast

lemma unowned_channel:
  assumes "fine K H w" "K \<subseteq> H" "\<not> owned H w a" "w_conns w a = Some c" "tc_state c = kDisconnected"
  obtains ch where "w_chans w (tc_channel c) = Some ch" "ch_index ch = kNew"
proof -
  have "index_at (tc_channel c) w = Some kNew"
    using own_okD(6) [of "{}" K H w a c] unowned_not_anchored [OF assms(2,3)] assms(1,4,5) by (simp add: fine_def)
  with that show thesis by (auto simp: index_at_def)
qed

lemma fine_destroy:
  assumes w: "fine K H w" and K: "K \<subseteq> H" and un: "\<not> owned H w a" and run: "TcpConnection_dtor a w = Inr w'"
  shows "fine K H w' \<and> w_conns w' = (w_conns w)(a := None)"
proof -
  have ok: "world_ok w" and own: "own_ok {} K H w" and obj: "objects_ok w" using w by (simp_all add: fine_def)
  obtain c where c: "w_conns w a = Some c" "tc_state c = kDisconnected"
    using run by (auto simp: TcpConnection_dtor_def the_conn_def bindE_eq_Inr guardE_eq_Inr split: option.splits)
  obtain ch where ch: "w_chans w (tc_channel c) = Some ch" "ch_index ch = kNew" using unowned_channel [OF w K un c] .
  have ok': "world_ok w'" using keeps_dtor [OF ok c ch] run by auto
  let ?x = "tc_channel c"
  have sel: "w_conns w' = (w_conns w)(a := None)" "w_chans w' = (w_chans w)(?x := None)" "w_servers w' = w_servers w"
      "w_loops w' = w_loops w" "w_acceptors w' = w_acceptors w"
    using run c by (auto simp: TcpConnection_dtor_def the_conn_def)
  have other: "tc_channel d \<noteq> ?x" if "w_conns w b = Some d" "b \<noteq> a" for b d
    using world_okD(4) [OF ok that(1) c(1)] that(2) by blast
  have pend: "pend w' lp = pend w lp" for lp by (simp add: pend_def sel)
  have anch: "anchored K w' b = anchored K w b" for b by (simp add: anchored_def pend sel)
  have "functor_ok w' f" if "f \<in> H \<or> (\<exists>lp. f \<in> set (pend w' lp))" for f
  proof -
    have "functor_ok w f" using that own_okD(4,5) [OF own] unfolding pend by blast
    moreover have "owns f \<noteq> Some a" using that un unfolding owned_def pend by blast
    ultimately show ?thesis by (auto simp: functor_ok_def sel)
  qed
  moreover have "table_ok w' s sv \<and> ids_ok w' s sv \<and> names_differ w' s" if "w_servers w' s = Some sv" for s sv
  proof -
    have s: "w_servers w s = Some sv" using that by (simp add: sel)
    have "sv_connections sv nm \<noteq> Some a" for nm using un s unfolding owned_def by blast
    then show ?thesis using own_okD(1-3) [OF own s]
      unfolding table_ok_def ids_ok_def names_differ_def sel by (simp add: fun_upd_apply)
  qed
  moreover have "index_at (tc_channel d) w' = Some kNew"
    if "w_conns w' b = Some d" "tc_state d = kDisconnected" "\<not> anchored K w' b" for b d
  proof -
    have b: "w_conns w b = Some d" "b \<noteq> a" using that(1) by (auto simp: sel split: if_splits)
    then show ?thesis
      using own_okD(6) [OF own b(1)] other [OF b] that(2,3) unfolding anch by (simp add: index_at_def sel)
  qed
  ultimately have "own_ok {} K H w'" unfolding own_ok_def by blast
  moreover have "objects_ok w'"
  proof -
    have b: "leads cb y w'" if "leads cb y w" "y \<noteq> ?x" for cb y using that c(1) by (cases cb) (auto simp: sel)
    have 1: "leads cb y w'" if "w_chans w' y = Some d" "cb \<in> callbacks d" for y d cb
      using that b objects_okD(1) [OF obj, of y d cb] by (auto simp: sel split: if_splits)
    have 2: "\<exists>d'. w_chans w' (tc_channel d) = Some d' \<and> conn_handlers e d'" if "w_conns w' e = Some d" for e d
    proof -
      have "w_conns w e = Some d" "e \<noteq> a" using that by (auto simp: sel split: if_splits)
      then show ?thesis using objects_okD(2) [OF obj, of e d] other [of e d] by (simp add: sel)
    qed
    obtain ch' where ch': "w_chans w ?x = Some ch'" "conn_handlers a ch'" using objects_okD(2) [OF obj c(1)] by blast
    have 3: "(\<exists>d. w_chans w' (ac_channel ac) = Some d \<and> readCallback d = Some (Acceptor_handleRead p)) \<and>
        (\<exists>t svt. newConnectionCallback ac = Some t \<and> w_servers w' t = Some svt \<and> sv_acceptor svt = p)"
      if "w_acceptors w' p = Some ac" for p ac
      using that objects_okD(3,4) [OF obj, of p ac] ch' by (auto simp: sel conn_handlers_def)
    have 5: "callable d" if "w_conns w' e = Some d" for e d
      using that objects_okD(7) [OF obj] by (auto simp: sel split: if_splits)
    show ?thesis unfolding objects_ok_def using 1 2 3 5 objects_okD(5,6,8) [OF obj] by (simp add: sel)
  qed
  ultimately show ?thesis using ok' sel(1) by (simp add: fine_def)
qed

subsection \<open>The end of a server\<close>

lemma acceptor_foreign:
  assumes obj: "objects_ok w" and ac: "w_acceptors w p = Some ac"
  shows "\<forall>a c. w_conns w a = Some c \<longrightarrow> tc_channel c \<noteq> ac_channel ac"
proof (intro allI impI)
  fix a c assume c: "w_conns w a = Some c"
  show "tc_channel c \<noteq> ac_channel ac"
    using objects_okD(2) [OF obj c] objects_okD(3) [OF obj ac] by (auto simp: conn_handlers_def)
qed

context kernel
begin

lemma fine_destroy_connections:
  assumes env: "e_sys env = sys"
  shows "keeps (fine K H) world_le (destroy_connections env s nms)"
proof (induction nms)
  case Nil
  show ?case by (rule keepsI) simp
next
  case (Cons nm nms)
  show ?case
  proof (rule keepsI)
    fix w w' assume w: "fine K H w" and run: "destroy_connections env s (nm # nms) w = Inr w'"
    then obtain sv where sv: "w_servers w s = Some sv" by (auto simp: bindE_eq_Inr the_simps)
    show "fine K H w' \<and> world_le w w'"
    proof (cases "sv_connections sv nm")
      case None
      then show ?thesis using run sv keepsD [OF Cons.IH w] by (simp add: the_server_def)
    next
      case (Some a)
      let ?w1 = "put_server s (sv\<lparr>sv_connections := (sv_connections sv)(nm := None)\<rparr>) w"
      obtain c :: tcp_connection and w2 where w2: "run_call sys (e_tid env) (tc_loop c) (\<lambda>_. connectDestroyed env a)
            (ConnectDestroyed a) ?w1 = Inr w2" "destroy_connections env s nms w2 = Inr w'"
        using run sv Some by (auto simp: the_server_def bindE_eq_Inr env)
      have ok: "world_ok w" and own: "own_ok {} K H w" and obj: "objects_ok w" using w by (simp_all add: fine_def)
      have k1: "world_ok ?w1 \<and> world_le w ?w1" by (rule keeps_put_server [OF ok])
      have o1: "own_ok (insert a {}) K H ?w1" by (rule own_ok_erase [OF own sv]) (use Some in simp)
      have f1: "fixed w ?w1" by (rule fixed_put_server [OF sv]) (simp_all add: server_fit_def)
      have k2: "world_ok w2 \<and> world_le ?w1 w2"
        using keepsD [OF safe_run_call_const [OF safe_connectDestroyed [OF env]] _ w2(1)] k1 by blast
      have f2: "fixed ?w1 w2" by (rule stableD [OF stable_run_call [OF inert_stable [OF inert_connectDestroyed]] w2(1)])
      have a: "functor_ok ?w1 (ConnectDestroyed a)"
        using own_okD(1) [OF own sv] Some by (auto simp: table_ok_def)
      have "own_ok {} K H w2" using w2(1)
      proof (rule run_callE)
        assume r: "connectDestroyed env a ?w1 = Inr w2"
        from k1 show ?thesis by (intro own_ok_connectDestroyed [OF env _ o1 r]) simp
      next
        assume "queue_call sys (e_tid env) (tc_loop c) (ConnectDestroyed a) ?w1 = Inr w2"
        from own_ok_queue [OF o1 this a] show ?thesis by (simp add: eq_commute)
      qed
      moreover have "objects_ok w2" using objects_ok_keeps [OF _ _ obj] k1 k2 f1 f2 world_le_trans fixed_trans by metis
      ultimately have "fine K H w2" using k2 by (simp add: fine_def)
      then show ?thesis using keepsD [OF Cons.IH _ w2(2)] k1 k2 world_le_trans by blast
    qed
  qed
qed

text \<open>The table afterwards.\<close>

lemma destroyed_table:
  "destroy_connections env s nms w = Inr w' \<Longrightarrow> w_servers w s = Some sv \<Longrightarrow>
     w_acceptors w' = w_acceptors w \<and> (\<exists>sv'. w_servers w' = (w_servers w)(s \<mapsto> sv') \<and>
       sv_acceptor sv' = sv_acceptor sv \<and> sv_loop sv' = sv_loop sv \<and>
       (\<forall>nm. nm \<in> set nms \<longrightarrow> sv_connections sv' nm = None) \<and>
       (\<forall>nm. sv_connections sv nm = None \<longrightarrow> sv_connections sv' nm = None))"
proof (induction nms arbitrary: w sv)
  case Nil
  then show ?case by (auto intro!: exI [of _ sv] simp: fun_upd_idem)
next
  case (Cons nm nms)
  show ?case
  proof (cases "sv_connections sv nm")
    case None
    then have "destroy_connections env s nms w = Inr w'" using Cons.prems by (simp add: the_server_def)
    from Cons.IH [OF this Cons.prems(2)] None show ?thesis by auto
  next
    case (Some a)
    let ?sv = "sv\<lparr>sv_connections := (sv_connections sv)(nm := None)\<rparr>"
    let ?w1 = "put_server s ?sv w"
    obtain c :: tcp_connection and w2 where w2: "run_call (e_sys env) (e_tid env) (tc_loop c) (\<lambda>_. connectDestroyed env a)
          (ConnectDestroyed a) ?w1 = Inr w2" "destroy_connections env s nms w2 = Inr w'"
      using Cons.prems Some by (auto simp: the_server_def bindE_eq_Inr)
    have "same_objects ?w1 w2" by (rule inertD [OF inert_run_call [OF inert_connectDestroyed] w2(1)])
    then have eq: "w_servers w2 = (w_servers w)(s \<mapsto> ?sv)" "w_acceptors w2 = w_acceptors w"
      by (simp_all add: same_objects_def put_server_def)
    from Cons.IH [OF w2(2), of ?sv] eq show ?thesis by fastforce
  qed
qed

text \<open>The channel of an acceptor goes through its poller without touching any connection.\<close>

lemma foreign_chan_call:
  assumes ok: "world_ok w" and foreign: "\<forall>a c. w_conns w a = Some c \<longrightarrow> tc_channel c \<noteq> x"
    and run: "chan_call sys op x w = Inr w'"
  shows "world_ok w' \<and> world_le w w' \<and> calm w w' \<and> same_objects w w' \<and>
    (op = Remove \<longrightarrow> index_at x w' = Some kNew)"
proof -
  obtain ch where ch: "w_chans w x = Some ch" using run by (auto simp: chan_call_def bindE_eq_Inr the_simps)
  from world_ok_chan_poller [OF ok ch] obtain l where l: "w_loops w (ch_loop ch) = Some l"
    and p: "poller_ok (chans_of (ch_loop ch) w, el_poller l)" and x: "chans_of (ch_loop ch) w x = Some ch"
    and inv: "chan_inv ch (el_poller l)" .
  have legal: "chan_legal op ch"
  proof (rule ccontr)
    assume "\<not> chan_legal op ch"
    then have "op = Remove" "chan_do sys Remove ch (el_poller l) = Inl (AssertFail ''removeChannel'')"
      by (auto simp: chan_legal_def chan_do_remove removeChannel_new)
    then show False using run ch l by (simp add: chan_call_def the_chan_def the_loop_def)
  qed
  let ?ch = "chan_after op ch"
  let ?l = "l\<lparr>el_poller := place ?ch (el_poller l)\<rparr>"
  have w': "w' = put_loop (ch_loop ch) ?l (put_chan x ?ch w)"
    using run ch l chan_do_eq [OF chan_inv_slot [OF inv] legal]
    by (simp add: chan_call_def the_chan_def the_loop_def)
  have "world_ok w' \<and> world_le w w'"
    unfolding w'
  proof (rule world_ok_chan [OF ok ch l])
    from poller_ok_chan_do [OF p x legal]
    show "poller_ok ((chans_of (ch_loop ch) w)(x \<mapsto> ?ch), el_poller ?l)" by simp
    show "isWriting ?ch = isWriting ch \<or> (\<forall>a c. w_conns w a = Some c \<longrightarrow> tc_channel c \<noteq> x)" using foreign by blast
  qed simp
  moreover have "calm w w'" by (rule calm_chan_call [OF run]) (use foreign in \<open>auto simp: live_chan_def\<close>)
  moreover have "same_objects w w'" by (rule inertD [OF inert_chan_call run])
  moreover have "op = Remove \<longrightarrow> index_at x w' = Some kNew" by (simp add: w' index_at_def chan_after_def)
  ultimately show ?thesis by blast
qed

text \<open>\<open>~Acceptor\<close>, up to the end of the two objects.\<close>

lemma Acceptor_dtor_upto:
  assumes w: "fine K H w" and ac: "w_acceptors w p = Some ac" and run: "Acceptor_dtor sys p w = Inr w'"
  shows "\<exists>w1 ch. fine K H w1 \<and> world_le w w1 \<and> same_objects w w1 \<and>
    w_chans w1 (ac_channel ac) = Some ch \<and> ch_index ch = kNew \<and>
    w' = w1\<lparr>w_acceptors := (w_acceptors w1)(p := None), w_chans := (w_chans w1)(ac_channel ac := None)\<rparr>"
proof -
  let ?x = "ac_channel ac"
  obtain wa w1 where wa: "chan_call sys DisableAll ?x w = Inr wa" and w1: "chan_call sys Remove ?x wa = Inr w1"
    and w': "w' = w1\<lparr>w_acceptors := (w_acceptors w1)(p := None), w_chans := (w_chans w1)(?x := None)\<rparr>"
    using run ac by (auto simp: Acceptor_dtor_def bindE_eq_Inr the_acceptor_def)
  have ka: "world_ok wa \<and> world_le w wa \<and> calm w wa \<and> same_objects w wa"
    using foreign_chan_call [OF _ acceptor_foreign [OF _ ac] wa] w by (simp add: fine_def)
  then have fa: "fine K H wa" using fine_calm [OF w] by blast
  have aca: "w_acceptors wa p = Some ac" using ka ac by (simp add: same_objects_def)
  have kb: "world_ok w1 \<and> world_le wa w1 \<and> calm wa w1 \<and> same_objects wa w1 \<and> index_at ?x w1 = Some kNew"
    using foreign_chan_call [OF _ acceptor_foreign [OF _ aca] w1] fa by (simp add: fine_def)
  then have "fine K H w1" using fine_calm [OF fa] by blast
  moreover obtain ch where "w_chans w1 ?x = Some ch" "ch_index ch = kNew" using kb by (auto simp: index_at_def)
  ultimately show ?thesis using ka kb w' world_le_trans same_objects_trans by blast
qed

end

text \<open>Taking a server with an empty table, its acceptor and the acceptor's channel out of the world.\<close>

definition without_server :: "ptr \<Rightarrow> tcp_server \<Rightarrow> acceptor \<Rightarrow> world \<Rightarrow> world \<Rightarrow> bool" where
  "without_server s sv ac w w' \<longleftrightarrow> w_servers w s = Some sv \<and> w_acceptors w (sv_acceptor sv) = Some ac \<and>
     w_conns w' = w_conns w \<and> w_chans w' = (w_chans w)(ac_channel ac := None) \<and> w_loops w' = w_loops w \<and>
     w_strings w' = w_strings w \<and> w_servers w' = (w_servers w)(s := None) \<and>
     w_acceptors w' = (w_acceptors w)(sv_acceptor sv := None)"

lemma without_serverD:
  assumes "without_server s sv ac w w'"
  shows "w_servers w s = Some sv" "w_acceptors w (sv_acceptor sv) = Some ac"
    "w_conns w' = w_conns w" "w_chans w' = (w_chans w)(ac_channel ac := None)" "w_loops w' = w_loops w"
    "w_strings w' = w_strings w" "w_servers w' = (w_servers w)(s := None)"
    "w_acceptors w' = (w_acceptors w)(sv_acceptor sv := None)"
  using assms unfolding without_server_def by blast+

lemma own_ok_without_server:
  assumes gone: "without_server s sv ac w w'" and obj: "objects_ok w"
    and own: "own_ok {} K H w" and empty: "\<And>nm. sv_connections sv nm = None"
  shows "own_ok {} K H w'"
proof -
  note sv = without_serverD(1) [OF gone] and ac = without_serverD(2) [OF gone] and sel = without_serverD(3-8) [OF gone]
  have pend: "pend w' lp = pend w lp" for lp by (simp add: pend_def sel)
  have anch: "anchored K w' a" if "anchored K w a" for a
  proof -
    have "\<exists>svt. w_servers w' t = Some svt \<and> sv_connections svt n = Some a"
      if "w_servers w t = Some svt" "sv_connections svt n = Some a" for t svt n
      using that sv empty by (cases "t = s") (auto simp: sel)
    with \<open>anchored K w a\<close> show ?thesis unfolding anchored_def pend by blast
  qed
  have "index_at (tc_channel c) w' = index_at (tc_channel c) w" if "w_conns w a = Some c" for a c
    using acceptor_foreign [OF obj ac] that by (auto simp: index_at_def sel)
  then have "index_at (tc_channel c) w' = Some kNew"
    if "w_conns w' a = Some c" "tc_state c = kDisconnected" "\<not> anchored K w' a" for a c
    using own_okD(6) [OF own, of a c] that anch by (auto simp: sel(1))
  moreover have "table_ok w' t svt \<and> ids_ok w' t svt \<and> names_differ w' t" if "w_servers w' t = Some svt" for t svt
    using own_okD(1-3) [OF own, of t svt] that
    unfolding table_ok_def ids_ok_def names_differ_def sel(1) by (auto simp: sel split: if_splits)
  moreover have "functor_ok w' f" if "f \<in> H \<or> (\<exists>lp. f \<in> set (pend w' lp))" for f
    using that own_okD(4,5) [OF own] functor_ok_cong [OF sel(1), of f] unfolding pend by auto
  ultimately show ?thesis unfolding own_ok_def by blast
qed

lemma objects_ok_without_server:
  assumes gone: "without_server s sv ac w w'" and obj: "objects_ok w"
  shows "objects_ok w'"
proof -
  note sv = without_serverD(1) [OF gone] and ac = without_serverD(2) [OF gone] and sel = without_serverD(3-8) [OF gone]
  let ?x = "ac_channel ac" and ?p = "sv_acceptor sv"
  have cbk: "newConnectionCallback ac = Some s" using objects_okD(6) [OF obj sv] ac by auto
  have b: "leads cb y w'" if "leads cb y w" "y \<noteq> ?x" for cb y
    using that ac by (cases cb) (auto simp: sel)
  have 1: "leads cb y w'" if "w_chans w' y = Some d" "cb \<in> callbacks d" for y d cb
    using that b objects_okD(1) [OF obj, of y d cb] by (auto simp: sel split: if_splits)
  have 2: "\<exists>d'. w_chans w' (tc_channel d) = Some d' \<and> conn_handlers e d'" if "w_conns w' e = Some d" for e d
    using that objects_okD(2) [OF obj, of e d] acceptor_foreign [OF obj ac] by (simp add: sel)
  have 3: "(\<exists>d. w_chans w' (ac_channel ac') = Some d \<and> readCallback d = Some (Acceptor_handleRead q)) \<and>
      (\<exists>t svt. newConnectionCallback ac' = Some t \<and> w_servers w' t = Some svt \<and> sv_acceptor svt = q)"
    if "w_acceptors w' q = Some ac'" for q ac'
  proof -
    have q: "w_acceptors w q = Some ac'" "q \<noteq> ?p" using that by (auto simp: sel split: if_splits)
    then have "ac_channel ac' \<noteq> ?x" using objects_okD(3) [OF obj q(1)] objects_okD(3) [OF obj ac] by auto
    moreover obtain t svt where t: "newConnectionCallback ac' = Some t" "w_servers w t = Some svt" "sv_acceptor svt = q"
      using objects_okD(4) [OF obj q(1)] by blast
    moreover have "t \<noteq> s" using t sv q(2) by auto
    ultimately show ?thesis using objects_okD(3) [OF obj q(1)] by (simp add: sel)
  qed
  have 4: "w_loops w' (sv_loop svt) \<noteq> None \<and>
      (\<exists>ac. w_acceptors w' (sv_acceptor svt) = Some ac \<and> newConnectionCallback ac = Some t)"
    if "w_servers w' t = Some svt" for t svt
  proof -
    have t: "w_servers w t = Some svt" "t \<noteq> s" using that by (auto simp: sel split: if_splits)
    then have "sv_acceptor svt \<noteq> ?p" using objects_okD(6) [OF obj t(1)] ac cbk by auto
    then show ?thesis using objects_okD(5,6) [OF obj t(1)] by (simp add: sel)
  qed
  have 5: "callable d" if "w_conns w' e = Some d" for e d using that objects_okD(7) [OF obj] by (simp add: sel)
  have 6: "server_fit svt" if "w_servers w' t = Some svt" for t svt
    using that objects_okD(8) [OF obj] by (auto simp: sel split: if_splits)
  show ?thesis unfolding objects_ok_def using 1 2 3 4 5 6 by blast
qed

context kernel
begin

text \<open>The last part of the destructor, when the table is empty.\<close>

lemma fine_free_server:
  assumes w: "fine K H w" and sv: "w_servers w s = Some sv" and empty: "sv_connections sv = Map.empty"
    and run: "free_server sys s w = Inr w'"
  shows "fine K H w' \<and> (\<forall>a c. w_conns w a = Some c \<longrightarrow> (\<exists>c'. w_conns w' a = Some c' \<and> conn_le c c'))"
proof -
  from run sv obtain w2 where w2: "Acceptor_dtor sys (sv_acceptor sv) w = Inr w2"
    and w': "w' = w2\<lparr>w_servers := (w_servers w2)(s := None)\<rparr>"
    by (auto simp: free_server_def bindE_eq_Inr the_server_def)
  obtain ac where ac: "w_acceptors w (sv_acceptor sv) = Some ac"
    using w2 by (auto simp: Acceptor_dtor_def bindE_eq_Inr the_acceptor_eq)
  obtain w3 ch where k3: "fine K H w3" "world_le w w3" "same_objects w w3"
    and ch: "w_chans w3 (ac_channel ac) = Some ch" "ch_index ch = kNew"
    and w2': "w2 = w3\<lparr>w_acceptors := (w_acceptors w3)(sv_acceptor sv := None),
      w_chans := (w_chans w3)(ac_channel ac := None)\<rparr>"
    using Acceptor_dtor_upto [OF w ac w2] by blast
  have sv3: "w_servers w3 s = Some sv" and ac3: "w_acceptors w3 (sv_acceptor sv) = Some ac"
    using sv ac k3(3) by (simp_all add: same_objects_def)
  have obj3: "objects_ok w3" and ok3: "world_ok w3" and own3: "own_ok {} K H w3" using k3(1) by (simp_all add: fine_def)
  have sel: "w_conns w' = w_conns w3" "w_chans w' = (w_chans w3)(ac_channel ac := None)" "w_loops w' = w_loops w3"
      "w_strings w' = w_strings w3" "w_servers w' = (w_servers w3)(s := None)"
      "w_acceptors w' = (w_acceptors w3)(sv_acceptor sv := None)"
    by (simp_all add: w' w2')
  have gone: "without_server s sv ac w3 w'" using sel sv3 ac3 by (simp add: without_server_def)
  have "world_ok w'"
    by (rule world_ok_del_chan [OF ok3 ch _ sel(1-4)]) (use acceptor_foreign [OF obj3 ac3] in blast)
  then have "fine K H w'"
    using own_ok_without_server [OF gone obj3 own3] objects_ok_without_server [OF gone obj3] empty
    by (simp add: fine_def)
  moreover have "\<exists>c'. w_conns w' a = Some c' \<and> conn_le c c'" if "w_conns w a = Some c" for a c
    using world_le_conn [OF k3(2) that] by (auto simp: sel)
  ultimately show ?thesis by blast
qed

end

subsection \<open>The end of a loop\<close>

text \<open>
  A loop that nothing is left on: its wake-up channel is its own, no other channel and no server refers to it, and
  none of the functors that are still in its queue holds a connection.
\<close>

definition left_alone :: "ptr \<Rightarrow> eventloop \<Rightarrow> world \<Rightarrow> bool" where
  "left_alone lp l w \<longleftrightarrow>
     (\<exists>ch. w_chans w (el_wakeupChannel l) = Some ch \<and> ch_loop ch = lp \<and> readCallback ch = Some (EventLoop_handleRead lp)) \<and>
     (\<forall>y d. w_chans w y = Some d \<longrightarrow> y \<noteq> el_wakeupChannel l \<longrightarrow> ch_loop d \<noteq> lp \<and> EventLoop_handleRead lp \<notin> callbacks d) \<and>
     (\<forall>s sv. w_servers w s = Some sv \<longrightarrow> sv_loop sv \<noteq> lp) \<and>
     (\<forall>f \<in> set (el_pendingFunctors l). owns f = None)"

lemma fine_free_loop:
  assumes w: "fine K H w" and l: "w_loops w lp = Some l" and alone: "left_alone lp l w" and run: "free_loop sys lp w = Inr w'"
  shows "fine K H w' \<and> w_conns w' = w_conns w"
proof -
  have ok: "world_ok w" and own: "own_ok {} K H w" and obj: "objects_ok w" using w by (simp_all add: fine_def)
  let ?x = "el_wakeupChannel l"
  obtain ch where ch: "w_chans w ?x = Some ch" "ch_loop ch = lp" "readCallback ch = Some (EventLoop_handleRead lp)"
    using alone unfolding left_alone_def by blast
  have other: "ch_loop d \<noteq> lp" "EventLoop_handleRead lp \<notin> callbacks d" if "w_chans w y = Some d" "y \<noteq> ?x" for y d
    using alone that unfolding left_alone_def by blast+
  have srv: "sv_loop sv \<noteq> lp" if "w_servers w s = Some sv" for s sv using alone that unfolding left_alone_def by blast
  have rest: "owns f = None" if "f \<in> set (pend w lp)" for f
    using alone that l unfolding left_alone_def by (simp add: pend_def)
  have sel: "w_conns w' = w_conns w" "w_chans w' = (w_chans w)(?x := None)" "w_loops w' = (w_loops w)(lp := None)"
      "w_servers w' = w_servers w" "w_acceptors w' = w_acceptors w" "w_strings w' = w_strings w"
    using run l ch(1) by (auto simp: free_loop_def bindE_eq_Inr the_loop_def the_chan_def)
  have conn: "tc_channel c \<noteq> ?x" if "w_conns w a = Some c" for a c
    using objects_okD(2) [OF obj that] ch by (auto simp: conn_handlers_def)
  have acc: "ac_channel ac \<noteq> ?x" if "w_acceptors w p = Some ac" for p ac
    using objects_okD(3) [OF obj that] ch by auto
  have chans: "chans_of q w' = chans_of q w" if "q \<noteq> lp" for q
    using that ch by (auto simp: chans_of_def sel fun_eq_iff)
  have "conn_ok w' c" if "w_conns w a = Some c" for a c
    using world_okD(3) [OF ok that] conn [OF that] other(1) by (auto simp: conn_ok_def sel)
  then have "world_ok w'"
    using ok other(1) chans unfolding world_ok_def sel by (auto split: if_splits)
  moreover have "objects_ok w'"
  proof -
    have b: "leads cb y w'" if "leads cb y w" "cb \<noteq> EventLoop_handleRead lp" for cb y
      using that by (cases cb) (auto simp: sel)
    have 1: "leads cb y w'" if "w_chans w' y = Some d" "cb \<in> callbacks d" for y d cb
    proof -
      have y: "w_chans w y = Some d" "y \<noteq> ?x" using that(1) by (auto simp: sel split: if_splits)
      then have "cb \<noteq> EventLoop_handleRead lp" using other(2) that(2) by blast
      with b [OF objects_okD(1) [OF obj y(1) that(2)]] show ?thesis by blast
    qed
    have 2: "\<exists>d. w_chans w' (tc_channel c) = Some d \<and> conn_handlers a d" if "w_conns w' a = Some c" for a c
      using that objects_okD(2) [OF obj] conn by (simp add: sel)
    have 3: "(\<exists>d. w_chans w' (ac_channel ac) = Some d \<and> readCallback d = Some (Acceptor_handleRead p)) \<and>
        (\<exists>s sv. newConnectionCallback ac = Some s \<and> w_servers w' s = Some sv \<and> sv_acceptor sv = p)"
      if "w_acceptors w' p = Some ac" for p ac
      using that objects_okD(3,4) [OF obj, of p ac] acc by (simp add: sel)
    have 4: "w_loops w' (sv_loop sv) \<noteq> None \<and>
        (\<exists>ac. w_acceptors w' (sv_acceptor sv) = Some ac \<and> newConnectionCallback ac = Some s)"
      if "w_servers w' s = Some sv" for s sv
      using that objects_okD(5,6) [OF obj, of s sv] srv by (simp add: sel)
    show ?thesis unfolding objects_ok_def using 1 2 3 4 objects_okD(7,8) [OF obj] unfolding sel(1,4) by blast
  qed
  moreover have "own_ok {} K H w'"
  proof -
    have pend: "pend w' q = (if q = lp then [] else pend w q)" for q by (simp add: pend_def sel)
    have anch: "anchored K w' a" if "anchored K w a" for a
    proof -
      have "\<exists>q. f \<in> set (pend w' q)" if "ends f = Some a" "f \<in> set (pend w q)" for f q
        using that rest ends_owns [of f a] by (intro exI [of _ q]) (auto simp: pend)
      with \<open>anchored K w a\<close> show ?thesis unfolding anchored_def sel by blast
    qed
    have "functor_ok w' f" if "f \<in> H \<or> (\<exists>q. f \<in> set (pend w' q))" for f
      using that own_okD(4,5) [OF own] functor_ok_cong [OF sel(1), of f] unfolding pend by (auto split: if_splits)
    moreover have "index_at (tc_channel c) w' = Some kNew"
      if "w_conns w' a = Some c" "tc_state c = kDisconnected" "\<not> anchored K w' a" for a c
      using own_okD(6) [OF own, of a c] that anch conn by (auto simp: sel index_at_def)
    ultimately show ?thesis
      using own unfolding own_ok_def table_ok_def ids_ok_def names_differ_def sel by blast
  qed
  ultimately show ?thesis by (simp add: fine_def sel)
qed

subsection \<open>New servers\<close>

lemma fine_TcpServer_ctor:
  assumes w: "fine K H w" and lp: "w_loops w lp \<noteq> None" and new: "w_chans w x = None" "w_servers w s = None"
      "w_acceptors w acc = None" "\<forall>a c. w_conns w a = Some c \<longrightarrow> tc_closeCallback c \<noteq> Some s"
    and fd: "\<forall>y d. w_chans w y = Some d \<longrightarrow> ch_fd d \<noteq> fd"
    and run: "TcpServer_ctor fd idle bound s acc x lp addr nm reuse w = Inr w'"
  shows "fine K H w' \<and> world_le w w'"
proof -
  let ?ch = "setReadCallback (Acceptor_handleRead acc) (Channel_ctor x lp fd) :: callback channel"
  obtain ac ac' sv where w': "w' = put_acceptor acc ac' (put_server s sv (put_acceptor acc ac (put_chan x ?ch w)))"
    and ac': "ac_channel ac' = x" "newConnectionCallback ac' = Some s"
    and sv: "sv_acceptor sv = acc" "sv_loop sv = lp" "sv_connections sv = Map.empty" "sv_ipPort sv = toIpPort addr"
      "sv_nextConnId sv = 1" "server_fit sv"
    using run by (auto simp: TcpServer_ctor_def Acceptor_ctor_def createNonblocking_def bindE_eq_Inr the_acceptor_eq
        setNewConnectionCallback_def guardE_eq_Inr server_fit_def pool_fit_def pool_ok_def EventLoopThreadPool_ctor_def
        split: if_splits)
  have ok: "world_ok w" and own: "own_ok {} K H w" and obj: "objects_ok w" using w by (simp_all add: fine_def)
  have k: "world_ok w' \<and> world_le w w'"
    by (rule keeps_TcpServer_ctor [OF ok lp new(1) _ run]) (use fd in blast)
  have sel: "w_conns w' = w_conns w" "w_chans w' = (w_chans w)(x \<mapsto> ?ch)" "w_servers w' = (w_servers w)(s \<mapsto> sv)"
      "w_acceptors w' = (w_acceptors w)(acc \<mapsto> ac')" "w_loops w' = w_loops w"
    by (simp_all add: w' put_server_def)
  have pend: "pend w' q = pend w q" for q by (simp add: pend_def sel)
  have "table_ok w' t svt \<and> ids_ok w' t svt \<and> names_differ w' t" if "w_servers w' t = Some svt" for t svt
  proof (cases "t = s")
    case True
    then have "svt = sv" using that by (simp add: sel)
    then show ?thesis using True sv new(4) unfolding table_ok_def ids_ok_def names_differ_def sel(1) by auto
  next
    case False
    then show ?thesis using own_okD(1-3) [OF own, of t svt] that
      unfolding table_ok_def ids_ok_def names_differ_def sel(1) by (simp add: sel)
  qed
  moreover have "functor_ok w' f" if "f \<in> H \<or> (\<exists>lp. f \<in> set (pend w' lp))" for f
    using that own_okD(4,5) [OF own] functor_ok_cong [OF sel(1), of f] unfolding pend by auto
  moreover have "index_at (tc_channel c) w' = Some kNew"
    if c: "w_conns w' a = Some c" "tc_state c = kDisconnected" "\<not> anchored K w' a" for a c
  proof -
    have "anchored K w' a" if "anchored K w a"
    proof -
      have "\<exists>svt'. w_servers w' t = Some svt' \<and> sv_connections svt' n = Some a"
        if "w_servers w t = Some svt" "sv_connections svt n = Some a" for t svt n
        using that new(2) by (cases "t = s") (auto simp: sel)
      with \<open>anchored K w a\<close> show ?thesis unfolding anchored_def pend by blast
    qed
    then have "index_at (tc_channel c) w = Some kNew" using own_okD(6) [OF own, of a c] c by (auto simp: sel)
    then show ?thesis using new(1) by (auto simp: index_at_def sel)
  qed
  ultimately have "own_ok {} K H w'" unfolding own_ok_def by blast
  moreover have "objects_ok w'"
  proof -
    have b: "leads cb y w'" if "leads cb y w" for cb y using that new(3) by (cases cb) (auto simp: sel)
    have "callbacks ?ch = {Acceptor_handleRead acc}"
      by (auto simp: callbacks_def setReadCallback_def Channel_ctor_def)
    then have 1: "leads cb y w'" if "w_chans w' y = Some d" "cb \<in> callbacks d" for y d cb
      using that b objects_okD(1) [OF obj, of y d cb] ac' by (cases "y = x") (auto simp: sel)
    have 2: "\<exists>d'. w_chans w' (tc_channel d) = Some d' \<and> conn_handlers e d'" if "w_conns w' e = Some d" for e d
      using that objects_okD(2) [OF obj, of e d] new(1) by (auto simp: sel)
    have 3: "(\<exists>d. w_chans w' (ac_channel ac'') = Some d \<and> readCallback d = Some (Acceptor_handleRead p)) \<and>
        (\<exists>t svt. newConnectionCallback ac'' = Some t \<and> w_servers w' t = Some svt \<and> sv_acceptor svt = p)"
      if p: "w_acceptors w' p = Some ac''" for p ac''
    proof (cases "p = acc")
      case True
      then show ?thesis using p ac' sv(1) by (auto simp: sel setReadCallback_def)
    next
      case False
      then have "w_acceptors w p = Some ac''" using p by (simp add: sel)
      from objects_okD(3,4) [OF obj this] new(1,2) show ?thesis by (fastforce simp: sel)
    qed
    have 4: "w_loops w' (sv_loop svt) \<noteq> None \<and>
        (\<exists>ac. w_acceptors w' (sv_acceptor svt) = Some ac \<and> newConnectionCallback ac = Some t)"
      if "w_servers w' t = Some svt" for t svt
      using that objects_okD(5,6) [OF obj, of t svt] new(3) lp sv ac' by (cases "t = s") (auto simp: sel)
    have 5: "callable d" if "w_conns w' e = Some d" for e d using that objects_okD(7) [OF obj] by (simp add: sel)
    have 6: "server_fit svt" if "w_servers w' t = Some svt" for t svt
      using that objects_okD(8) [OF obj] sv(6) by (auto simp: sel split: if_splits)
    show ?thesis unfolding objects_ok_def using 1 2 3 4 5 6 by blast
  qed
  ultimately show ?thesis using k by (simp add: fine_def)
qed

end
