(* ===== verification/ConnectionProps.thy ===== *)
theory ConnectionProps
  imports ConnectionSafety
begin

text \<open>
  The properties of a single connection: what sending, the write event, shutting down and
  closing do, with concrete worlds as witnesses.
\<close>

subsection \<open>A concrete world\<close>

text \<open>
  One loop at address 1 run by thread 100, one server at 7, one connection at 20 with channel 21 and
  descriptor 5; \<open>out\<close> waits in its output buffer; the string at 50 is \<open>''hi''\<close>.
\<close>

definition demo_buffer :: "byte list \<Rightarrow> buffer" where
  "demo_buffer bs = \<lparr>storage = replicate 8 0 @ bs @ replicate 16 0, readerIndex = 8,
                     writerIndex = 8 + of_nat (length bs)\<rparr>"

definition demo_conn :: "StateE \<Rightarrow> byte list \<Rightarrow> tcp_connection" where
  "demo_conn st out =
     \<lparr>tc_loop = 1, tc_name = ''c'', tc_state = st, tc_reading = True, tc_socket = Socket_ctor 5,
      tc_channel = 21, tc_localAddr = InetAddress_port 80 False, tc_peerAddr = InetAddress_port 81 True,
      connectionCallback = Some DefaultConnectionCallback, messageCallback = Some DefaultMessageCallback,
      writeCompleteCallback = Some 3, highWaterMarkCallback = Some 4, tc_closeCallback = Some 7,
      highWaterMark = 4, inputBuffer = demo_buffer [], outputBuffer = demo_buffer out\<rparr>"

definition demo_events :: "byte list \<Rightarrow> cint" where
  "demo_events out = (if out = [] then 3 else 7)"

definition demo_chan :: "byte list \<Rightarrow> callback channel" where
  "demo_chan out = (Channel_ctor 21 1 5)\<lparr>ch_index := kAdded, ch_events := demo_events out,
     ch_tie := Some 20, ch_tied := True, readCallback := Some (TcpConnection_handleRead 20),
     writeCallback := Some (TcpConnection_handleWrite 20),
     closeCallback := Some (TcpConnection_handleClose 20),
     errorCallback := Some (TcpConnection_handleError 20)\<rparr>"

definition demo_eventloop :: "byte list \<Rightarrow> eventloop" where
  "demo_eventloop out = \<lparr>el_addr = 1, el_looping = True, el_quit = False, el_threadId = 100,
     el_pollReturnTime = 0,
     el_poller = \<lparr>pl_loop = 1, pl_channels = [5 \<mapsto> 21], pl_epollfd = 3, pl_events_size = 16,
                  pl_interest = [5 \<mapsto> \<lparr>ev_events = demo_events out, ev_ptr = 21\<rparr>]\<rparr>,
     el_wakeupFd = 4, el_wakeupChannel = 2, el_activeChannels = [], el_callingPendingFunctors = False,
     el_pendingFunctors = [], el_wakeups = 0\<rparr>"

definition demo_server :: tcp_server where
  "demo_server = \<lparr>sv_loop = 1, sv_ipPort = ''0.0.0.0:80'', sv_name = ''s'', sv_acceptor = 8,
     sv_threadPool = EventLoopThreadPool_ctor 1 ''s'', sv_connectionCallback = Some DefaultConnectionCallback,
     sv_messageCallback = Some DefaultMessageCallback, sv_writeCompleteCallback = None,
     sv_threadInitCallback = None, sv_started = 1, sv_nextConnId = 2, sv_connections = [''c'' \<mapsto> 20]\<rparr>"

definition demo_world :: "StateE \<Rightarrow> byte list \<Rightarrow> world" where
  "demo_world st out = \<lparr>w_conns = [20 \<mapsto> demo_conn st out], w_chans = [21 \<mapsto> demo_chan out],
     w_loops = [1 \<mapsto> demo_eventloop out], w_acceptors = Map.empty, w_servers = [7 \<mapsto> demo_server],
     w_strings = [50 \<mapsto> [104, 105]]\<rparr>"

lemma demo_buffer_ok:
  assumes "length bs < 1000"
  shows "buffer_inv (demo_buffer bs)" "content (demo_buffer bs) = bs" "has_room 1000 (demo_buffer bs)"
proof -
  have u: "unat (8 + of_nat (length bs) :: size_t) = 8 + length bs"
    using assms by (subst unat_add_size) (simp_all add: unat_of_nat_size)
  show "buffer_inv (demo_buffer bs)"
    using assms by (simp add: buffer_inv_def demo_buffer_def u vector_max_def)
  show "content (demo_buffer bs) = bs" by (simp add: content_def demo_buffer_def u)
  show "has_room 1000 (demo_buffer bs)"
    using assms by (simp add: has_room_def demo_buffer_def u vector_max_def)
qed

lemma demo_world_ok:
  assumes "length out < 1000" "st \<noteq> kDisconnected"
  shows "world_ok (demo_world st out)"
proof -
  have chans: "chans_of lp (demo_world st out) = (if lp = 1 then [21 \<mapsto> demo_chan out] else Map.empty)" for lp
    by (simp add: chans_of_def demo_world_def fun_eq_iff) (simp add: demo_chan_def Channel_ctor_def)
  have p: "poller_ok ([21 \<mapsto> demo_chan out], el_poller (demo_eventloop out))"
    by (simp add: poller_ok_def registry_ok_def demo_eventloop_def demo_chan_def Channel_ctor_def
        poller_view_def chan_inv_def registered_def watched_def index_defs)
  have wr: "isWriting (demo_chan out) = (out \<noteq> [])"
    by (simp add: isWriting_def demo_chan_def Channel_ctor_def demo_events_def)
  have c: "conn_ok (demo_world st out) (demo_conn st out)"
    using assms demo_buffer_ok [of out] demo_buffer_ok [of "[]"] wr
    by (simp add: conn_ok_def demo_world_def demo_conn_def)
      (simp add: demo_chan_def Channel_ctor_def Socket_ctor_def)
  have h: "handlers_ok (demo_chan out)" by (simp add: handlers_ok_def demo_chan_def Channel_ctor_def)
  have l: "ch_loop (demo_chan out) = 1" by (simp add: demo_chan_def Channel_ctor_def)
  show ?thesis
    unfolding world_ok_def chans
    using p c l h by (simp add: demo_world_def vector_max_def)
qed

subsection \<open>Sending\<close>

text \<open>The high-water mark, in numbers of bytes.\<close>

lemma high_water_bytes:
  assumes "buffer_inv (outputBuffer c)" "length (content (outputBuffer c)) + k < 2 ^ 64"
  shows "high_water a c (of_nat k) =
    (if length (content (outputBuffer c)) < unat (highWaterMark c) \<and>
        unat (highWaterMark c) \<le> length (content (outputBuffer c)) + k
     then map_option (\<lambda>cb. HighWaterMark cb a (of_nat (length (content (outputBuffer c)) + k)))
            (highWaterMarkCallback c) else None)"
proof -
  let ?old = "readableBytes (outputBuffer c)" and ?n = "length (content (outputBuffer c))"
  have o: "unat ?old = ?n" by (simp add: length_content assms(1))
  have k: "unat (of_nat k :: size_t) = k" by (rule unat_of_nat_size) (use assms(2) in simp)
  have s: "unat (?old + of_nat k) = ?n + k"
    by (subst unat_add_size) (use assms(2) o k in simp_all)
  then have w: "?old + of_nat k = of_nat (?n + k)" unfolding s [symmetric] by simp
  show ?thesis
    unfolding high_water_def Let_def w
    using o s w by (simp add: word_le_nat_alt word_less_nat_alt)
qed

lemma refused_taken: "refused sys c bs \<Longrightarrow> taken sys c bs = 0"
  by (auto simp: refused_def taken_def)

text \<open>
  C10: sending keeps the byte stream. \<open>sendInLoop\<close> on a connection that is not disconnected succeeds
  when the output buffer has room; the bytes handed to the kernel followed by the bytes still
  waiting are then what they were before followed by the whole message, whatever part of it
  the kernel took; only when a direct write fails with \<open>EPIPE\<close> or \<open>ECONNRESET\<close> is the message given up, and then
  nothing of it is kept. The invariant of the world holds afterwards, so write events are on exactly
  when bytes wait.
\<close>

theorem send_keeps_stream:
  assumes "kernel sys" and "world_ok w" and "w_conns w a = Some c" and "tc_state c \<noteq> kDisconnected"
    and "read_mem msg len w = Inr bs" and "has_room (length bs) (outputBuffer c)"
  shows "\<exists>w' c'. sendInLoop sys tid a msg len w = Inr w' \<and> world_ok w' \<and> w_conns w' a = Some c' \<and>
    pipe c' = pipe c @ (if refused sys c bs then [] else bs) \<and>
    sk_sent (tc_socket c') = sk_sent (tc_socket c) @ take (taken sys c bs) bs \<and>
    tc_state c' = tc_state c \<and> inputBuffer c' = inputBuffer c"
proof -
  have room: "has_room (length bs - taken sys c bs) (outputBuffer c) \<or> refused sys c bs"
    using has_room_mono [OF assms(6)] by simp
  obtain b ch' l' where
    r: "sendInLoop sys tid a msg len w =
      Inr (install a (c\<lparr>tc_socket := kernel_took (int (taken sys c bs)) bs (tc_socket c), outputBuffer := b\<rparr>) ch' l' w)"
      "world_ok (install a (c\<lparr>tc_socket := kernel_took (int (taken sys c bs)) bs (tc_socket c), outputBuffer := b\<rparr>) ch' l' w)"
      "content b = content (outputBuffer c) @ (if refused sys c bs then [] else drop (taken sys c bs) bs)"
    using kernel.sendInLoop_run [OF assms(1-5) room, of tid] unfolding send_result_def by blast
  have "pipe (c\<lparr>tc_socket := kernel_took (int (taken sys c bs)) bs (tc_socket c), outputBuffer := b\<rparr>) =
      pipe c @ (if refused sys c bs then [] else bs)"
    using r(3) refused_taken [of sys c bs] by (auto simp: pipe_def taken_def)
  then show ?thesis
    using r(1,2)
    by (intro exI [of _ "install a (c\<lparr>tc_socket := kernel_took (int (taken sys c bs)) bs (tc_socket c),
          outputBuffer := b\<rparr>) ch' l' w"]
        exI [of _ "c\<lparr>tc_socket := kernel_took (int (taken sys c bs)) bs (tc_socket c), outputBuffer := b\<rparr>"])
      simp
qed

theorem send_keeps_stream_witness:
  "\<exists>w' c'. sendInLoop (os_with 1 [] []) 100 20 50 2 (demo_world kConnected []) = Inr w' \<and>
     w_conns w' 20 = Some c' \<and> pipe c' = [104, 105] \<and> sk_sent (tc_socket c') = [104]"
proof -
  let ?w = "demo_world kConnected []" and ?c = "demo_conn kConnected []"
  note b = demo_buffer_ok [of "[]"]
  have c: "w_conns ?w 20 = Some ?c" "tc_state ?c \<noteq> kDisconnected"
    by (simp_all add: demo_world_def demo_conn_def)
  have m: "read_mem 50 2 ?w = Inr [104, 105]" by (simp add: read_mem_def demo_world_def)
  have room: "has_room (length ([104, 105] :: byte list)) (outputBuffer ?c)"
    using b(3) by (simp add: demo_conn_def) (erule has_room_mono, simp)
  have "sys_write (os_with 1 [] []) 5 [104, 105] = (1, EAGAIN)" by (simp add: os_with_def)
  then have f: "\<not> refused (os_with 1 [] []) ?c [104, 105]" "taken (os_with 1 [] []) ?c [104, 105] = 1"
    using b(2) by (simp_all add: refused_def taken_def demo_conn_def Socket_ctor_def)
  have s: "pipe ?c = []" "sk_sent (tc_socket ?c) = []" using b(2)
    by (simp_all add: pipe_def demo_conn_def Socket_ctor_def)
  from send_keeps_stream [OF os_with_kernel.kernel_axioms [of 1 "[]" "[]"] demo_world_ok c m room, of 100] f s
  show ?thesis by auto
qed

text \<open>Which functors a send queues, in numbers of bytes; \<open>b\<close> is the output buffer that it leaves.\<close>

lemma queued_by_send:
  assumes "buffer_inv (outputBuffer c)" "length (content b) \<le> vector_max"
    and b: "content b = content (outputBuffer c) @ (if refused sys c bs then [] else drop (taken sys c bs) bs)"
  shows "(let old = length (content (outputBuffer c)); left = (if refused sys c bs then 0 else length bs - taken sys c bs)
     in opt_to_list (if content (outputBuffer c) = [] \<and> P then write_done a c else None) @
        opt_to_list (if \<not> refused sys c bs \<and> taken sys c bs < length bs
                     then high_water a c (of_nat (length bs - taken sys c bs)) else None) =
       (if old = 0 \<and> P then opt_to_list (map_option (\<lambda>cb. WriteComplete cb a) (writeCompleteCallback c)) else []) @
       (if 0 < left \<and> old < unat (highWaterMark c) \<and> unat (highWaterMark c) \<le> old + left
        then opt_to_list (map_option (\<lambda>cb. HighWaterMark cb a (of_nat (old + left))) (highWaterMarkCallback c))
        else []))"
proof (cases "refused sys c bs")
  case True
  then show ?thesis by (simp add: Let_def opt_to_list_def write_done_def)
next
  case False
  have "length (content (outputBuffer c)) + (length bs - taken sys c bs) < 2 ^ 64"
    using assms(2) False b vector_max_less [of "length (content b)"] by simp
  note hw = high_water_bytes [OF assms(1) this, of a]
  have e: "(content (outputBuffer c) = []) = (length (content (outputBuffer c)) = 0)" by simp
  have o: "opt_to_list (if Q then x else None) = (if Q then opt_to_list x else [])" for Q and x :: "Functor option"
    by (simp add: opt_to_list_def)
  show ?thesis using False unfolding Let_def o e write_done_def hw by (simp del: of_nat_add)
qed

text \<open>
  C21: the user is told exactly when. After \<open>sendInLoop\<close> the queue of the connection's loop has
  grown by the write-complete callback when the message went out in one write from an empty buffer, and
  by the high-water callback, with the new amount, when what is left to send carries the buffer
  from below the mark to the mark or past it; by nothing else.
\<close>

theorem send_notifies:
  assumes "kernel sys" and "world_ok w" and "w_conns w a = Some c" and "tc_state c \<noteq> kDisconnected"
    and "read_mem msg len w = Inr bs" and "has_room (length bs) (outputBuffer c)"
  shows "\<exists>w' l l'. sendInLoop sys tid a msg len w = Inr w' \<and> w_loops w (tc_loop c) = Some l \<and>
    w_loops w' (tc_loop c) = Some l' \<and>
    (let old = length (content (outputBuffer c));
         left = (if refused sys c bs then 0 else length bs - taken sys c bs)
     in el_pendingFunctors l' = el_pendingFunctors l @
       (if old = 0 \<and> fst (sys_write sys (sockfd (tc_socket c)) bs) = int (length bs)
        then opt_to_list (map_option (\<lambda>cb. WriteComplete cb a) (writeCompleteCallback c)) else []) @
       (if 0 < left \<and> old < unat (highWaterMark c) \<and> unat (highWaterMark c) \<le> old + left
        then opt_to_list (map_option (\<lambda>cb. HighWaterMark cb a (of_nat (old + left))) (highWaterMarkCallback c))
        else []))"
proof -
  have room: "has_room (length bs - taken sys c bs) (outputBuffer c) \<or> refused sys c bs"
    using has_room_mono [OF assms(6)] by simp
  let ?c' = "\<lambda>b. c\<lparr>tc_socket := kernel_took (int (taken sys c bs)) bs (tc_socket c), outputBuffer := b\<rparr>"
  obtain ch l b ch' l' where at: "attached a c ch l w" and
    r: "sendInLoop sys tid a msg len w = Inr (install a (?c' b) ch' l' w)" "world_ok (install a (?c' b) ch' l' w)"
      "content b = content (outputBuffer c) @ (if refused sys c bs then [] else drop (taken sys c bs) bs)"
    and pend: "el_pendingFunctors l' = el_pendingFunctors l @
      (opt_to_list (if content (outputBuffer c) = [] \<and>
                       fst (sys_write sys (sockfd (tc_socket c)) bs) = int (length bs)
                    then write_done a c else None) @
       opt_to_list (if \<not> refused sys c bs \<and> taken sys c bs < length bs
                    then high_water a c (of_nat (length bs - taken sys c bs)) else None))"
    using kernel.sendInLoop_run [OF assms(1-5) room, of tid] unfolding send_result_def by blast
  have "w_conns (install a (?c' b) ch' l' w) a = Some (?c' b)" by simp
  then have bl: "length (content b) \<le> vector_max"
    using conn_inv [OF r(2), of a "?c' b"] length_content_max [of b] by simp
  have ls: "w_loops w (tc_loop c) = Some l" "w_loops (install a (?c' b) ch' l' w) (tc_loop c) = Some l'"
    using at by (simp_all add: attached_def)
  have inv: "buffer_inv (outputBuffer c)" using conn_inv [OF assms(2,3)] by simp
  show ?thesis
    unfolding pend
    by (intro exI conjI, rule r(1), rule ls(1), rule ls(2))
      (use pend queued_by_send [OF inv bl r(3)] in \<open>simp only: Let_def append.assoc\<close>)
qed

theorem send_notifies_witness:
  "\<exists>w' l'. sendInLoop (os_with 9 [] []) 100 20 50 2 (demo_world kConnected [1, 2, 3]) = Inr w' \<and>
     w_loops w' 1 = Some l' \<and> el_pendingFunctors l' = [HighWaterMark 4 20 5]"
proof -
  let ?w = "demo_world kConnected [1, 2, 3]" and ?c = "demo_conn kConnected [1, 2, 3]"
  note b = demo_buffer_ok [of "[1, 2, 3]"]
  have c: "w_conns ?w 20 = Some ?c" "tc_state ?c \<noteq> kDisconnected"
    by (simp_all add: demo_world_def demo_conn_def)
  have m: "read_mem 50 2 ?w = Inr [104, 105]" by (simp add: read_mem_def demo_world_def)
  have room: "has_room (length ([104, 105] :: byte list)) (outputBuffer ?c)"
    using b(3) by (simp add: demo_conn_def) (erule has_room_mono, simp)
  have out: "content (outputBuffer ?c) = [1, 2, 3]" using b(2) by (simp add: demo_conn_def)
  have f: "\<not> refused (os_with 9 [] []) ?c [104, 105]" "taken (os_with 9 [] []) ?c [104, 105] = 0"
    by (simp_all add: refused_def taken_def out)
  have k: "tc_loop ?c = 1" "highWaterMark ?c = 4" "highWaterMarkCallback ?c = Some 4"
      "w_loops ?w 1 = Some (demo_eventloop [1, 2, 3])" "el_pendingFunctors (demo_eventloop [1, 2, 3]) = []"
    by (simp_all add: demo_conn_def demo_world_def demo_eventloop_def)
  from send_notifies [OF os_with_kernel.kernel_axioms [of 9 "[]" "[]"] demo_world_ok c m room, of 100] f k out
  show ?thesis by (auto simp: opt_to_list_def)
qed

subsection \<open>The write event and shutting down\<close>

lemma drained_facts:
  assumes "content b = []" "nat n = length (content (outputBuffer c))"
  shows "tc_channel (drained sys c n b) = tc_channel c" "tc_loop (drained sys c n b) = tc_loop c"
    "outputBuffer (drained sys c n b) = b" "pipe (drained sys c n b) = pipe c"
    "sk_sent (tc_socket (drained sys c n b)) = pipe c"
    "sk_shut_wr (tc_socket (drained sys c n b)) = (sk_shut_wr (tc_socket c) \<or>
       tc_state c = kDisconnecting \<and> 0 \<le> sys_shutdown sys (sockfd (tc_socket c)))"
  using assms by (simp_all add: drained_def Let_def pipe_def) (simp_all add: shutdownWrite_def)

text \<open>
  C17: the write event moves the waiting bytes on. With bytes waiting, \<open>handleWrite\<close> never fails: it takes
  from the buffer exactly the bytes the kernel accepted, in order, and leaves the stream unchanged;
  the channel stops asking for write events, and the write-complete callback is queued,
  exactly when nothing is left; and the write side is shut down then and only then if a shutdown is
  under way.
\<close>

theorem write_event:
  assumes "kernel (e_sys env)" and "world_ok w" and "w_conns w a = Some c"
    and "tc_state c \<noteq> kDisconnected" and "content (outputBuffer c) \<noteq> []"
    and "sys_write (e_sys env) (sockfd (tc_socket c)) (content (outputBuffer c)) = (n, e)"
  shows "\<exists>w' c' ch' l l'. handleWrite env a w = Inr w' \<and> world_ok w' \<and> w_conns w' a = Some c' \<and>
    w_chans w' (tc_channel c) = Some ch' \<and> w_loops w (tc_loop c) = Some l \<and> w_loops w' (tc_loop c) = Some l' \<and>
    pipe c' = pipe c \<and> content (outputBuffer c') = drop (nat n) (content (outputBuffer c)) \<and>
    isWriting ch' = (nat n < length (content (outputBuffer c))) \<and>
    el_pendingFunctors l' = el_pendingFunctors l @
      (if nat n = length (content (outputBuffer c))
       then opt_to_list (map_option (\<lambda>cb. WriteComplete cb a) (writeCompleteCallback c)) else []) \<and>
    sk_shut_wr (tc_socket c') = (sk_shut_wr (tc_socket c) \<or>
      nat n = length (content (outputBuffer c)) \<and> tc_state c = kDisconnecting \<and>
      0 \<le> sys_shutdown (e_sys env) (sockfd (tc_socket c)))"
proof -
  let ?out = "content (outputBuffer c)"
  have le: "n \<le> int (length ?out)"
    by (rule posix_io.write_le [OF _ assms(6)]) (use assms(1) in \<open>simp add: kernel_def\<close>)
  have pos: "0 < length ?out" using assms(5) by simp
  consider "n \<le> 0" | "0 < n" "nat n < length ?out" | "0 < n" "nat n = length ?out"
    using le pos by linarith
  then show ?thesis
  proof cases
    case 1
    from attachedE [OF assms(2,3)] obtain ch l where at: "attached a c ch l w"
      and wr: "isWriting ch = (tc_state c \<noteq> kDisconnected \<and> ?out \<noteq> [])" by blast
    have "handleWrite env a w = Inr w"
      by (rule kernel.handleWrite_error [OF assms(1) refl assms(2-6) 1])
    then show ?thesis
      using assms(2,4,5) at wr 1 pos
      by (intro exI [of _ w] exI [of _ c] exI [of _ ch] exI [of _ l] exI [of _ l]) (simp add: attached_def)
  next
    case 2
    from kernel.handleWrite_partial [OF assms(1) refl assms(2-6) 2] obtain b ch l where
      r: "attached a c ch l w"
        "handleWrite env a w = Inr (install a (c\<lparr>outputBuffer := b, tc_socket := kernel_took n ?out (tc_socket c)\<rparr>) ch l w)"
        "world_ok (install a (c\<lparr>outputBuffer := b, tc_socket := kernel_took n ?out (tc_socket c)\<rparr>) ch l w)"
        "content b = drop (nat n) ?out" by blast
    from attachedE [OF assms(2,3)] r(1) have "isWriting ch"
      using assms(4,5) by (auto simp: attached_def)
    then show ?thesis
      using r 2
      by (intro exI [of _ "install a (c\<lparr>outputBuffer := b, tc_socket := kernel_took n ?out (tc_socket c)\<rparr>) ch l w"]
          exI [of _ "c\<lparr>outputBuffer := b, tc_socket := kernel_took n ?out (tc_socket c)\<rparr>"]
          exI [of _ ch] exI [of _ l] exI [of _ l]) (simp add: attached_def pipe_def)
  next
    case 3
    from kernel.handleWrite_last [OF assms(1) refl assms(2-6) 3] obtain b ch l ch' l' where
      r: "attached a c ch l w" "handleWrite env a w = Inr (install a (drained (e_sys env) c n b) ch' l' w)"
        "world_ok (install a (drained (e_sys env) c n b) ch' l' w)" "content b = []" "\<not> isWriting ch'"
        "el_pendingFunctors l' = el_pendingFunctors l @ opt_to_list (write_done a c)" by blast
    note d = drained_facts [OF r(4) 3(2), of "e_sys env"]
    show ?thesis
      using r 3 d
      by (intro exI [of _ "install a (drained (e_sys env) c n b) ch' l' w"] exI [of _ "drained (e_sys env) c n b"]
          exI [of _ ch'] exI [of _ l] exI [of _ l']) (simp add: attached_def write_done_def)
  qed
qed

definition demo_env :: "nat \<Rightarrow> env" where
  "demo_env cap = \<lparr>e_sys = os_with cap [] [], e_tid = 100, e_user = (\<lambda>_ _. []),
     e_accept = (\<lambda>_. (9, EAGAIN, InetAddress_port 4000 True)),
     e_sockname = (\<lambda>_. Some (InetAddress_port 80 False)), e_new = (30, 31)\<rparr>"

lemma demo_env_sel [simp]: "e_sys (demo_env cap) = os_with cap [] []" "e_tid (demo_env cap) = 100"
  by (simp_all add: demo_env_def)

lemma demo_world_sel:
  "w_conns (demo_world st out) 20 = Some (demo_conn st out)"
  "w_chans (demo_world st out) 21 = Some (demo_chan out)"
  "w_loops (demo_world st out) 1 = Some (demo_eventloop out)"
  "w_loops (demo_world st out) (Suc 0) = Some (demo_eventloop out)"
  "w_servers (demo_world st out) 7 = Some demo_server"
  "w_strings (demo_world st out) 50 = Some [104, 105]"
  by (simp_all add: demo_world_def)

lemma demo_conn_sel:
  "tc_state (demo_conn st out) = st" "tc_loop (demo_conn st out) = 1" "tc_channel (demo_conn st out) = 21"
  "sockfd (tc_socket (demo_conn st out)) = 5" "sk_sent (tc_socket (demo_conn st out)) = []"
  "\<not> sk_shut_wr (tc_socket (demo_conn st out))" "tc_name (demo_conn st out) = ''c''"
  "writeCompleteCallback (demo_conn st out) = Some 3" "tc_closeCallback (demo_conn st out) = Some 7"
  "connectionCallback (demo_conn st out) = Some DefaultConnectionCallback"
  "length out < 1000 \<Longrightarrow> content (outputBuffer (demo_conn st out)) = out"
  "length out < 1000 \<Longrightarrow> pipe (demo_conn st out) = out"
  using demo_buffer_ok [of out] by (simp_all add: demo_conn_def Socket_ctor_def pipe_def)

lemma demo_loop_sel:
  "el_threadId (demo_eventloop out) = 100" "el_pendingFunctors (demo_eventloop out) = []"
  by (simp_all add: demo_eventloop_def)

theorem write_event_witness:
  "\<exists>w' c' l'. handleWrite (demo_env 9) 20 (demo_world kDisconnecting [1, 2, 3]) = Inr w' \<and>
     w_conns w' 20 = Some c' \<and> w_loops w' 1 = Some l' \<and> pipe c' = [1, 2, 3] \<and>
     content (outputBuffer c') = [] \<and> el_pendingFunctors l' = [WriteComplete 3 20] \<and>
     sk_shut_wr (tc_socket c')"
proof -
  let ?w = "demo_world kDisconnecting [1, 2, 3]" and ?c = "demo_conn kDisconnecting [1, 2, 3]"
  have k: "kernel (e_sys (demo_env 9))" by (simp add: os_with_kernel.kernel_axioms)
  have ok: "world_ok ?w" by (rule demo_world_ok) simp_all
  have s: "sys_write (e_sys (demo_env 9)) (sockfd (tc_socket ?c)) (content (outputBuffer ?c)) = (3, EAGAIN)"
    "sys_shutdown (e_sys (demo_env 9)) 5 = 0"
    by (simp_all add: demo_conn_sel) (simp_all add: os_with_def)
  have live: "tc_state ?c \<noteq> kDisconnected" "content (outputBuffer ?c) \<noteq> []" by (simp_all add: demo_conn_sel)
  from write_event [OF k ok demo_world_sel(1) live s(1)] s(2) show ?thesis
    by (auto simp: demo_conn_sel demo_world_sel demo_loop_sel opt_to_list_def)
qed

lemma shutdown_in_loop:
  assumes "world_ok w" "w_conns w a = Some c" "tc_state c = kConnected"
    and "w_loops w (tc_loop c) = Some l" "isInLoopThread tid l"
  shows "shutdown sys tid a w = Inr (put_conn a
    (if content (outputBuffer c) = []
     then (setState kDisconnecting c)\<lparr>tc_socket := shutdownWrite sys (tc_socket c)\<rparr>
     else setState kDisconnecting c) w)"
proof -
  from attachedE [OF assms(1,2)] obtain ch l0 where at: "attached a c ch l0 w"
    and wr: "isWriting ch = (tc_state c \<noteq> kDisconnected \<and> content (outputBuffer c) \<noteq> [])" by blast
  let ?w1 = "put_conn a (setState kDisconnecting c) w"
  have "shutdown sys tid a w = shutdownInLoop sys a ?w1"
    using assms(2-5)
    by (simp add: shutdown_def the_conn_def run_call_def the_loop_def runInLoop_def loop_at_def put_conn_def)
  also have "\<dots> = Inr (put_conn a
    (if content (outputBuffer c) = []
     then (setState kDisconnecting c)\<lparr>tc_socket := shutdownWrite sys (tc_socket c)\<rparr>
     else setState kDisconnecting c) w)"
    using at wr assms(3)
    by (simp add: shutdownInLoop_def the_conn_def the_chan_def put_conn_def setState_def attached_def)
  finally show ?thesis .
qed

lemma keeps_shutdown_state:
  assumes "world_ok w" "w_conns w a = Some c" "tc_state c = kConnected"
  shows "world_ok (put_conn a (setState kDisconnecting c) w)"
proof -
  have "conn_le c (setState kDisconnecting c)"
    by (rule conn_le_setState) (simp add: assms(3) less_eq_StateE_def)
  from keeps_put_conn [OF assms(1,2) this] conn_inv [OF assms(1,2)] assms(3) show ?thesis
    by (simp add: setState_def)
qed

text \<open>
  What a closing connection may meet: write events, and the queued \<open>shutdownInLoop\<close> when \<open>shutdown\<close> was called on another
  thread; each with answers of the system of its own.
\<close>

datatype closing_event = WriteEvent env | ShutdownFunctor env

primrec event_env :: "closing_event \<Rightarrow> env" where
  "event_env (WriteEvent env) = env"
| "event_env (ShutdownFunctor env) = env"

primrec closing_do :: "closing_event \<Rightarrow> ptr \<Rightarrow> world \<Rightarrow> fault + world" where
  "closing_do (WriteEvent env) a = handleWrite env a"
| "closing_do (ShutdownFunctor env) a = shutdownInLoop (e_sys env) a"

primrec closing_run :: "closing_event list \<Rightarrow> ptr \<Rightarrow> world \<Rightarrow> fault + world" where
  "closing_run [] a w = Inr w"
| "closing_run (x # xs) a w = bindE (closing_do x a w) (closing_run xs a)"

text \<open>A write event in which the kernel takes something from the descriptor \<open>fd\<close>, if there is anything to take.\<close>

definition takes :: "int \<Rightarrow> closing_event \<Rightarrow> bool" where
  "takes fd x \<longleftrightarrow> (\<exists>env. x = WriteEvent env \<and> (\<forall>bs. bs \<noteq> [] \<longrightarrow> 0 < fst (sys_write (e_sys env) fd bs)))"

text \<open>The connection at \<open>a\<close> is on its way down, has accepted \<open>P\<close>, and is not closed for writing while bytes of it wait.\<close>

definition closing :: "ptr \<Rightarrow> byte list \<Rightarrow> int \<Rightarrow> world \<Rightarrow> tcp_connection \<Rightarrow> bool" where
  "closing a P fd w c \<longleftrightarrow> world_ok w \<and> w_conns w a = Some c \<and> tc_state c = kDisconnecting \<and> pipe c = P \<and>
     sockfd (tc_socket c) = fd \<and> (sk_shut_wr (tc_socket c) \<longrightarrow> content (outputBuffer c) = [])"

definition settles :: "tcp_connection \<Rightarrow> bool" where
  "settles c \<longleftrightarrow> (content (outputBuffer c) = [] \<longrightarrow> sk_shut_wr (tc_socket c))"

lemma closing_write:
  assumes k: "kernel (e_sys env)" "0 \<le> sys_shutdown (e_sys env) fd" and cl: "closing a P fd w c"
  shows "\<exists>w' c'. handleWrite env a w = Inr w' \<and> closing a P fd w' c' \<and> (settles c \<longrightarrow> settles c') \<and>
    (content (outputBuffer c') = [] \<longrightarrow> content (outputBuffer c) = [] \<or> settles c') \<and>
    length (content (outputBuffer c')) \<le>
      length (content (outputBuffer c)) - (if takes fd (WriteEvent env) then 1 else 0)"
proof (cases "content (outputBuffer c) = []")
  case True
  have "handleWrite env a w = Inr w" by (rule kernel.handleWrite_idle [OF k(1)]) (use cl True in \<open>auto simp: closing_def\<close>)
  then show ?thesis using cl True by auto
next
  case False
  let ?out = "content (outputBuffer c)"
  have ok: "world_ok w" and c: "w_conns w a = Some c" and live: "tc_state c \<noteq> kDisconnected" and open_wr: "\<not> sk_shut_wr (tc_socket c)"
    using cl False by (auto simp: closing_def)
  obtain n e where s: "sys_write (e_sys env) (sockfd (tc_socket c)) ?out = (n, e)" by fastforce
  have taken: "takes fd (WriteEvent env) \<Longrightarrow> 0 < n" using s False cl by (fastforce simp: takes_def closing_def)
  have "posix_io (e_sys env)" using k(1) by (simp add: kernel_def)
  from posix_io.write_le [OF this s] consider "n \<le> 0" | "0 < n" "nat n < length ?out" | "0 < n" "nat n = length ?out" by linarith
  then show ?thesis
  proof cases
    case 1
    have "handleWrite env a w = Inr w" by (rule kernel.handleWrite_error [OF k(1) refl ok c live False s 1])
    then show ?thesis using cl 1 taken False by (intro exI [of _ w] exI [of _ c]) auto
  next
    case 2
    from kernel.handleWrite_partial [OF k(1) refl ok c live False s 2] obtain b ch l where
      r: "handleWrite env a w = Inr (install a (c\<lparr>outputBuffer := b, tc_socket := kernel_took n ?out (tc_socket c)\<rparr>) ch l w)"
        "world_ok (install a (c\<lparr>outputBuffer := b, tc_socket := kernel_took n ?out (tc_socket c)\<rparr>) ch l w)"
        "content b = drop (nat n) ?out" by blast
    let ?c' = "c\<lparr>outputBuffer := b, tc_socket := kernel_took n ?out (tc_socket c)\<rparr>"
    have "closing a P fd (install a ?c' ch l w) ?c'" using r cl open_wr by (simp add: closing_def pipe_def)
    moreover have "content (outputBuffer ?c') \<noteq> []" "length (content (outputBuffer ?c')) \<le> length ?out - 1" using r(3) 2 by auto
    ultimately show ?thesis using r(1) by (intro exI [of _ "install a ?c' ch l w"] exI [of _ ?c']) (auto simp: settles_def)
  next
    case 3
    from kernel.handleWrite_last [OF k(1) refl ok c live False s 3] obtain b ch' l' where
      r: "handleWrite env a w = Inr (install a (drained (e_sys env) c n b) ch' l' w)"
        "world_ok (install a (drained (e_sys env) c n b) ch' l' w)" "content b = []" by blast
    let ?c' = "drained (e_sys env) c n b"
    have "sk_shut_wr (tc_socket ?c')" "content (outputBuffer ?c') = []" "pipe ?c' = P"
      using drained_facts [OF r(3) 3(2), of "e_sys env"] cl k(2) r(3) by (auto simp: closing_def)
    moreover have "tc_state ?c' = kDisconnecting" "sockfd (tc_socket ?c') = fd"
      using cl by (simp_all add: drained_def closing_def Let_def)
    ultimately show ?thesis using r(1,2)
      by (intro exI [of _ "install a ?c' ch' l' w"] exI [of _ ?c']) (simp add: closing_def settles_def)
  qed
qed

lemma closing_functor:
  assumes k: "0 \<le> sys_shutdown sys fd" and cl: "closing a P fd w c"
  shows "\<exists>w' c'. shutdownInLoop sys a w = Inr w' \<and> closing a P fd w' c' \<and> settles c' \<and>
    content (outputBuffer c') = content (outputBuffer c)"
proof -
  have ok: "world_ok w" and c: "w_conns w a = Some c" using cl by (simp_all add: closing_def)
  from attachedE [OF ok c] obtain ch l where at: "attached a c ch l w"
    and wr: "isWriting ch = (tc_state c \<noteq> kDisconnected \<and> content (outputBuffer c) \<noteq> [])" by blast
  let ?c' = "if content (outputBuffer c) = [] then c\<lparr>tc_socket := shutdownWrite sys (tc_socket c)\<rparr> else c"
  have run: "shutdownInLoop sys a w = Inr (put_conn a ?c' w)"
  proof (cases "content (outputBuffer c) = []")
    case True
    then show ?thesis using at wr c by (simp add: shutdownInLoop_def the_conn_def the_chan_def attached_def)
  next
    case False
    moreover have "put_conn a c w = w" using c by (simp add: put_conn_def map_upd_triv)
    ultimately show ?thesis using at wr cl by (simp add: shutdownInLoop_def the_conn_def the_chan_def attached_def closing_def)
  qed
  then have "world_ok (put_conn a ?c' w)" using keepsD [OF safe_shutdownInLoop ok] by blast
  then have "closing a P fd (put_conn a ?c' w) ?c'"
    using cl by (auto simp: closing_def put_conn_def pipe_def shutdownWrite_def)
  moreover have "settles ?c'" using k cl by (simp add: settles_def shutdownWrite_def closing_def)
  ultimately show ?thesis using run by (intro exI [of _ "put_conn a ?c' w"] exI [of _ ?c']) auto
qed

lemma closing_runs:
  assumes "\<forall>x \<in> set xs. kernel (e_sys (event_env x)) \<and> 0 \<le> sys_shutdown (e_sys (event_env x)) fd" "closing a P fd w c"
  shows "\<exists>w' c'. closing_run xs a w = Inr w' \<and> closing a P fd w' c' \<and>
    (settles c \<or> (\<exists>env. ShutdownFunctor env \<in> set xs) \<longrightarrow> settles c') \<and>
    length (content (outputBuffer c')) \<le> length (content (outputBuffer c)) - length (filter (takes fd) xs)"
  using assms
proof (induction xs arbitrary: w c)
  case Nil
  then show ?case by auto
next
  case (Cons x xs)
  have "\<exists>w1 c1. closing_do x a w = Inr w1 \<and> closing a P fd w1 c1 \<and> (settles c \<or> (\<exists>env. x = ShutdownFunctor env) \<longrightarrow> settles c1) \<and>
      length (content (outputBuffer c1)) \<le> length (content (outputBuffer c)) - (if takes fd x then 1 else 0)"
  proof (cases x)
    case (WriteEvent env)
    have "\<exists>w' c'. handleWrite env a w = Inr w' \<and> closing a P fd w' c' \<and> (settles c \<longrightarrow> settles c') \<and>
      (content (outputBuffer c') = [] \<longrightarrow> content (outputBuffer c) = [] \<or> settles c') \<and>
      length (content (outputBuffer c')) \<le> length (content (outputBuffer c)) - (if takes fd (WriteEvent env) then 1 else 0)"
      by (rule closing_write [OF _ _ Cons.prems(2)]) (use Cons.prems(1) WriteEvent in auto)
    then show ?thesis using WriteEvent by auto
  next
    case (ShutdownFunctor env)
    then have "\<not> takes fd x" by (simp add: takes_def)
    moreover have "0 \<le> sys_shutdown (e_sys env) fd" using Cons.prems(1) ShutdownFunctor by simp
    ultimately show ?thesis using closing_functor [OF _ Cons.prems(2)] ShutdownFunctor by fastforce
  qed
  then obtain w1 c1 where 1: "closing_do x a w = Inr w1" "closing a P fd w1 c1"
    "settles c \<or> (\<exists>env. x = ShutdownFunctor env) \<longrightarrow> settles c1"
    "length (content (outputBuffer c1)) \<le> length (content (outputBuffer c)) - (if takes fd x then 1 else 0)" by blast
  from Cons.IH [OF _ 1(2)] Cons.prems(1) obtain w2 c2 where 2: "closing_run xs a w1 = Inr w2" "closing a P fd w2 c2"
    "settles c1 \<or> (\<exists>env. ShutdownFunctor env \<in> set xs) \<longrightarrow> settles c2"
    "length (content (outputBuffer c2)) \<le> length (content (outputBuffer c1)) - length (filter (takes fd) xs)" by auto
  have "length (content (outputBuffer c2)) \<le> length (content (outputBuffer c)) - length (filter (takes fd) (x # xs))"
    using 1(4) 2(4) by (simp split: if_splits)
  then show ?case using 1 2 by (intro exI [of _ w2] exI [of _ c2]) auto
qed

text \<open>
  C19: shutting down is graceful. Take a connected connection whose write side is open, call \<open>shutdown\<close> on any thread, and
  let any sequence of write events and queued \<open>shutdownInLoop\<close> functors follow, whatever the kernel takes or refuses in
  each of them (\<open>shutdown(2)\<close> itself does not fail). The call returns (on another thread it queues the functor); none of what follows fails;
  what has been sent and what waits is always the stream that was accepted before, and the write
  side is never closed while a byte of it waits. It is closed as soon as none waits: at once on the loop's own
  thread, else when the queued functor has run. And when the kernel takes something in as many of the write
  events as there were bytes waiting, all that was accepted has been sent. So a write event that closed after a
  partial write, or one that did not close after the last byte, would both contradict this.
\<close>

theorem graceful_shutdown:
  assumes "world_ok w" and "w_conns w a = Some c" and "tc_state c = kConnected" and "\<not> sk_shut_wr (tc_socket c)"
    and "w_loops w (tc_loop c) = Some l" and "0 \<le> sys_shutdown sys (sockfd (tc_socket c))"
    and "\<forall>x \<in> set xs. kernel (e_sys (event_env x)) \<and> 0 \<le> sys_shutdown (e_sys (event_env x)) (sockfd (tc_socket c))"
  shows "\<exists>w1 w2 c2. shutdown sys tid a w = Inr w1 \<and>
    (\<not> isInLoopThread tid l \<longrightarrow> map_option el_pendingFunctors (w_loops w1 (tc_loop c)) = Some (el_pendingFunctors l @ [ShutdownInLoop a])) \<and>
    closing_run xs a w1 = Inr w2 \<and> w_conns w2 a = Some c2 \<and> tc_state c2 = kDisconnecting \<and> pipe c2 = pipe c \<and>
    (sk_shut_wr (tc_socket c2) \<longrightarrow> content (outputBuffer c2) = []) \<and>
    (isInLoopThread tid l \<or> (\<exists>env. ShutdownFunctor env \<in> set xs) \<longrightarrow>
       sk_shut_wr (tc_socket c2) = (content (outputBuffer c2) = [])) \<and>
    (length (content (outputBuffer c)) \<le> length (filter (takes (sockfd (tc_socket c))) xs) \<longrightarrow>
       sk_sent (tc_socket c2) = pipe c)"
proof -
  let ?fd = "sockfd (tc_socket c)" and ?c1 = "setState kDisconnecting c"
  have ok1: "world_ok (put_conn a ?c1 w)" by (rule keeps_shutdown_state [OF assms(1-3)])
  have cl1: "closing a (pipe c) ?fd (put_conn a ?c1 w) ?c1"
    using ok1 assms(4) by (simp add: closing_def put_conn_def setState_def pipe_def)
  have "\<exists>w1 d. shutdown sys tid a w = Inr w1 \<and> closing a (pipe c) ?fd w1 d \<and> (isInLoopThread tid l \<longrightarrow> settles d) \<and>
      content (outputBuffer d) = content (outputBuffer c) \<and>
      (\<not> isInLoopThread tid l \<longrightarrow> map_option el_pendingFunctors (w_loops w1 (tc_loop c)) = Some (el_pendingFunctors l @ [ShutdownInLoop a]))"
  proof (cases "isInLoopThread tid l")
    case True
    from closing_functor [OF assms(6) cl1] obtain w1 d where
      "shutdownInLoop sys a (put_conn a ?c1 w) = Inr w1" "closing a (pipe c) ?fd w1 d" "settles d"
        "content (outputBuffer d) = content (outputBuffer ?c1)" by blast
    moreover from this have "shutdown sys tid a w = Inr w1"
      using assms(2,3,5) True by (simp add: shutdown_def the_conn_def run_call_def the_loop_def runInLoop_def loop_at_def put_conn_def)
    ultimately show ?thesis using True by (auto simp: setState_def)
  next
    case False
    let ?w1 = "upd_loop (tc_loop c) (queueInLoop sys tid (ShutdownInLoop a)) (put_conn a ?c1 w)"
    have run: "shutdown sys tid a w = Inr ?w1"
      using assms(2,3,5) False by (simp add: shutdown_def the_conn_def run_call_def the_loop_def runInLoop_def loop_at_def put_conn_def)
    have "closing a (pipe c) ?fd ?w1 ?c1"
      using cl1 keepsD [OF safe_shutdown assms(1) run] by (simp add: closing_def upd_loop_def put_loop_def)
    moreover have "map_option el_pendingFunctors (w_loops ?w1 (tc_loop c)) = Some (el_pendingFunctors l @ [ShutdownInLoop a])"
      using assms(5) by (simp add: upd_loop_def put_loop_def loop_at_def put_conn_def)
    ultimately show ?thesis using run False by (auto simp: setState_def)
  qed
  then obtain w1 d where 1: "shutdown sys tid a w = Inr w1" "closing a (pipe c) ?fd w1 d" "isInLoopThread tid l \<longrightarrow> settles d"
      "content (outputBuffer d) = content (outputBuffer c)"
      "\<not> isInLoopThread tid l \<longrightarrow> map_option el_pendingFunctors (w_loops w1 (tc_loop c)) = Some (el_pendingFunctors l @ [ShutdownInLoop a])"
    by blast
  from closing_runs [OF assms(7) 1(2)] obtain w2 c2 where 2: "closing_run xs a w1 = Inr w2" "closing a (pipe c) ?fd w2 c2"
    "settles d \<or> (\<exists>env. ShutdownFunctor env \<in> set xs) \<longrightarrow> settles c2"
    "length (content (outputBuffer c2)) \<le> length (content (outputBuffer d)) - length (filter (takes ?fd) xs)" by blast
  have "sk_sent (tc_socket c2) = pipe c" if "length (content (outputBuffer c)) \<le> length (filter (takes ?fd) xs)"
    using 2(2,4) that 1(4) by (simp add: closing_def pipe_def)
  moreover have "sk_shut_wr (tc_socket c2) \<longrightarrow> content (outputBuffer c2) = []" "w_conns w2 a = Some c2"
      "tc_state c2 = kDisconnecting" "pipe c2 = pipe c"
    using 2(2) by (simp_all add: closing_def)
  moreover have "isInLoopThread tid l \<or> (\<exists>env. ShutdownFunctor env \<in> set xs) \<longrightarrow>
      sk_shut_wr (tc_socket c2) = (content (outputBuffer c2) = [])"
    using 1(3) 2(3) calculation(2) unfolding settles_def by blast
  ultimately show ?thesis using 1(1,5) 2(1) by blast
qed

text \<open>Two bytes wait; the first write event takes one of them, the second the other.\<close>

theorem graceful_shutdown_witness:
  "\<exists>w1 w2 c2. shutdown (os_with 9 [] []) 100 20 (demo_world kConnected [1, 2]) = Inr w1 \<and>
     closing_run [WriteEvent (demo_env 1), WriteEvent (demo_env 1)] 20 w1 = Inr w2 \<and> w_conns w2 20 = Some c2 \<and>
     sk_sent (tc_socket c2) = [1, 2] \<and> sk_shut_wr (tc_socket c2)"
proof -
  let ?w = "demo_world kConnected [1, 2]" and ?c = "demo_conn kConnected [1, 2]"
  let ?xs = "[WriteEvent (demo_env 1), WriteEvent (demo_env 1)]"
  have ok: "world_ok ?w" by (rule demo_world_ok) simp_all
  have l: "w_loops ?w (tc_loop ?c) = Some (demo_eventloop [1, 2])" "isInLoopThread 100 (demo_eventloop [1, 2])"
    by (simp_all add: demo_world_sel demo_conn_sel isInLoopThread_def demo_loop_sel)
  have s: "tc_state ?c = kConnected" "\<not> sk_shut_wr (tc_socket ?c)" "0 \<le> sys_shutdown (os_with 9 [] []) (sockfd (tc_socket ?c))"
    by (simp_all add: demo_conn_sel) (simp add: os_with_def)
  have k: "\<forall>x \<in> set ?xs. kernel (e_sys (event_env x)) \<and> 0 \<le> sys_shutdown (e_sys (event_env x)) (sockfd (tc_socket ?c))"
    by (simp add: os_with_kernel.kernel_axioms) (simp add: os_with_def)
  have t: "takes fd (WriteEvent (demo_env 1))" for fd by (auto simp: takes_def os_with_def Suc_le_eq)
  have p: "pipe ?c = [1, 2]" "content (outputBuffer ?c) = [1, 2]" by (simp_all add: demo_conn_sel)
  from graceful_shutdown [OF ok demo_world_sel(1) s(1,2) l(1) s(3) k, of 100] l(2) t p show ?thesis
    by (fastforce simp: pipe_def)
qed

subsection \<open>A message that is sent later\<close>

text \<open>
  C35: a message sent from another thread is not copied. \<open>send\<close> off the loop's thread queues the
  pointer and the length of the caller's string; when the string is destroyed before the loop runs the
  functor, the functor follows a dangling pointer, and when the string is overwritten, the functor
  sends the new bytes.
\<close>

theorem queued_message_dangles:
  assumes "world_ok w" and "w_conns w a = Some c" and "tc_state c = kConnected"
    and "w_loops w (tc_loop c) = Some l" and "\<not> isInLoopThread tid l"
    and "w_strings w p = Some bs" and "bs \<noteq> []" and "length bs' = length bs"
  shows "\<exists>w1 l1 w2 w3. send sys tid a p w = Inr w1 \<and> w_loops w1 (tc_loop c) = Some l1 \<and>
    el_pendingFunctors l1 = el_pendingFunctors l @ [SendInLoop a p (of_nat (length bs))] \<and>
    user_do sys tid (FreeString p) w1 = Inr w2 \<and>
    sendInLoop sys tid' a p (of_nat (length bs)) w2 =
      Inl (Undefined ''message points to a destroyed string'') \<and>
    user_do sys tid (MakeString p bs') w1 = Inr w3 \<and> read_mem p (of_nat (length bs)) w3 = Inr bs'"
proof -
  from attachedE [OF assms(1,2)] assms(4) obtain ch where at: "attached a c ch l w" 
    by (auto simp: attached_def)
  have max: "length bs \<le> vector_max" by (rule world_okD(5) [OF assms(1,6)])
  have len: "unat (of_nat (length bs) :: size_t) = length bs"
    by (rule unat_of_nat_size) (use vector_max_less [OF max] in simp)
  then have pos: "0 < (of_nat (length bs) :: size_t)"
    using assms(7) by (simp add: word_gt_0 unat_eq_zero [symmetric] del: of_nat_eq_0_iff)
  let ?f = "SendInLoop a p (of_nat (length bs))"
  let ?w1 = "upd_loop (tc_loop c) (queueInLoop sys tid ?f) w"
  let ?w2 = "?w1\<lparr>w_strings := (w_strings ?w1)(p := None)\<rparr>"
  let ?w3 = "?w1\<lparr>w_strings := (w_strings ?w1)(p \<mapsto> bs')\<rparr>"
  have w1: "send sys tid a p w = Inr ?w1"
    using assms(2-6)
    by (simp add: send_def the_conn_def the_loop_def run_call_def runInLoop_def loop_at_def)
  have l1: "w_loops ?w1 (tc_loop c) = Some (queueInLoop sys tid ?f l)"
    using assms(4) by (simp add: upd_loop_def put_loop_def loop_at_def)
  have "attached a c ch (queueInLoop sys tid ?f l) ?w2"
    using at l1 by (simp add: attached_def upd_loop_def put_loop_def)
  note w2 = attached_install [OF this]
  have mem: "read_mem p n ?w2 = Inl (Undefined ''message points to a destroyed string'')" for n
    by (simp add: read_mem_def)
  have "sendInLoop sys tid' a p (of_nat (length bs)) (install a c ch (queueInLoop sys tid ?f l) ?w2) =
      Inl (Undefined ''message points to a destroyed string'')"
    using assms(3) mem pos
    by (simp add: sendInLoop_def send_direct_def send_rest_eq)
  then have "sendInLoop sys tid' a p (of_nat (length bs)) ?w2 =
      Inl (Undefined ''message points to a destroyed string'')" using w2 by simp
  moreover have "read_mem p (of_nat (length bs)) ?w3 = Inr bs'"
    using assms(8) len by (simp add: read_mem_def)
  ultimately show ?thesis using w1 l1 max assms(8) by simp
qed

theorem queued_message_dangles_witness:
  "\<exists>w1 w2. send (os_with 9 [] []) 200 20 50 (demo_world kConnected []) = Inr w1 \<and>
     user_do (os_with 9 [] []) 200 (FreeString 50) w1 = Inr w2 \<and>
     sendInLoop (os_with 9 [] []) 100 20 50 2 w2 =
       Inl (Undefined ''message points to a destroyed string'')"
proof -
  let ?w = "demo_world kConnected []" and ?c = "demo_conn kConnected []"
  have ok: "world_ok ?w" by (rule demo_world_ok) simp_all
  have l: "w_loops ?w (tc_loop ?c) = Some (demo_eventloop [])" "\<not> isInLoopThread 200 (demo_eventloop [])"
    by (simp_all add: demo_world_sel demo_conn_sel isInLoopThread_def demo_loop_sel)
  have st: "tc_state ?c = kConnected" by (simp add: demo_conn_sel)
  from queued_message_dangles [OF ok demo_world_sel(1) st l demo_world_sel(6), of "[1, 2]" "os_with 9 [] []" 100]
  show ?thesis by auto
qed

subsection \<open>Destruction\<close>

text \<open>
  C34: destroying a connection that is shutting down aborts. \<open>connectDestroyed\<close> changes the state only
  of a connected connection; one that is half closed (\<open>kDisconnecting\<close>), as every connection the server
  has shut down and the peer has not, keeps its state, and the assertion in the destructor fails.
\<close>

theorem destroyed_while_disconnecting:
  assumes "kernel (e_sys env)" and "world_ok w" and "w_conns w a = Some c" and "tc_state c = kDisconnecting"
    and "w_chans w (tc_channel c) = Some ch" and "ch_index ch \<noteq> kNew"
  shows "\<exists>w'. connectDestroyed env a w = Inr w' \<and>
    TcpConnection_dtor a w' = Inl (AssertFail ''state_ == kDisconnected'')"
proof -
  from attachedE [OF assms(2,3)] assms(5) obtain l where at: "attached a c ch l w" and lp: "ch_loop ch = tc_loop c"
      and inv: "chan_inv ch (el_poller l)" by (auto simp: attached_def)
  let ?w' = "install a c (chan_after Remove ch) (l\<lparr>el_poller := place (chan_after Remove ch) (el_poller l)\<rparr>) w"
  have "epoll_kernel (e_sys env)" using assms(1) by (simp add: kernel_def)
  from epoll_kernel.install_chan_call [OF this lp chan_inv_slot [OF inv], of Remove a w]
  have "chan_call (e_sys env) Remove (tc_channel c) (install a c ch l w) = Inr ?w'"
    using assms(6) by (simp add: chan_legal_def)
  then have "connectDestroyed env a (install a c ch l w) = Inr ?w'"
    using assms(4) by (simp add: connectDestroyed_def)
  moreover have "TcpConnection_dtor a ?w' = Inl (AssertFail ''state_ == kDisconnected'')"
    using assms(4) by (simp add: TcpConnection_dtor_def)
  ultimately show ?thesis using attached_install [OF at] by auto
qed

theorem destroyed_while_disconnecting_witness:
  "\<exists>w'. connectDestroyed (demo_env 9) 20 (demo_world kDisconnecting []) = Inr w' \<and>
     TcpConnection_dtor 20 w' = Inl (AssertFail ''state_ == kDisconnected'')"
proof -
  let ?w = "demo_world kDisconnecting []" and ?c = "demo_conn kDisconnecting []"
  have k: "kernel (e_sys (demo_env 9))" by (simp add: os_with_kernel.kernel_axioms)
  have ok: "world_ok ?w" by (rule demo_world_ok) simp_all
  have c: "tc_state ?c = kDisconnecting" "w_chans ?w (tc_channel ?c) = Some (demo_chan [])"
      "ch_index (demo_chan []) \<noteq> kNew"
    by (simp_all add: demo_conn_sel demo_world_sel demo_chan_def)
  from destroyed_while_disconnecting [OF k ok demo_world_sel(1) c] show ?thesis .
qed

end
