(* ===== verification/Program.thy ===== *)
theory Program
  imports ServerLife ConnectionProps
begin

text \<open>
  Runs of the whole program: servers are constructed, configured, started and destroyed, connections accepted,
  events dispatched, functors run one by one, user code called, and connections destroyed when nothing owns
  them, on any number of loops and in any order.
\<close>

subsection \<open>The state of a program\<close>

text \<open>
  Beside the world, the vector \<open>functors\<close> of every loop that is inside \<open>doPendingFunctors\<close>: the whole vector, which
  keeps what its functors own until it goes out of scope, and what is left of it.
\<close>

record program =
  pg_world :: world
  pg_running :: "ptr \<Rightarrow> (Functor list \<times> Functor list) option"

definition todo :: "program \<Rightarrow> Functor set" where
  "todo p = {f. \<exists>lp fs gs. pg_running p lp = Some (fs, gs) \<and> f \<in> set gs}"

definition held :: "program \<Rightarrow> Functor set" where
  "held p = {f. \<exists>lp fs gs. pg_running p lp = Some (fs, gs) \<and> f \<in> set fs}"

definition program_ok :: "program \<Rightarrow> bool" where
  "program_ok p \<longleftrightarrow> fine (todo p) (held p) (pg_world p) \<and>
     (\<forall>lp fs gs. pg_running p lp = Some (fs, gs) \<longrightarrow> set gs \<subseteq> set fs)"

abbreviation resting :: "world \<Rightarrow> program" where
  "resting w \<equiv> \<lparr>pg_world = w, pg_running = Map.empty\<rparr>"

lemma resting_ok: "program_ok (resting w) \<longleftrightarrow> fine {} {} w"
  by (simp add: program_ok_def todo_def held_def)

lemma todo_held: "program_ok p \<Longrightarrow> todo p \<subseteq> held p"
  unfolding program_ok_def todo_def held_def by blast

lemma held_iff: "held p = {f. \<exists>lp fs. (\<exists>gs. pg_running p lp = Some (fs, gs)) \<and> f \<in> set fs}"
  by (auto simp: held_def)

text \<open>The first lines of \<open>doPendingFunctors\<close>: the flag, and the swap under the mutex.\<close>

definition take_functors :: "ptr \<Rightarrow> program \<Rightarrow> program" where
  "take_functors lp p =
     (let w1 = upd_loop lp begin_calling (pg_world p);
          functors = fst (swap_pending (loop_at lp w1))
      in p\<lparr>pg_world := upd_loop lp (\<lambda>l. snd (swap_pending l)) w1,
           pg_running := (pg_running p)(lp \<mapsto> (functors, functors))\<rparr>)"

text \<open>What the owner of a server may set before it starts it.\<close>

datatype server_op =
    SetConnectionCallback "connection_cb option"
  | SetMessageCallback "message_cb option"
  | SetServerWriteComplete "nat option"
  | SetThreadInit "nat option"
  | SetThreadNum int

fun server_do :: "server_op \<Rightarrow> ptr \<Rightarrow> world \<Rightarrow> fault + world" where
  "server_do (SetConnectionCallback cb) s w =
     bindE (the_server w s) (\<lambda>sv. Inr (put_server s (server_setConnectionCallback cb sv) w))"
| "server_do (SetMessageCallback cb) s w =
     bindE (the_server w s) (\<lambda>sv. Inr (put_server s (server_setMessageCallback cb sv) w))"
| "server_do (SetServerWriteComplete cb) s w =
     bindE (the_server w s) (\<lambda>sv. Inr (put_server s (server_setWriteCompleteCallback cb sv) w))"
| "server_do (SetThreadInit cb) s w =
     bindE (the_server w s) (\<lambda>sv. Inr (put_server s (server_setThreadInitCallback cb sv) w))"
| "server_do (SetThreadNum n) s w = server_setThreadNum s n w"

subsection \<open>Steps and runs\<close>

text \<open>
  One step, with the set of connections it destroys. Every step comes with its own answers of the
  operating system and its own thread; the hypotheses say that these answer as documented (\<open>kernel\<close>), that the
  allocator and \<open>accept\<close> return what is not in use, that the address of a new server is not one that a
  connection still calls back, and that the server's table is visited as a whole. A connection can be destroyed as
  soon as no server and no functor holds a \<open>shared_ptr\<close> to it, or later, when user code has kept one.
\<close>

inductive program_step :: "program \<Rightarrow> ptr set \<Rightarrow> program \<Rightarrow> bool" where
  poll: "kernel sys \<Longrightarrow> world_poll sys lp (pg_world p) = Inr w \<Longrightarrow> program_step p {} (p\<lparr>pg_world := w\<rparr>)"
| event: "kernel (e_sys env) \<Longrightarrow> fresh_conn env (pg_world p) \<Longrightarrow> dispatch env t x (pg_world p) = Inr w \<Longrightarrow>
    program_step p {} (p\<lparr>pg_world := w\<rparr>)"
| begin_functors: "w_loops (pg_world p) lp \<noteq> None \<Longrightarrow> pg_running p lp = None \<Longrightarrow> program_step p {} (take_functors lp p)"
| one_functor: "kernel (e_sys env) \<Longrightarrow> pg_running p lp = Some (fs, f # gs) \<Longrightarrow> exec env ret f (pg_world p) = Inr w \<Longrightarrow>
    program_step p {} (p\<lparr>pg_world := w, pg_running := (pg_running p)(lp \<mapsto> (fs, gs))\<rparr>)"
| end_functors: "w_loops (pg_world p) lp \<noteq> None \<Longrightarrow> pg_running p lp = Some (fs, []) \<Longrightarrow>
    program_step p {} (p\<lparr>pg_world := upd_loop lp end_calling (pg_world p), pg_running := (pg_running p)(lp := None)\<rparr>)"
| begin_loop: "w_loops (pg_world p) lp \<noteq> None \<Longrightarrow>
    program_step p {} (p\<lparr>pg_world := upd_loop lp (\<lambda>l. l\<lparr>el_looping := True, el_quit := False\<rparr>) (pg_world p)\<rparr>)"
| end_loop: "w_loops (pg_world p) lp \<noteq> None \<Longrightarrow>
    program_step p {} (p\<lparr>pg_world := upd_loop lp (\<lambda>l. l\<lparr>el_looping := False\<rparr>) (pg_world p)\<rparr>)"
| user: "kernel sys \<Longrightarrow> run_user sys tid xs (pg_world p) = Inr w \<Longrightarrow> program_step p {} (p\<lparr>pg_world := w\<rparr>)"
| new_server: "w_loops (pg_world p) lp \<noteq> None \<Longrightarrow> w_chans (pg_world p) x = None \<Longrightarrow> w_servers (pg_world p) s = None \<Longrightarrow>
    w_acceptors (pg_world p) acc = None \<Longrightarrow>
    \<forall>a c. w_conns (pg_world p) a = Some c \<longrightarrow> tc_closeCallback c \<noteq> Some s \<Longrightarrow>
    \<forall>y d. w_chans (pg_world p) y = Some d \<longrightarrow> ch_fd d \<noteq> fd \<Longrightarrow>
    TcpServer_ctor fd idle bound s acc x lp addr nm reuse (pg_world p) = Inr w \<Longrightarrow> program_step p {} (p\<lparr>pg_world := w\<rparr>)"
| configure: "server_do x s (pg_world p) = Inr w \<Longrightarrow> program_step p {} (p\<lparr>pg_world := w\<rparr>)"
| start_server: "kernel (e_sys env) \<Longrightarrow> w_servers (pg_world p) s = Some sv \<Longrightarrow>
    fresh_threads sp (map (thread_name (tp_name (sv_threadPool sv))) [0 .. tp_numThreads (sv_threadPool sv) - 1])
      (pg_world p) \<Longrightarrow>
    server_start env (startLoop (e_sys env) sp) ret s (pg_world p) = Inr w \<Longrightarrow> program_step p {} (p\<lparr>pg_world := w\<rparr>)"
| destroy_connections: "kernel (e_sys env) \<Longrightarrow> TcpServer.destroy_connections env s nms (pg_world p) = Inr w \<Longrightarrow>
    program_step p {} (p\<lparr>pg_world := w\<rparr>)"
| free_loop: "kernel sys \<Longrightarrow> w_loops (pg_world p) lp = Some l \<Longrightarrow> el_quit l \<Longrightarrow> pg_running p lp = None \<Longrightarrow>
    left_alone lp l (pg_world p) \<Longrightarrow> TcpServer.free_loop sys lp (pg_world p) = Inr w \<Longrightarrow> program_step p {} (p\<lparr>pg_world := w\<rparr>)"
| free_server: "kernel sys \<Longrightarrow> w_servers (pg_world p) s = Some sv \<Longrightarrow> sv_connections sv = Map.empty \<Longrightarrow>
    TcpServer.free_server sys s (pg_world p) = Inr w \<Longrightarrow> program_step p {} (p\<lparr>pg_world := w\<rparr>)"
| destroy: "\<not> owned (held p) (pg_world p) a \<Longrightarrow> TcpConnection_dtor a (pg_world p) = Inr w \<Longrightarrow>
    program_step p {a} (p\<lparr>pg_world := w\<rparr>)"

inductive program_run :: "program \<Rightarrow> ptr set \<Rightarrow> program \<Rightarrow> bool" where
  none: "program_run p {} p"
| step: "program_run p D p1 \<Longrightarrow> program_step p1 E p2 \<Longrightarrow> program_run p (D \<union> E) p2"

lemma program_run_step: "program_run p D p1 \<Longrightarrow> program_step p1 {} p2 \<Longrightarrow> program_run p D p2"
  using program_run.step [of p D p1 "{}" p2] by simp

lemma program_run_rest:
  "program_run p D (resting w) \<Longrightarrow> program_step (resting w) {} (resting w\<lparr>pg_world := w'\<rparr>) \<Longrightarrow> program_run p D (resting w')"
  using program_run_step [of p D "resting w"] by simp

lemma program_run_configure:
  "program_run p D (resting w) \<Longrightarrow> server_do x s w = Inr w' \<Longrightarrow> program_run p D (resting w')"
  using program_run_rest [of p D w w'] program_step.configure [of x s "resting w" w'] by simp

lemma program_run_trans:
  assumes "program_run p1 E p2" "program_run p D p1"
  shows "program_run p (D \<union> E) p2"
  using assms
proof (induction rule: program_run.induct)
  case (step p1 E p2 F p3)
  from program_run.step [OF step.IH [OF step.prems] step.hyps(2)] show ?case by (simp add: Un_assoc)
qed simp

text \<open>What a step keeps of the connections it does not destroy.\<close>

definition survive :: "world \<Rightarrow> ptr set \<Rightarrow> world \<Rightarrow> bool" where
  "survive w D w' \<longleftrightarrow>
     (\<forall>a c. w_conns w a = Some c \<longrightarrow> a \<notin> D \<longrightarrow> (\<exists>c'. w_conns w' a = Some c' \<and> conn_le c c'))"

lemma world_le_survive: "world_le w w' \<Longrightarrow> survive w D w'"
  unfolding world_le_def survive_def by blast

lemma survive_trans:
  assumes "survive w D w1" "survive w1 E w2"
  shows "survive w (D \<union> E) w2"
  unfolding survive_def
proof (intro allI impI)
  fix a c assume "w_conns w a = Some c" "a \<notin> D \<union> E"
  moreover from this obtain c1 where "w_conns w1 a = Some c1" "conn_le c c1"
    using assms(1) unfolding survive_def by blast
  ultimately obtain c2 where "w_conns w2 a = Some c2" "conn_le c1 c2" "conn_le c c1"
    using assms(2) unfolding survive_def by blast
  then show "\<exists>c'. w_conns w2 a = Some c' \<and> conn_le c c'" using conn_le_trans by blast
qed

subsection \<open>Every step keeps the invariant\<close>

lemma program_ok_world:
  assumes "program_ok p" "fine (todo p) (held p) w"
  shows "program_ok (p\<lparr>pg_world := w\<rparr>)"
  using assms by (simp add: program_ok_def todo_def held_def)

lemma fine_upd_loop:
  assumes w: "fine K H w" and l: "w_loops w lp = Some l" and f: "el_poller (f l) = el_poller l"
      "el_pendingFunctors (f l) = el_pendingFunctors l"
  shows "fine K H (upd_loop lp f w) \<and> world_le w (upd_loop lp f w)"
proof -
  have "w_loops w lp \<noteq> None" using l by simp
  then have "world_ok (upd_loop lp (\<lambda>_. f l) w) \<and> world_le w (upd_loop lp (\<lambda>_. f l) w)"
    using world_ok_cong [of "upd_loop lp (\<lambda>_. f l) w" w] w f(1) l
    by (simp add: world_le_def upd_loop_def fine_def)
  moreover have "upd_loop lp (\<lambda>_. f l) w = upd_loop lp f w" using l by (simp add: upd_loop_def loop_at_def)
  moreover have "calm w (upd_loop lp f w)" using calm_upd_loop [OF l, of f "[]"] f(2) by simp
  ultimately show ?thesis using fine_calm [OF w] by simp
qed

lemma own_ok_take:
  assumes own: "own_ok {} K H w" and sel: "w_conns w' = w_conns w" "w_chans w' = w_chans w" "w_servers w' = w_servers w"
    and pend: "\<And>q. pend w' q = (if q = lp then [] else pend w q)" and K: "K \<union> set (pend w lp) \<subseteq> K'"
    and H: "H' \<subseteq> H \<union> set (pend w lp)"
  shows "own_ok {} K' H' w'"
proof -
  have "anchored K' w' a" if "anchored K w a" for a
  proof -
    have "f \<in> K' \<or> (\<exists>q. f \<in> set (pend w' q))" if "f \<in> K \<or> (\<exists>q. f \<in> set (pend w q))" for f
      using that K unfolding pend by (auto split: if_splits)
    then show ?thesis using \<open>anchored K w a\<close> unfolding anchored_def sel by blast
  qed
  moreover have "functor_ok w' f" if "f \<in> H' \<or> (\<exists>q. f \<in> set (pend w' q))" for f
  proof -
    have "functor_ok w f" using that H own_okD(4,5) [OF own] unfolding pend by (auto split: if_splits)
    then show ?thesis by (simp add: functor_ok_def sel)
  qed
  ultimately show ?thesis
    using own unfolding own_ok_def table_ok_def ids_ok_def names_differ_def index_at_def sel by blast
qed

lemma take_functors_ok:
  assumes ok: "program_ok p" and lp: "w_loops (pg_world p) lp \<noteq> None" and idle: "pg_running p lp = None"
  shows "program_ok (take_functors lp p) \<and> world_le (pg_world p) (pg_world (take_functors lp p))"
proof -
  let ?p = "take_functors lp p" and ?w = "pg_world p"
  obtain l where l: "w_loops ?w lp = Some l" using lp by blast
  have fine: "fine (todo p) (held p) ?w" using ok by (simp add: program_ok_def)
  have sel: "w_conns (pg_world ?p) = w_conns ?w" "w_chans (pg_world ?p) = w_chans ?w" "w_servers (pg_world ?p) = w_servers ?w"
      "w_acceptors (pg_world ?p) = w_acceptors ?w" "w_strings (pg_world ?p) = w_strings ?w"
      "w_loops (pg_world ?p) = (w_loops ?w)(lp \<mapsto> l\<lparr>el_callingPendingFunctors := True, el_pendingFunctors := []\<rparr>)"
    by (simp_all add: take_functors_def Let_def upd_loop_def loop_at_def l begin_calling_def swap_pending_def)
  have run: "pg_running ?p = (pg_running p)(lp \<mapsto> (pend ?w lp, pend ?w lp))"
    using l by (simp add: take_functors_def Let_def upd_loop_def loop_at_def begin_calling_def swap_pending_def pend_def)
  have pend: "pend (pg_world ?p) q = (if q = lp then [] else pend ?w q)" for q by (simp add: pend_def sel)
  have K: "todo p \<union> set (pend ?w lp) \<subseteq> todo ?p"
  proof
    fix f assume f: "f \<in> todo p \<union> set (pend ?w lp)"
    show "f \<in> todo ?p"
    proof (cases "f \<in> set (pend ?w lp)")
      case True
      then show ?thesis unfolding todo_def run by (intro CollectI exI [of _ lp]) simp
    next
      case False
      then obtain q fs gs where "pg_running p q = Some (fs, gs)" "f \<in> set gs" using f by (auto simp: todo_def)
      then show ?thesis using idle unfolding todo_def run by (intro CollectI exI [of _ q] exI [of _ fs] exI [of _ gs]) auto
    qed
  qed
  have H: "held ?p \<subseteq> held p \<union> set (pend ?w lp)"
    unfolding held_def run by (auto split: if_splits)
  have "own_ok {} (todo ?p) (held ?p) (pg_world ?p)"
    by (rule own_ok_take [OF _ sel(1-3) pend K H]) (use fine in \<open>simp add: fine_def\<close>)
  moreover have "world_ok (pg_world ?p) = world_ok ?w"
    by (rule world_ok_cong) (simp_all add: sel l)
  moreover have le: "world_le ?w (pg_world ?p)" by (simp add: world_le_def sel)
  moreover have "objects_ok (pg_world ?p)"
    by (rule objects_ok_keeps [OF le]) (use fine in \<open>simp_all add: fine_def fixed_def shape_def sel\<close>)
  ultimately show ?thesis using ok fine unfolding program_ok_def run by (auto simp: fine_def)
qed

lemma one_functor_ok:
  assumes ok: "program_ok p" and k: "kernel (e_sys env)" and run: "pg_running p lp = Some (fs, f # gs)"
    and ex: "exec env ret f (pg_world p) = Inr w"
  shows "program_ok (p\<lparr>pg_world := w, pg_running := (pg_running p)(lp \<mapsto> (fs, gs))\<rparr>) \<and> world_le (pg_world p) w"
proof -
  let ?p = "p\<lparr>pg_world := w, pg_running := (pg_running p)(lp \<mapsto> (fs, gs))\<rparr>"
  have fine: "fine (todo p) (held p) (pg_world p)" and sub: "set (f # gs) \<subseteq> set fs"
    using ok run by (simp add: program_ok_def, unfold program_ok_def, blast)
  have f: "f \<in> held p" using run sub unfolding held_def by auto
  have K: "todo p \<subseteq> insert f (todo ?p)"
  proof
    fix g assume "g \<in> todo p"
    then obtain q hs js where q: "pg_running p q = Some (hs, js)" "g \<in> set js" by (auto simp: todo_def)
    show "g \<in> insert f (todo ?p)"
    proof (cases "q = lp")
      case True
      then show ?thesis using q run by (auto simp: todo_def)
    next
      case False
      then show ?thesis using q by (auto simp: todo_def intro!: exI [of _ q])
    qed
  qed
  have "(\<exists>js. pg_running ?p q = Some (hs, js)) \<longleftrightarrow> (\<exists>js. pg_running p q = Some (hs, js))" for q hs
    using run by auto
  then have H: "held ?p = held p" unfolding held_iff by simp
  from kernel.fine_exec [OF k refl fine f K ex] show ?thesis
    using ok sub unfolding program_ok_def H by (auto split: if_splits)
qed

lemma end_functors_ok:
  assumes ok: "program_ok p" and lp: "w_loops (pg_world p) lp \<noteq> None" and run: "pg_running p lp = Some (fs, [])"
  shows "program_ok (p\<lparr>pg_world := upd_loop lp end_calling (pg_world p), pg_running := (pg_running p)(lp := None)\<rparr>) \<and>
    world_le (pg_world p) (upd_loop lp end_calling (pg_world p))"
proof -
  let ?w = "upd_loop lp end_calling (pg_world p)"
  let ?p = "p\<lparr>pg_world := ?w, pg_running := (pg_running p)(lp := None)\<rparr>"
  have "q \<noteq> lp" if "pg_running p q = Some (hs, js)" "f \<in> set js" for q hs js f using that run by auto
  then have K: "todo ?p = todo p" unfolding todo_def by (fastforce split: if_splits)
  have H: "held ?p \<subseteq> held p" by (auto simp: held_def split: if_splits)
  obtain l where l: "w_loops (pg_world p) lp = Some l" using lp by blast
  have "fine (todo p) (held p) ?w \<and> world_le (pg_world p) ?w"
    by (rule fine_upd_loop [OF _ l]) (use ok in \<open>simp_all add: program_ok_def end_calling_def\<close>)
  then have "fine (todo ?p) (held ?p) ?w \<and> world_le (pg_world p) ?w"
    unfolding K using own_ok_mono [OF _ subset_refl H] by (simp add: fine_def)
  then show ?thesis using ok unfolding program_ok_def by (auto split: if_splits)
qed

lemma fine_server_do:
  assumes w: "fine K H w" and run: "server_do x s w = Inr w'"
  shows "fine K H w' \<and> world_le w w'"
proof -
  obtain sv sv' where sv: "w_servers w s = Some sv" and w': "w' = put_server s sv' w"
    and same: "sv_core sv' = sv_core sv" "sv_acceptor sv' = sv_acceptor sv" "sv_loop sv' = sv_loop sv"
      "server_fit sv' = server_fit sv"
    using run by (cases x) (auto simp: bindE_eq_Inr the_simps guardE_eq_Inr server_setThreadNum_def
        server_setConnectionCallback_def server_setMessageCallback_def server_setWriteCompleteCallback_def
        server_setThreadInitCallback_def sv_core_def server_fit_def pool_fit_def pool_ok_def setThreadNum_def)
  show ?thesis unfolding w' using fine_put_server [OF w sv same] by blast
qed

lemma program_step_keeps:
  assumes "program_step p D p'" "program_ok p"
  shows "program_ok p' \<and> survive (pg_world p) D (pg_world p')"
  using assms
proof (induction rule: program_step.induct)
  case (poll sys lp p w)
  then have "fine (todo p) (held p) w \<and> world_le (pg_world p) w"
    using keepsD [OF fine_world_poll] by (auto simp: program_ok_def)
  then show ?case using program_ok_world [OF poll.prems] world_le_survive by simp
next
  case (event env p t x w)
  then have "fine (todo p) (held p) w \<and> world_le (pg_world p) w"
    using kernel.fine_dispatch [OF _ refl] by (auto simp: program_ok_def)
  then show ?case using program_ok_world [OF event.prems] world_le_survive by simp
next
  case (begin_functors p lp)
  then show ?case using take_functors_ok world_le_survive by blast
next
  case (one_functor env p lp fs f gs ret w)
  then show ?case using one_functor_ok [OF one_functor.prems one_functor.hyps] world_le_survive by simp
next
  case (end_functors p lp fs)
  then show ?case using end_functors_ok [OF end_functors.prems end_functors.hyps] world_le_survive by simp
next
  case (begin_loop p lp)
  then obtain l where l: "w_loops (pg_world p) lp = Some l" by blast
  have "fine (todo p) (held p) (pg_world p)" using begin_loop.prems by (simp add: program_ok_def)
  from fine_upd_loop [OF this l] show ?case using program_ok_world [OF begin_loop.prems] world_le_survive by simp
next
  case (end_loop p lp)
  then obtain l where l: "w_loops (pg_world p) lp = Some l" by blast
  have "fine (todo p) (held p) (pg_world p)" using end_loop.prems by (simp add: program_ok_def)
  from fine_upd_loop [OF this l] show ?case using program_ok_world [OF end_loop.prems] world_le_survive by simp
next
  case (user sys tid xs p w)
  then have "fine (todo p) (held p) w \<and> world_le (pg_world p) w"
    using keepsD [OF kernel.fine_run_user] by (auto simp: program_ok_def)
  then show ?case using program_ok_world [OF user.prems] world_le_survive by simp
next
  case (new_server p lp x s acc fd idle bound addr nm reuse w)
  then have "fine (todo p) (held p) (pg_world p)" by (simp add: program_ok_def)
  from fine_TcpServer_ctor [OF this new_server.hyps] show ?case
    using program_ok_world [OF new_server.prems] world_le_survive by simp
next
  case (configure x s p w)
  then have "fine (todo p) (held p) w \<and> world_le (pg_world p) w"
    using fine_server_do by (auto simp: program_ok_def)
  then show ?case using program_ok_world [OF configure.prems] world_le_survive by simp
next
  case (start_server env p s sv sp ret w)
  then have "fine (todo p) (held p) (pg_world p)" by (simp add: program_ok_def)
  from kernel.fine_server_start [OF start_server.hyps(1) refl this start_server.hyps(2-4)]
  show ?case using program_ok_world [OF start_server.prems] world_le_survive by simp
next
  case (destroy_connections env s nms p w)
  then have "fine (todo p) (held p) w \<and> world_le (pg_world p) w"
    using keepsD [OF kernel.fine_destroy_connections [OF _ refl]] by (auto simp: program_ok_def)
  then show ?case using program_ok_world [OF destroy_connections.prems] world_le_survive by simp
next
  case (free_loop sys p lp l w)
  then have f: "fine (todo p) (held p) (pg_world p)" by (simp add: program_ok_def)
  from fine_free_loop [OF f free_loop.hyps(2,5,6)] show ?case
    using program_ok_world [OF free_loop.prems] by (simp add: survive_def)
next
  case (free_server sys p s sv w)
  then have f: "fine (todo p) (held p) (pg_world p)" by (simp add: program_ok_def)
  from kernel.fine_free_server [OF free_server.hyps(1) f free_server.hyps(2-4)] show ?case
    using program_ok_world [OF free_server.prems] by (simp add: survive_def)
next
  case (destroy p a w)
  then have "fine (todo p) (held p) (pg_world p)" by (simp add: program_ok_def)
  from fine_destroy [OF this todo_held [OF destroy.prems] destroy.hyps] show ?case
    using program_ok_world [OF destroy.prems] by (simp add: survive_def)
qed

lemma program_run_keeps:
  assumes "program_run p D p'" "program_ok p"
  shows "program_ok p' \<and> survive (pg_world p) D (pg_world p')"
  using assms
proof (induction rule: program_run.induct)
  case (none p)
  then show ?case by (simp add: survive_def)
next
  case (step p D p1 E p2)
  then show ?case using program_step_keeps survive_trans by blast
qed

lemma program_ok_parts:
  assumes "program_ok p"
  shows "world_ok (pg_world p)" "objects_ok (pg_world p)" "own_ok {} (todo p) (held p) (pg_world p)"
  using assms by (simp_all add: program_ok_def fine_def)

subsection \<open>From the start\<close>

text \<open>The world in which \<open>main\<close> has just constructed its loop.\<close>

definition booted :: "ptr \<Rightarrow> eventloop \<Rightarrow> ptr \<Rightarrow> callback channel \<Rightarrow> world" where
  "booted lp l x ch =
     \<lparr>w_conns = Map.empty, w_chans = [x \<mapsto> ch], w_loops = [lp \<mapsto> l], w_acceptors = Map.empty,
      w_servers = Map.empty, w_strings = Map.empty\<rparr>"

lemma booted_fine:
  assumes k: "kernel sys" and e: "EventLoop_ctor sys up epfd evfd None tid lp x = Inr (l, ch)"
  shows "fine {} {} (booted lp l x ch)"
proof -
  let ?w0 = "\<lparr>w_conns = Map.empty, w_chans = Map.empty, w_loops = Map.empty, w_acceptors = Map.empty,
      w_servers = Map.empty, w_strings = Map.empty\<rparr>"
  have "fine {} {} ?w0" by (simp add: fine_def world_ok_def objects_ok_def own_ok_def pend_def)
  from kernel.fine_new_loop [OF k this _ _ e] show ?thesis by (simp add: booted_def put_loop_def put_chan_def)
qed

lemma booted_ok:
  assumes "kernel sys" "EventLoop_ctor sys up epfd evfd None tid lp x = Inr (l, ch)"
  shows "world_ok (booted lp l x ch)"
  using booted_fine [OF assms] by (simp add: fine_def)

text \<open>What holds in every state the program can reach.\<close>

lemma program_reachable_ok:
  assumes "kernel sys" "EventLoop_ctor sys up epfd evfd None tid lp x = Inr (l, ch)"
    and "program_run (resting (booted lp l x ch)) D p"
  shows "program_ok p"
  using program_run_keeps [OF assms(3)] booted_fine [OF assms(1,2)] resting_ok by blast

end
