(* ===== verification/LoopRuns.thy ===== *)
theory LoopRuns
  imports Program
begin

text \<open>
  The functions that take many steps at once are runs of the program: \<open>doPendingFunctors\<close>, the whole of \<open>EventLoop::loop\<close>,
  and the destructor of a server.
\<close>

subsection \<open>What one loop does\<close>

text \<open>
  The acts of the loop at \<open>lp\<close>, each a step of the program: \<open>loop\<close> is entered and left, the poller has reported the
  active channels \<open>xs\<close> at the time \<open>t\<close> (only while \<open>quit_\<close> is not set, the condition of the \<open>while\<close>), the events of
  \<open>x\<close> have been handled, the functors \<open>fs\<close>, all that were queued, have been taken, one of them has run, and the batch
  is done.
\<close>

datatype act =
    LoopBegins
  | Polled int "ptr list"
  | Handled int ptr
  | Taken "Functor list"
  | Ran Functor
  | BatchEnds
  | LoopEnds

inductive act_step :: "ptr \<Rightarrow> program \<Rightarrow> act \<Rightarrow> program \<Rightarrow> bool" for lp where
  begins: "w_loops (pg_world p) lp \<noteq> None \<Longrightarrow> act_step lp p LoopBegins
    (p\<lparr>pg_world := upd_loop lp (\<lambda>l. l\<lparr>el_looping := True, el_quit := False\<rparr>) (pg_world p)\<rparr>)"
| polled: "kernel sys \<Longrightarrow> \<not> el_quit (loop_at lp (pg_world p)) \<Longrightarrow> world_poll sys lp (pg_world p) = Inr w \<Longrightarrow>
    act_step lp p (Polled (el_pollReturnTime (loop_at lp w)) (el_activeChannels (loop_at lp w))) (p\<lparr>pg_world := w\<rparr>)"
| handled: "kernel (e_sys env) \<Longrightarrow> fresh_conn env (pg_world p) \<Longrightarrow> dispatch env t x (pg_world p) = Inr w \<Longrightarrow>
    act_step lp p (Handled t x) (p\<lparr>pg_world := w\<rparr>)"
| taken: "w_loops (pg_world p) lp \<noteq> None \<Longrightarrow> pg_running p lp = None \<Longrightarrow>
    act_step lp p (Taken (pend (pg_world p) lp)) (take_functors lp p)"
| ran: "kernel (e_sys env) \<Longrightarrow> pg_running p lp = Some (fs, f # gs) \<Longrightarrow> exec env ret f (pg_world p) = Inr w \<Longrightarrow>
    act_step lp p (Ran f) (p\<lparr>pg_world := w, pg_running := (pg_running p)(lp \<mapsto> (fs, gs))\<rparr>)"
| batch_ends: "w_loops (pg_world p) lp \<noteq> None \<Longrightarrow> pg_running p lp = Some (fs, []) \<Longrightarrow> act_step lp p BatchEnds
    (p\<lparr>pg_world := upd_loop lp end_calling (pg_world p), pg_running := (pg_running p)(lp := None)\<rparr>)"
| ends: "w_loops (pg_world p) lp \<noteq> None \<Longrightarrow> el_quit (loop_at lp (pg_world p)) \<Longrightarrow> act_step lp p LoopEnds
    (p\<lparr>pg_world := upd_loop lp (\<lambda>l. l\<lparr>el_looping := False\<rparr>) (pg_world p)\<rparr>)"

lemma act_step_program: "act_step lp p a p' \<Longrightarrow> program_step p {} p'"
  by (induction rule: act_step.induct) (blast intro: program_step.intros)+

primrec trace :: "ptr \<Rightarrow> program \<Rightarrow> act list \<Rightarrow> program \<Rightarrow> bool" where
  "trace lp p [] p' \<longleftrightarrow> p' = p"
| "trace lp p (a # acts) p' \<longleftrightarrow> (\<exists>q. act_step lp p a q \<and> trace lp q acts p')"

lemma trace_append: "trace lp p (as @ bs) p' \<longleftrightarrow> (\<exists>q. trace lp p as q \<and> trace lp q bs p')"
  by (induction as arbitrary: p) auto

lemma trace_join: "trace lp p as q \<Longrightarrow> trace lp q bs p' \<Longrightarrow> trace lp p (as @ bs) p'"
  unfolding trace_append by blast

lemma trace_run: "trace lp p acts p' \<Longrightarrow> program_run p {} p'"
proof (induction acts arbitrary: p)
  case Nil
  then show ?case using program_run.none by simp
next
  case (Cons a acts)
  then obtain q where q: "act_step lp p a q" "trace lp q acts p'" by auto
  have "program_run p {} q" by (rule program_run_step [OF program_run.none act_step_program [OF q(1)]])
  then show ?case using program_run_trans [OF Cons.IH [OF q(2)]] by fastforce
qed

text \<open>One round of the loop: a poll, the events of exactly the channels it reported, in order, then one batch of functors, in order.\<close>

fun round_acts :: "int \<times> ptr list \<times> Functor list \<Rightarrow> act list" where
  "round_acts (t, xs, fs) = Polled t xs # map (Handled t) xs @ Taken fs # map Ran fs @ [BatchEnds]"

abbreviation rounds :: "(int \<times> ptr list \<times> Functor list) list \<Rightarrow> act list" where
  "rounds rs \<equiv> concat (map round_acts rs)"

text \<open>The next act ends with the fault \<open>e\<close>.\<close>

fun act_fault :: "ptr \<Rightarrow> program \<Rightarrow> act \<Rightarrow> fault \<Rightarrow> bool" where
  "act_fault lp p (Polled t xs) e \<longleftrightarrow> (\<exists>sys. kernel sys \<and> \<not> el_quit (loop_at lp (pg_world p)) \<and> world_poll sys lp (pg_world p) = Inl e)"
| "act_fault lp p (Handled t x) e \<longleftrightarrow>
     (\<exists>env. kernel (e_sys env) \<and> fresh_conn env (pg_world p) \<and> dispatch env t x (pg_world p) = Inl e)"
| "act_fault lp p (Ran f) e \<longleftrightarrow> (\<exists>env ret. kernel (e_sys env) \<and> exec env ret f (pg_world p) = Inl e)"
| "act_fault lp p a e \<longleftrightarrow> False"

text \<open>From \<open>p\<close>, the acts \<open>acts\<close> are begun, in order, and one of them ends with the fault \<open>e\<close>.\<close>

definition breaks :: "ptr \<Rightarrow> program \<Rightarrow> act list \<Rightarrow> fault \<Rightarrow> bool" where
  "breaks lp p acts e \<longleftrightarrow> (\<exists>before a rest q. acts = before @ a # rest \<and> trace lp p before q \<and> act_fault lp q a e)"

lemma breaks_here: "act_fault lp p a e \<Longrightarrow> breaks lp p (a # acts) e"
  unfolding breaks_def by (rule exI [of _ "[]"]) auto

lemma breaks_later:
  assumes "trace lp p as q" "breaks lp q bs e"
  shows "breaks lp p (as @ bs) e"
proof -
  obtain before a rest q' where "bs = before @ a # rest" "trace lp q before q'" "act_fault lp q' a e"
    using assms(2) unfolding breaks_def by blast
  then show ?thesis
    using trace_join [OF assms(1)] unfolding breaks_def by (intro exI [of _ "as @ before"]) auto
qed

lemma breaks_append: "breaks lp p as e \<Longrightarrow> breaks lp p (as @ bs) e"
  unfolding breaks_def by force

subsection \<open>\<open>doPendingFunctors\<close>\<close>

text \<open>
  Each functor and each event may meet answers of the system and of the allocator of its own.
\<close>

definition runs_functors :: "(Functor \<Rightarrow> world \<Rightarrow> fault + world) \<Rightarrow> bool" where
  "runs_functors ex \<longleftrightarrow> (\<forall>f w. \<exists>env ret. kernel (e_sys env) \<and> ex f w = exec env ret f w)"

definition runs_events :: "(int \<Rightarrow> ptr \<Rightarrow> world \<Rightarrow> fault + world) \<Rightarrow> bool" where
  "runs_events di \<longleftrightarrow> (\<forall>t x w. \<exists>env. kernel (e_sys env) \<and> fresh_conn env w \<and> di t x w = dispatch env t x w)"

lemma runs_functors_exec: "kernel (e_sys env) \<Longrightarrow> runs_functors (exec env ret)"
  unfolding runs_functors_def by blast

lemma runs_functorsE:
  assumes "runs_functors ex"
  obtains env ret where "kernel (e_sys env)" "ex f w = exec env ret f w"
  using assms unfolding runs_functors_def by blast

lemma runs_eventsE:
  assumes "runs_events di"
  obtains env where "kernel (e_sys env)" "fresh_conn env w" "di t x w = dispatch env t x w"
  using assms unfolding runs_events_def by blast

lemma runs_functors_safe:
  assumes "runs_functors ex"
  shows "safe (ex f)"
proof (rule keepsI)
  fix w w' assume ok: "world_ok w" and r: "ex f w = Inr w'"
  obtain env ret where k: "kernel (e_sys env)" and eq: "ex f w = exec env ret f w"
    using runs_functorsE [OF assms, of f w] .
  show "world_ok w' \<and> world_le w w'" by (rule keepsD [OF kernel.safe_exec [OF k refl] ok]) (use r eq in simp)
qed

text \<open>The functors of a batch, one by one.\<close>

lemma functors_left:
  assumes ex: "runs_functors ex" and idle: "p = \<lparr>pg_world = w, pg_running = R\<rparr>" "R lp = Some (fs, gs)"
  shows "case run_functors ex gs w of
      Inr w' \<Rightarrow> trace lp p (map Ran gs) \<lparr>pg_world = w', pg_running = R(lp \<mapsto> (fs, []))\<rparr>
    | Inl e \<Rightarrow> breaks lp p (map Ran gs) e"
  using idle
proof (induction gs arbitrary: p w R)
  case Nil
  then show ?case by (simp add: fun_upd_idem)
next
  case (Cons f gs)
  obtain env ret where k: "kernel (e_sys env)" and eq: "ex f w = exec env ret f w" using runs_functorsE [OF ex, of f w] .
  show ?case
  proof (cases "ex f w")
    case (Inl e)
    then have "act_fault lp p (Ran f) e" using k eq Cons.prems(1) by auto
    from breaks_here [OF this] show ?thesis using Inl by simp
  next
    case (Inr w1)
    let ?p1 = "\<lparr>pg_world = w1, pg_running = R(lp \<mapsto> (fs, gs))\<rparr>"
    have 1: "act_step lp p (Ran f) ?p1"
      using act_step.ran [OF k, of p lp fs f gs ret w1] Cons.prems Inr eq by simp
    have "trace lp p [Ran f] ?p1" using 1 by simp
    with Cons.IH [OF refl, of "R(lp \<mapsto> (fs, gs))" w1] 1 show ?thesis
      using breaks_later [of lp p "[Ran f]" ?p1] by (auto simp: Inr split: sum.splits)
  qed
qed

lemma doPendingFunctors_acts:
  assumes ex: "runs_functors ex" and ok: "world_ok w" and lp: "w_loops w lp \<noteq> None"
  shows "case doPendingFunctors (loop_at lp) (upd_loop lp) ex w of
      Inr w' \<Rightarrow> trace lp (resting w) (Taken (pend w lp) # map Ran (pend w lp) @ [BatchEnds]) (resting w') \<and> w_loops w' lp \<noteq> None
    | Inl e \<Rightarrow> breaks lp (resting w) (Taken (pend w lp) # map Ran (pend w lp) @ [BatchEnds]) e"
proof -
  let ?w1 = "upd_loop lp begin_calling w"
  let ?fs = "fst (swap_pending (loop_at lp ?w1))" and ?w2 = "upd_loop lp (\<lambda>l. snd (swap_pending l)) ?w1"
  let ?p1 = "\<lparr>pg_world = ?w2, pg_running = [lp \<mapsto> (?fs, ?fs)]\<rparr>"
  have fs: "?fs = pend w lp"
    using lp by (auto simp: pend_def swap_pending_def begin_calling_def upd_loop_def loop_at_def)
  have "act_step lp (resting w) (Taken (pend w lp)) (take_functors lp (resting w))"
    using act_step.taken [of "resting w" lp] lp by simp
  then have 1: "trace lp (resting w) [Taken (pend w lp)] ?p1" by (simp add: take_functors_def Let_def)
  have left: "case run_functors ex ?fs ?w2 of
      Inr w' \<Rightarrow> trace lp ?p1 (map Ran ?fs) \<lparr>pg_world = w', pg_running = [lp \<mapsto> (?fs, ?fs)](lp \<mapsto> (?fs, []))\<rparr>
    | Inl e \<Rightarrow> breaks lp ?p1 (map Ran ?fs) e"
    by (rule functors_left [OF ex refl]) simp
  show ?thesis
  proof (cases "run_functors ex ?fs ?w2")
    case (Inl e)
    then have "breaks lp ?p1 (map Ran (pend w lp) @ [BatchEnds]) e" using left breaks_append by (simp add: fs)
    from breaks_later [OF 1 this] show ?thesis using Inl by (simp add: doPendingFunctors_def Let_def)
  next
    case (Inr w3)
    let ?p2 = "\<lparr>pg_world = w3, pg_running = [lp \<mapsto> (?fs, [])]\<rparr>"
    have 2: "trace lp ?p1 (map Ran (pend w lp)) ?p2" using left Inr fs by simp
    have "world_ok ?w2" and l2: "w_loops ?w2 lp \<noteq> None"
      using keeps_upd_loop [OF ok lp, of begin_calling] keeps_upd_loop [of ?w1 lp "\<lambda>l. snd (swap_pending l)"]
      by (simp_all add: begin_calling_def swap_pending_def upd_loop_def)
    then have "world_le ?w2 w3" using keepsD [OF wc.keeps_run_functors [OF runs_functors_safe [OF ex]] _ Inr] by blast
    then have l3: "w_loops w3 lp \<noteq> None" using world_le_loop l2 by blast
    have "act_step lp ?p2 BatchEnds (resting (upd_loop lp end_calling w3))"
      using act_step.batch_ends [of ?p2 lp ?fs] l3 by simp
    then have "trace lp ?p2 [BatchEnds] (resting (upd_loop lp end_calling w3))" by simp
    from trace_join [OF 1 trace_join [OF 2 this]] show ?thesis
      using Inr by (simp add: doPendingFunctors_def Let_def upd_loop_def)
  qed
qed

text \<open>The whole call, as \<open>EventLoop\<close> defines it, is one of the runs in which nothing comes between its functors.\<close>

lemma doPendingFunctors_steps:
  assumes ex: "runs_functors ex" and ok: "world_ok w" and lp: "w_loops w lp \<noteq> None"
    and run: "doPendingFunctors (loop_at lp) (upd_loop lp) ex w = Inr w'"
  shows "program_run (resting w) {} (resting w') \<and> w_loops w' lp \<noteq> None"
  using doPendingFunctors_acts [OF ex ok lp] trace_run unfolding run sum.case by blast

subsection \<open>\<open>EventLoop::loop\<close>\<close>

text \<open>Polling touches no loop: clearing the list of active channels first makes no difference.\<close>

lemma fill_events_loops:
  "fill_events world_set_revents evs act w = Inr (act', w') \<Longrightarrow>
     w_loops w' = w_loops w \<and> fill_events world_set_revents evs act (w\<lparr>w_loops := m\<rparr>) = Inr (act', w'\<lparr>w_loops := m\<rparr>)"
proof (induction evs arbitrary: act w)
  case (Cons ev evs)
  then obtain w1 where w1: "world_set_revents (ev_ptr ev) (ev_events ev) w = Inr w1"
      "fill_events world_set_revents evs (act @ [ev_ptr ev]) w1 = Inr (act', w')"
    by (auto simp: bindE_eq_Inr)
  then have "w_loops w1 = w_loops w" "world_set_revents (ev_ptr ev) (ev_events ev) (w\<lparr>w_loops := m\<rparr>) = Inr (w1\<lparr>w_loops := m\<rparr>)"
    by (auto simp: world_set_revents_def bindE_eq_Inr the_chan_def put_chan_def split: option.splits)
  with Cons.IH [OF w1(2)] show ?case by simp
qed simp

lemma poller_poll_loops:
  assumes "poller_poll sys t world_set_revents p w = Inr (active, p', w')"
  shows "w_loops w' = w_loops w \<and> poller_poll sys t world_set_revents p (w\<lparr>w_loops := m\<rparr>) = Inr (active, p', w'\<lparr>w_loops := m\<rparr>)"
  using assms fill_events_loops [of _ "[]" w active w' m]
  by (auto simp: poller_poll_def fillActiveChannels_def bindE_eq_Inr guardE_eq_Inr Let_def split: prod.splits if_splits)

lemma world_poll_cleared:
  assumes l: "w_loops w lp = Some l"
    and poll: "poller_poll sys kPollTimeMs world_set_revents (el_poller (loop_at lp (upd_loop lp (\<lambda>l. l\<lparr>el_activeChannels := []\<rparr>) w)))
      (upd_loop lp (\<lambda>l. l\<lparr>el_activeChannels := []\<rparr>) w) = Inr (active, p, w2)"
  shows "world_poll sys lp w =
    Inr (upd_loop lp (\<lambda>l. l\<lparr>el_poller := p, el_activeChannels := active, el_pollReturnTime := sys_now sys\<rparr>) w2)"
proof -
  let ?w1 = "w\<lparr>w_loops := (w_loops w)(lp \<mapsto> l\<lparr>el_activeChannels := []\<rparr>)\<rparr>"
  have "upd_loop lp (\<lambda>l. l\<lparr>el_activeChannels := []\<rparr>) w = ?w1" by (simp add: upd_loop_def put_loop_def loop_at_def l)
  with poll have "poller_poll sys kPollTimeMs world_set_revents (el_poller l) ?w1 = Inr (active, p, w2)" by (simp add: loop_at_def)
  from poller_poll_loops [OF this, of "w_loops w"]
  have w2: "w_loops w2 = (w_loops w)(lp \<mapsto> l\<lparr>el_activeChannels := []\<rparr>)"
    and r: "poller_poll sys kPollTimeMs world_set_revents (el_poller l) w = Inr (active, p, w2\<lparr>w_loops := w_loops w\<rparr>)" by simp_all
  then show ?thesis
    using l by (simp add: world_poll_def the_loop_def upd_loop_def put_loop_def loop_at_def)
qed

lemma poller_poll_Inl:
  assumes "poller_poll sys t world_set_revents p w = Inl e"
  shows "poller_poll sys t world_set_revents p (w\<lparr>w_loops := m\<rparr>) = Inl e"
proof -
  have "fill_events world_set_revents evs act (v\<lparr>w_loops := m\<rparr>) = Inl e"
    if "fill_events world_set_revents evs act v = Inl e" for evs act v
    using that
  proof (induction evs arbitrary: act v)
    case (Cons ev evs)
    show ?case
    proof (cases "w_chans v (ev_ptr ev)")
      case None
      then show ?thesis using Cons.prems by (simp add: world_set_revents_def the_chan_def)
    next
      case (Some ch)
      let ?v = "put_chan (ev_ptr ev) (set_revents (ev_events ev) ch) v"
      have 1: "world_set_revents (ev_ptr ev) (ev_events ev) v = Inr ?v"
          "world_set_revents (ev_ptr ev) (ev_events ev) (v\<lparr>w_loops := m\<rparr>) = Inr (?v\<lparr>w_loops := m\<rparr>)"
        using Some by (simp_all add: world_set_revents_def the_chan_def put_chan_def)
      then show ?thesis using Cons.IH [of _ ?v] Cons.prems by simp
    qed
  qed simp
  then show ?thesis
    using assms
    by (auto simp: poller_poll_def fillActiveChannels_def bindE_eq_Inl guardE_def Let_def split: prod.splits if_splits)
qed

lemma world_poll_failed:
  assumes l: "w_loops w lp = Some l"
    and poll: "poller_poll sys kPollTimeMs world_set_revents (el_poller (loop_at lp (upd_loop lp (\<lambda>l. l\<lparr>el_activeChannels := []\<rparr>) w)))
      (upd_loop lp (\<lambda>l. l\<lparr>el_activeChannels := []\<rparr>) w) = Inl e"
  shows "world_poll sys lp w = Inl e"
proof -
  let ?w1 = "w\<lparr>w_loops := (w_loops w)(lp \<mapsto> l\<lparr>el_activeChannels := []\<rparr>)\<rparr>"
  have w1: "upd_loop lp (\<lambda>l. l\<lparr>el_activeChannels := []\<rparr>) w = ?w1" by (simp add: upd_loop_def put_loop_def loop_at_def l)
  have e: "poller_poll sys kPollTimeMs world_set_revents (el_poller l) ?w1 = Inl e" using poll by (simp add: w1 loop_at_def)
  show ?thesis
  proof (cases "poller_poll sys kPollTimeMs world_set_revents (el_poller l) w")
    case (Inl e')
    have "e' = e" using poller_poll_Inl [OF Inl] e by simp
    then show ?thesis using Inl l by (simp add: world_poll_def the_loop_def)
  next
    case (Inr r)
    then obtain active p w' where "r = (active, p, w')" by (cases r)
    then show ?thesis using poller_poll_loops [of sys kPollTimeMs "el_poller l" w active p w'] Inr e by simp
  qed
qed

lemma handle_active_acts:
  assumes di: "runs_events di"
  shows "program_ok (resting w) \<Longrightarrow> w_loops w lp \<noteq> None \<Longrightarrow>
    case handle_active di t xs w of
      Inr w' \<Rightarrow> trace lp (resting w) (map (Handled t) xs) (resting w') \<and> w_loops w' lp \<noteq> None
    | Inl e \<Rightarrow> breaks lp (resting w) (map (Handled t) xs) e"
proof (induction xs arbitrary: w)
  case Nil
  then show ?case by simp
next
  case (Cons x xs)
  obtain env where k: "kernel (e_sys env)" "fresh_conn env w" and eq: "di t x w = dispatch env t x w"
    using runs_eventsE [OF di, of w t x] .
  show ?case
  proof (cases "di t x w")
    case (Inl e)
    then have "act_fault lp (resting w) (Handled t x) e" using k eq by auto
    from breaks_here [OF this] show ?thesis using Inl by simp
  next
    case (Inr w1)
    have step: "act_step lp (resting w) (Handled t x) (resting w1)"
      using act_step.handled [OF k(1), of "resting w" t x w1 lp] k(2) eq Inr by simp
    have ok1: "program_ok (resting w1)"
      using program_step_keeps [OF act_step_program [OF step] Cons.prems(1)] by blast
    have "world_ok w" using program_ok_parts(1) [OF Cons.prems(1)] by simp
    then have "w_loops w1 lp \<noteq> None"
      using kernel.keeps_dispatch [OF k(1) refl _ k(2)] eq Inr world_le_loop Cons.prems(2) by metis
    from Cons.IH [OF ok1 this] show ?thesis
      using step breaks_later [of lp "resting w" "[Handled t x]" "resting w1"] by (auto simp: Inr split: sum.splits)
  qed
qed

lemma loop_iteration_acts:
  assumes k: "kernel sys" and di: "runs_events di" and ex: "runs_functors ex" and ok: "program_ok (resting w)"
    and lp: "w_loops w lp \<noteq> None" and on: "\<not> el_quit (loop_at lp w)"
  shows "case loop_iteration sys (loop_at lp) (upd_loop lp) world_set_revents di ex w of
      Inr w' \<Rightarrow> (\<exists>r. trace lp (resting w) (round_acts r) (resting w')) \<and> w_loops w' lp \<noteq> None
    | Inl e \<Rightarrow> (\<exists>r. breaks lp (resting w) (round_acts r) e)"
proof -
  obtain l where l: "w_loops w lp = Some l" using lp by blast
  let ?w1 = "upd_loop lp (\<lambda>l. l\<lparr>el_activeChannels := []\<rparr>) w"
  let ?poll = "poller_poll sys kPollTimeMs world_set_revents (el_poller (loop_at lp ?w1)) ?w1"
  show ?thesis
  proof (cases ?poll)
    case (Inl e)
    have "act_fault lp (resting w) (Polled 0 []) e" using world_poll_failed [OF l Inl] k on by auto
    from breaks_here [OF this] have "breaks lp (resting w) (round_acts (0, [], [])) e" by simp
    then show ?thesis unfolding loop_iteration_def Let_def Inl bindE_simps sum.case by blast
  next
    case (Inr r)
    then obtain active p w2 where poll: "?poll = Inr (active, p, w2)" by (cases r) auto
    let ?w3 = "upd_loop lp (\<lambda>l. l\<lparr>el_poller := p, el_activeChannels := active, el_pollReturnTime := sys_now sys\<rparr>) w2"
    let ?t = "el_pollReturnTime (loop_at lp ?w3)" and ?xs = "el_activeChannels (loop_at lp ?w3)"
    have it: "loop_iteration sys (loop_at lp) (upd_loop lp) world_set_revents di ex w =
      bindE (handle_active di ?t ?xs ?w3) (doPendingFunctors (loop_at lp) (upd_loop lp) ex)"
      unfolding loop_iteration_def Let_def poll by simp
    have "act_step lp (resting w) (Polled ?t ?xs) (resting ?w3)"
      using act_step.polled [OF k, of lp "resting w" ?w3] on world_poll_cleared [OF l poll] by simp
    then have 1: "trace lp (resting w) [Polled ?t ?xs] (resting ?w3)" by simp
    have ok3: "program_ok (resting ?w3)" using program_run_keeps [OF trace_run [OF 1] ok] by blast
    have h: "case handle_active di ?t ?xs ?w3 of
        Inr w' \<Rightarrow> trace lp (resting ?w3) (map (Handled ?t) ?xs) (resting w') \<and> w_loops w' lp \<noteq> None
      | Inl e \<Rightarrow> breaks lp (resting ?w3) (map (Handled ?t) ?xs) e"
      by (rule handle_active_acts [OF di ok3]) (simp add: upd_loop_def)
    show ?thesis
    proof (cases "handle_active di ?t ?xs ?w3")
      case (Inl e)
      then have "breaks lp (resting w) ([Polled ?t ?xs] @ map (Handled ?t) ?xs @ Taken [] # map Ran [] @ [BatchEnds]) e"
        using h breaks_later [OF 1 breaks_append] by simp
      then have "breaks lp (resting w) (round_acts (?t, ?xs, [])) e" by simp
      then show ?thesis unfolding it Inl bindE_simps sum.case by blast
    next
      case (Inr w4)
      then have 2: "trace lp (resting ?w3) (map (Handled ?t) ?xs) (resting w4)" "w_loops w4 lp \<noteq> None" using h by simp_all
      have "program_ok (resting w4)" using program_run_keeps [OF trace_run [OF 2(1)] ok3] by blast
      then have ok4: "world_ok w4" using program_ok_parts(1) by fastforce
      note 3 = trace_join [OF 1 2(1)]
      have "round_acts (?t, ?xs, pend w4 lp) = ([Polled ?t ?xs] @ map (Handled ?t) ?xs) @
          Taken (pend w4 lp) # map Ran (pend w4 lp) @ [BatchEnds]" by simp
      then show ?thesis
        using doPendingFunctors_acts [OF ex ok4 2(2)] trace_join [OF 3] breaks_later [OF 3]
        unfolding it Inr bindE_simps by (cases "doPendingFunctors (loop_at lp) (upd_loop lp) ex w4") (simp_all only: sum.case, metis+)
    qed
  qed
qed

lemma loop_while_acts:
  assumes di: "runs_events di" and ex: "runs_functors ex"
  shows "\<forall>sys \<in> set syss. kernel sys \<Longrightarrow> program_ok (resting w) \<Longrightarrow> w_loops w lp \<noteq> None \<Longrightarrow>
    case loop_while syss (loop_at lp) (upd_loop lp) world_set_revents di ex w of
      None \<Rightarrow> \<exists>rs w'. length rs = length syss \<and> trace lp (resting w) (rounds rs) (resting w') \<and> \<not> el_quit (loop_at lp w')
    | Some (Inr w') \<Rightarrow> \<exists>rs. length rs \<le> length syss \<and> trace lp (resting w) (rounds rs) (resting w') \<and>
        w_loops w' lp \<noteq> None \<and> el_quit (loop_at lp w')
    | Some (Inl e) \<Rightarrow> \<exists>rs. length rs \<le> length syss \<and> breaks lp (resting w) (rounds rs) e"
proof (induction syss arbitrary: w)
  case Nil
  then show ?case by (auto intro: exI [of _ "[]"])
next
  case (Cons sys syss)
  note prems = Cons.prems
  show ?case
  proof (cases "el_quit (loop_at lp w)")
    case True
    then show ?thesis using prems by (auto intro: exI [of _ "[]"])
  next
    case on: False
    note it = loop_iteration_acts [OF _ di ex prems(2,3) on, of sys]
    show ?thesis
    proof (cases "loop_iteration sys (loop_at lp) (upd_loop lp) world_set_revents di ex w")
      case (Inl e)
      have "\<exists>r. breaks lp (resting w) (round_acts r) e" using it prems(1) unfolding Inl sum.case by simp
      then obtain r where "breaks lp (resting w) (rounds [r]) e" by (auto simp del: round_acts.simps split_paired_Ex)
      then show ?thesis using Inl on
        by (simp del: round_acts.simps split_paired_Ex) (rule exI [of _ "[r]"], simp del: round_acts.simps)
    next
      case (Inr w1)
      have "(\<exists>r. trace lp (resting w) (round_acts r) (resting w1)) \<and> w_loops w1 lp \<noteq> None"
        using it prems(1) unfolding Inr sum.case by simp
      then obtain r where r: "trace lp (resting w) (round_acts r) (resting w1)" and l1: "w_loops w1 lp \<noteq> None" by blast
      have ok1: "program_ok (resting w1)" using program_run_keeps [OF trace_run [OF r] prems(2)] by blast
      have "\<forall>sys \<in> set syss. kernel sys" using prems(1) by simp
      note IH = Cons.IH [OF this ok1 l1]
      have same: "loop_while (sys # syss) (loop_at lp) (upd_loop lp) world_set_revents di ex w =
          loop_while syss (loop_at lp) (upd_loop lp) world_set_revents di ex w1" using on Inr by simp
      have r_rs: "rounds (r # rs) = round_acts r @ rounds rs" "length (r # rs) = Suc (length rs)"
          "length (sys # syss) = Suc (length syss)" for rs by simp_all
      show ?thesis
      proof (cases "loop_while syss (loop_at lp) (upd_loop lp) world_set_revents di ex w1")
        case None
        with IH obtain rs w' where "length rs = length syss" "trace lp (resting w1) (rounds rs) (resting w')"
            "\<not> el_quit (loop_at lp w')" unfolding None option.case by blast
        with trace_join [OF r this(2)] show ?thesis
          unfolding same None option.case by (intro exI [of _ "r # rs"] exI [of _ w']) (simp only: r_rs simp_thms)
      next
        case (Some res)
        show ?thesis
        proof (cases res)
          case (Inl e)
          with IH Some obtain rs where "length rs \<le> length syss" "breaks lp (resting w1) (rounds rs) e" by auto
          with breaks_later [OF r this(2)] show ?thesis
            unfolding same Some Inl option.case sum.case by (intro exI [of _ "r # rs"]) (simp only: r_rs Suc_le_mono simp_thms)
        next
          case (Inr w')
          with IH Some obtain rs where "length rs \<le> length syss" "trace lp (resting w1) (rounds rs) (resting w')"
              "w_loops w' lp \<noteq> None" "el_quit (loop_at lp w')" by auto
          with trace_join [OF r this(2)] show ?thesis
            unfolding same Some Inr option.case sum.case by (intro exI [of _ "r # rs"]) (simp only: r_rs Suc_le_mono simp_thms)
        qed
      qed
    qed
  qed
qed

text \<open>The whole call: entered, rounds, left.\<close>

lemma loop_acts:
  assumes di: "runs_events di" and ex: "runs_functors ex" and k: "\<forall>sys \<in> set syss. kernel sys"
    and ok: "program_ok (resting w)" and lp: "w_loops w lp \<noteq> None"
  shows "case loop syss (loop_at lp) (upd_loop lp) world_set_revents di ex w of
      None \<Rightarrow> \<exists>rs w'. length rs = length syss \<and> trace lp (resting w) (LoopBegins # rounds rs) (resting w') \<and> \<not> el_quit (loop_at lp w')
    | Some (Inr w') \<Rightarrow> \<exists>rs. length rs \<le> length syss \<and> trace lp (resting w) (LoopBegins # rounds rs @ [LoopEnds]) (resting w') \<and>
        (\<exists>l. w_loops w' lp = Some l \<and> el_quit l \<and> \<not> el_looping l)
    | Some (Inl e) \<Rightarrow> \<exists>rs. length rs \<le> length syss \<and> breaks lp (resting w) (LoopBegins # rounds rs) e"
proof -
  let ?w1 = "upd_loop lp (\<lambda>l. l\<lparr>el_looping := True, el_quit := False\<rparr>) w"
  let ?while = "loop_while syss (loop_at lp) (upd_loop lp) world_set_revents di ex ?w1"
  have "act_step lp (resting w) LoopBegins (resting ?w1)" using act_step.begins [of "resting w" lp] lp by simp
  then have 1: "trace lp (resting w) [LoopBegins] (resting ?w1)" by simp
  have ok1: "program_ok (resting ?w1)" using program_run_keeps [OF trace_run [OF 1] ok] by blast
  have "w_loops ?w1 lp \<noteq> None" by (simp add: upd_loop_def)
  note W = loop_while_acts [OF di ex k ok1 this]
  have ends: "trace lp (resting w2) [LoopEnds] (resting (upd_loop lp (\<lambda>l. l\<lparr>el_looping := False\<rparr>) w2))"
    if "w_loops w2 lp \<noteq> None" "el_quit (loop_at lp w2)" for w2
    using act_step.ends [of "resting w2" lp] that by simp
  show ?thesis
  proof (cases ?while)
    case None
    with W obtain rs w' where rs: "length rs = length syss" "trace lp (resting ?w1) (rounds rs) (resting w')"
        "\<not> el_quit (loop_at lp w')" unfolding None option.case by blast
    have "loop syss (loop_at lp) (upd_loop lp) world_set_revents di ex w = None" by (simp add: loop_def Let_def None)
    with rs trace_join [OF 1 rs(2)] show ?thesis by (intro exI [of _ rs] exI [of _ w'] | simp only: option.case append.simps simp_thms)+
  next
    case (Some res)
    show ?thesis
    proof (cases res)
      case (Inl e)
      with W Some obtain rs where rs: "length rs \<le> length syss" "breaks lp (resting ?w1) (rounds rs) e" by auto
      have "loop syss (loop_at lp) (upd_loop lp) world_set_revents di ex w = Some (Inl e)" by (simp add: loop_def Let_def Some Inl)
      with rs breaks_later [OF 1 rs(2)] show ?thesis
        by (intro exI [of _ rs] | simp only: option.case sum.case append.simps simp_thms)+
    next
      case (Inr w2)
      with W Some obtain rs where rs: "length rs \<le> length syss" "trace lp (resting ?w1) (rounds rs) (resting w2)"
          "w_loops w2 lp \<noteq> None" "el_quit (loop_at lp w2)" by auto
      let ?w' = "upd_loop lp (\<lambda>l. l\<lparr>el_looping := False\<rparr>) w2"
      have run: "loop syss (loop_at lp) (upd_loop lp) world_set_revents di ex w = Some (Inr ?w')"
        by (simp add: loop_def Let_def Some Inr)
      have "trace lp (resting w) (LoopBegins # rounds rs @ [LoopEnds]) (resting ?w')"
        using trace_join [OF 1 trace_join [OF rs(2) ends [OF rs(3,4)]]] by simp
      moreover have "\<exists>l. w_loops ?w' lp = Some l \<and> el_quit l \<and> \<not> el_looping l" using rs(3,4) by (auto simp: upd_loop_def)
      ultimately show ?thesis unfolding run option.case sum.case using rs(1) by blast
    qed
  qed
qed

lemma loop_steps:
  assumes "runs_events di" "runs_functors ex" "\<forall>sys \<in> set syss. kernel sys" "program_ok (resting w)" "w_loops w lp \<noteq> None"
    and run: "loop syss (loop_at lp) (upd_loop lp) world_set_revents di ex w = Some (Inr w')"
  shows "program_run (resting w) {} (resting w') \<and> (\<exists>l. w_loops w' lp = Some l \<and> el_quit l \<and> \<not> el_looping l)"
  using loop_acts [OF assms(1-5)] trace_run unfolding run option.case sum.case by blast

subsection \<open>\<open>~TcpServer\<close>\<close>

text \<open>The destructor of a server is a run, if what happens while it joins its threads is a run that leaves its table alone.\<close>

lemma quit_threads_steps:
  assumes k: "kernel sys" and join: "\<forall>lp w w'. join lp w = Inr w' \<longrightarrow>
      (\<exists>D. program_run (resting w) D (resting w')) \<and> w_servers w' s = w_servers w s"
  shows "quit_threads sys tid join lps w = Inr w' \<Longrightarrow>
    (\<exists>D. program_run (resting w) D (resting w')) \<and> w_servers w' s = w_servers w s"
proof (induction lps arbitrary: w)
  case Nil
  then show ?case using program_run.none by fastforce
next
  case (Cons lp lps)
  let ?w1 = "upd_loop lp (quit sys tid) w"
  obtain w2 where l: "w_loops w lp \<noteq> None" and w2: "join lp ?w1 = Inr w2" and rest: "quit_threads sys tid join lps w2 = Inr w'"
    using Cons.prems by (auto simp: bindE_eq_Inr the_simps)
  have "run_user sys tid [QuitLoop lp] w = Inr ?w1" using l by (auto simp: the_loop_def)
  then have 1: "program_run (resting w) {} (resting ?w1)"
    using program_run_rest [OF program_run.none] program_step.user [OF k, of tid "[QuitLoop lp]" "resting w" ?w1] by simp
  obtain D where "program_run (resting ?w1) D (resting w2)" "w_servers w2 s = w_servers ?w1 s" using join w2 by blast
  moreover obtain E where "program_run (resting w2) E (resting w')" "w_servers w' s = w_servers w2 s"
    using Cons.IH [OF rest] by blast
  moreover note program_run_trans [OF calculation(3) program_run_trans [OF calculation(1) 1]]
  ultimately show ?case by (auto simp: upd_loop_def)
qed

lemma TcpServer_dtor_steps:
  assumes k: "kernel (e_sys env)" and sv: "w_servers w s = Some sv" "dom (sv_connections sv) \<subseteq> set nms"
    and join: "\<forall>lp w w'. join lp w = Inr w' \<longrightarrow>
      (\<exists>D. program_run (resting w) D (resting w')) \<and> w_servers w' s = w_servers w s"
    and run: "TcpServer_dtor env join s nms w = Inr w'"
  shows "\<exists>D. program_run (resting w) D (resting w')"
proof -
  obtain w1 sv1 w2 where w1: "TcpServer.destroy_connections env s nms w = Inr w1" and sv1: "w_servers w1 s = Some sv1"
    and w2: "quit_threads (e_sys env) (e_tid env) join (tp_loops (sv_threadPool sv1)) w1 = Inr w2"
    and w': "TcpServer.free_server (e_sys env) s w2 = Inr w'"
    using run by (auto simp: TcpServer_dtor_def bindE_eq_Inr the_simps)
  have "sv_connections sv1 nm = None" for nm
    using kernel.destroyed_table [OF k w1 sv(1)] sv(2) sv1 by (cases "sv_connections sv nm") auto
  then have empty: "sv_connections sv1 = Map.empty" by (simp add: fun_eq_iff)
  have 1: "program_run (resting w) {} (resting w1)"
    using program_run_rest [OF program_run.none] program_step.destroy_connections [OF k, of s nms "resting w" w1] w1 by simp
  obtain D where 2: "program_run (resting w1) D (resting w2)" "w_servers w2 s = w_servers w1 s"
    using quit_threads_steps [OF k join w2] by blast
  have "program_step (resting w2) {} (resting w2\<lparr>pg_world := w'\<rparr>)"
    using program_step.free_server [OF k, of "resting w2" s sv1 w'] 2(2) sv1 empty w' by simp
  from program_run_rest [OF program_run_trans [OF 2(1) 1] this] show ?thesis by blast
qed

end
