(* ===== verification/Scenario.thy ===== *)
theory Scenario
  imports LoopRuns
begin

text \<open>
  A server at work, step by step: constructed, started, polled, and given a client. The worlds
  of this run are the concrete inputs of the properties of the server and of the program.
\<close>

subsection \<open>The participants\<close>

text \<open>
  Loop 1 with its wake-up channel 2 on descriptor 4, server 7 with acceptor 8 and channel 9 on descriptor 6; a
  client is accepted as descriptor 5, connection 20 with channel 21. Descriptor 6 is readable.
\<close>

definition sc_sys :: os where
  "sc_sys = os_with 9 [] [(6, 1)]"

definition sc_env :: env where
  "sc_env = \<lparr>e_sys = sc_sys, e_tid = 100, e_user = (\<lambda>_ _. []),
     e_accept = (\<lambda>_. (5, EAGAIN, InetAddress_port 81 True)), e_sockname = (\<lambda>_. None), e_new = (20, 21)\<rparr>"

definition sc_wakeup_chan :: "callback channel" where
  "sc_wakeup_chan = (setReadCallback (EventLoop_handleRead 1) (Channel_ctor 2 1 4))\<lparr>ch_events := 3, ch_index := kAdded\<rparr>"

definition sc_poller :: "(int \<Rightarrow> ptr option) \<Rightarrow> interest \<Rightarrow> poller" where
  "sc_poller m k = \<lparr>pl_loop = 1, pl_channels = m, pl_epollfd = 3, pl_events_size = kInitEventListSize, pl_interest = k\<rparr>"

definition sc_ev :: "ptr \<Rightarrow> epoll_event" where
  "sc_ev x = \<lparr>ev_events = 3, ev_ptr = x\<rparr>"

definition sc_loop :: "poller \<Rightarrow> ptr list \<Rightarrow> eventloop" where
  "sc_loop p act = \<lparr>el_addr = 1, el_looping = False, el_quit = False, el_threadId = 100,
     el_pollReturnTime = 0, el_poller = p, el_wakeupFd = 4, el_wakeupChannel = 2, el_activeChannels = act,
     el_callingPendingFunctors = False, el_pendingFunctors = [], el_wakeups = 0\<rparr>"

definition sc_acceptor_chan :: "callback channel" where
  "sc_acceptor_chan = setReadCallback (Acceptor_handleRead 8) (Channel_ctor 9 1 6)"

definition sc_acceptor :: acceptor where
  "sc_acceptor = \<lparr>ac_loop = 1,
     ac_socket = (Socket_ctor 6)\<lparr>sk_reuseaddr := True, sk_bound := Some (InetAddress_port 80 False)\<rparr>,
     ac_channel = 9, newConnectionCallback = Some 7, ac_listening = False, ac_idleFd = 10\<rparr>"

definition sc_server :: tcp_server where
  "sc_server = \<lparr>sv_loop = 1, sv_ipPort = toIpPort (InetAddress_port 80 False), sv_name = ''s'', sv_acceptor = 8,
     sv_threadPool = EventLoopThreadPool_ctor 1 ''s'', sv_connectionCallback = Some DefaultConnectionCallback,
     sv_messageCallback = Some DefaultMessageCallback, sv_writeCompleteCallback = None,
     sv_threadInitCallback = None, sv_started = 0, sv_nextConnId = 1, sv_connections = Map.empty\<rparr>"

subsection \<open>The run\<close>

abbreviation sc_boot :: world where
  "sc_boot \<equiv> booted 1 (sc_loop (sc_poller [4 \<mapsto> 2] [4 \<mapsto> sc_ev 2]) []) 2 sc_wakeup_chan"

definition sc_constructed :: world where
  "sc_constructed = sc_boot\<lparr>w_chans := [2 \<mapsto> sc_wakeup_chan, 9 \<mapsto> sc_acceptor_chan],
     w_acceptors := [8 \<mapsto> sc_acceptor], w_servers := [7 \<mapsto> sc_server]\<rparr>"

lemma scenario_boot:
  "EventLoop_ctor sc_sys False 3 4 None 100 1 2 =
     Inr (sc_loop (sc_poller [4 \<mapsto> 2] [4 \<mapsto> sc_ev 2]) [], sc_wakeup_chan)"
  by (simp add: EventLoop_ctor_def newDefaultPoller_def EPollPoller_ctor_def createEventfd_def bindE_def guardE_def
      enableReading_def channel_update_def loop_updateChannel_def poller_updateChannel_def poller_update_def
      index_defs set_index_def Let_def sc_sys_def os_with_def epoll_man_def sc_loop_def sc_poller_def sc_wakeup_chan_def
      sc_ev_def setReadCallback_def Channel_ctor_def)

lemma scenario_construct:
  "TcpServer_ctor 6 10 0 7 8 9 1 (InetAddress_port 80 False) ''s'' kNoReusePort sc_boot = Inr sc_constructed"
  by (simp add: TcpServer_ctor_def Acceptor_ctor_def createNonblocking_def bindAddress_def bindE_def guardE_def
      the_acceptor_def put_acceptor_def put_chan_def put_server_def booted_def sc_constructed_def sc_acceptor_def
      sc_server_def setNewConnectionCallback_def Socket_ctor_def setReusePort_def setReuseAddr_def sc_acceptor_chan_def)

definition sc_listening_chan :: "callback channel" where
  "sc_listening_chan = sc_acceptor_chan\<lparr>ch_events := 3, ch_index := kAdded\<rparr>"

definition sc_listening_loop :: "ptr list \<Rightarrow> eventloop" where
  "sc_listening_loop = sc_loop (sc_poller [4 \<mapsto> 2, 6 \<mapsto> 9] [4 \<mapsto> sc_ev 2, 6 \<mapsto> sc_ev 9])"

definition sc_running :: tcp_server where
  "sc_running = sc_server\<lparr>sv_started := 1, sv_threadPool := (EventLoopThreadPool_ctor 1 ''s'')\<lparr>tp_started := True\<rparr>\<rparr>"

definition sc_started :: world where
  "sc_started = sc_constructed\<lparr>w_chans := [2 \<mapsto> sc_wakeup_chan, 9 \<mapsto> sc_listening_chan],
     w_acceptors := [8 \<mapsto> sc_acceptor\<lparr>ac_listening := True, ac_socket := (ac_socket sc_acceptor)\<lparr>sk_listening := True\<rparr>\<rparr>],
     w_servers := [7 \<mapsto> sc_running], w_loops := [1 \<mapsto> sc_listening_loop []]\<rparr>"

lemmas world_step_defs = the_conn_def the_chan_def the_loop_def the_server_def the_acceptor_def
  put_conn_def put_chan_def put_loop_def put_server_def put_acceptor_def upd_loop_def loop_at_def
  bindE_def guardE_def Let_def

lemmas registration_defs = chan_call_def enableReading_def channel_update_def loop_updateChannel_def
  poller_updateChannel_def poller_update_def index_defs set_index_def epoll_man_def

lemma scenario_start:
  "server_start sc_env (startLoop sc_sys sp) 0 7 sc_constructed = Inr sc_started"
  by (simp add: server_start_def start_def init_callback_def run_call_def runInLoop_def isInLoopThread_def
      acceptor_listen_def socket_listen_def world_step_defs registration_defs sc_sys_def os_with_def
      sc_env_def sc_constructed_def sc_started_def booted_def sc_server_def sc_running_def sc_loop_def sc_poller_def
      sc_listening_loop_def sc_listening_chan_def sc_acceptor_chan_def sc_acceptor_def sc_ev_def
      EventLoopThreadPool_ctor_def setReadCallback_def Channel_ctor_def fun_upd_twist [of 7])

definition sc_polled :: world where
  "sc_polled = sc_started\<lparr>w_chans := [2 \<mapsto> sc_wakeup_chan, 9 \<mapsto> sc_listening_chan\<lparr>ch_revents := 1\<rparr>],
     w_loops := [1 \<mapsto> sc_listening_loop [9]]\<rparr>"

lemma scenario_poll: "world_poll sc_sys 1 sc_started = Inr sc_polled"
  by (simp add: world_poll_def poller_poll_def fillActiveChannels_def world_set_revents_def set_revents_def
      world_step_defs sc_sys_def os_with_def wait_ready_def List.map_filter_def epoll_masks
      sc_started_def sc_polled_def sc_constructed_def sc_listening_loop_def sc_loop_def sc_poller_def sc_ev_def
      kInitEventListSize_def)

definition sc_conn :: tcp_connection where
  "sc_conn = \<lparr>tc_loop = 1, tc_name = connection_name sc_running, tc_state = kConnected, tc_reading = True,
     tc_socket = setKeepAlive True (Socket_ctor 5), tc_channel = 21,
     tc_localAddr = \<lparr>sin_family = 0, sin_port = 0, s_addr = 0\<rparr>, tc_peerAddr = InetAddress_port 81 True,
     connectionCallback = Some DefaultConnectionCallback, messageCallback = Some DefaultMessageCallback,
     writeCompleteCallback = None, highWaterMarkCallback = None, tc_closeCallback = Some 7,
     highWaterMark = 64 * 1024 * 1024,
     inputBuffer = \<lparr>storage = replicate 1032 0, readerIndex = 8, writerIndex = 8\<rparr>,
     outputBuffer = \<lparr>storage = replicate 1032 0, readerIndex = 8, writerIndex = 8\<rparr>\<rparr>"

definition sc_conn_chan :: "callback channel" where
  "sc_conn_chan = \<lparr>ch_addr = 21, ch_loop = 1, ch_fd = 5, ch_events = 3, ch_revents = 0, ch_index = kAdded,
     ch_tie = Some 20, ch_tied = True, readCallback = Some (TcpConnection_handleRead 20),
     writeCallback = Some (TcpConnection_handleWrite 20), closeCallback = Some (TcpConnection_handleClose 20),
     errorCallback = Some (TcpConnection_handleError 20)\<rparr>"

definition sc_accepted :: world where
  "sc_accepted = sc_polled\<lparr>w_conns := [20 \<mapsto> sc_conn],
     w_chans := [2 \<mapsto> sc_wakeup_chan, 9 \<mapsto> sc_listening_chan\<lparr>ch_revents := 1\<rparr>, 21 \<mapsto> sc_conn_chan],
     w_loops := [1 \<mapsto> sc_loop (sc_poller [4 \<mapsto> 2, 6 \<mapsto> 9, 5 \<mapsto> 21] [4 \<mapsto> sc_ev 2, 6 \<mapsto> sc_ev 9, 5 \<mapsto> sc_ev 21]) [9]],
     w_servers := [7 \<mapsto> sc_running\<lparr>sv_nextConnId := 2, sv_connections := [connection_name sc_running \<mapsto> 20]\<rparr>]\<rparr>"

lemma initial_buffer: "Buffer_ctor kInitialSize = Inr \<lparr>storage = replicate 1032 0, readerIndex = 8, writerIndex = 8\<rparr>"
  by (simp add: Buffer_ctor_def vector_resize_def kInitialSize_def kCheapPrepend_def vector_max_def bindE_def)

lemma scenario_newConnection: "newConnection sc_env 7 5 (InetAddress_port 81 True) sc_polled = Inr sc_accepted"
  by (simp add: newConnection_def TcpConnection_ctor_def initial_buffer
      run_call_def runInLoop_def isInLoopThread_def connectEstablished_def chan_tie_def tie_def setState_def
      call_connectionCallback_def getNextLoop_def world_step_defs registration_defs sc_sys_def os_with_def
      setConnCloseCallback_def setWriteCompleteCallback_def setMessageCallback_def setConnectionCallback_def
      setErrorCallback_def setCloseCallback_def setWriteCallback_def setReadCallback_def Channel_ctor_def
      sc_env_def sc_polled_def sc_started_def sc_constructed_def booted_def sc_accepted_def sc_conn_def sc_conn_chan_def
      sc_running_def sc_server_def sc_loop_def sc_poller_def sc_listening_loop_def sc_listening_chan_def
      sc_acceptor_chan_def sc_ev_def EventLoopThreadPool_ctor_def setKeepAlive_def Socket_ctor_def connection_name_def)

lemma accept_event:
  assumes ch: "w_chans w 9 = Some (sc_listening_chan\<lparr>ch_revents := 1\<rparr>)" "w_chans w' 9 = Some (sc_listening_chan\<lparr>ch_revents := 1\<rparr>)"
    and r: "run_callback sc_env 0 (Acceptor_handleRead 8) w = Inr w'"
  shows "dispatch sc_env 0 9 w = Inr w'"
proof -
  have f: "\<not> ch_tied sc_listening_chan" "readCallback sc_listening_chan = Some (Acceptor_handleRead 8)"
      "writeCallback sc_listening_chan = None" "closeCallback sc_listening_chan = None"
      "errorCallback sc_listening_chan = None"
    by (simp_all add: sc_listening_chan_def sc_acceptor_chan_def setReadCallback_def Channel_ctor_def)
  show ?thesis
    using r ch f by (simp add: dispatch_def handleEvent_def handleEventWithGuard_def call_if_def chan_at_def
        the_chan_def epoll_masks)
qed

lemma scenario_accept: "dispatch sc_env 0 9 sc_polled = Inr sc_accepted"
proof -
  have a: "w_acceptors sc_polled 8 = Some (sc_acceptor\<lparr>ac_listening := True,
      ac_socket := (ac_socket sc_acceptor)\<lparr>sk_listening := True\<rparr>\<rparr>)"
    by (simp add: sc_polled_def sc_started_def)
  have "acceptor_handleRead sc_env 8 sc_polled = newConnection sc_env 7 5 (InetAddress_port 81 True) sc_polled"
    using a by (simp add: acceptor_handleRead_def the_acceptor_def socket_accept_def sc_env_def sc_acceptor_def)
  then have r: "run_callback sc_env 0 (Acceptor_handleRead 8) sc_polled = Inr sc_accepted"
    by (simp add: scenario_newConnection)
  have "w_chans sc_polled 9 = Some (sc_listening_chan\<lparr>ch_revents := 1\<rparr>)"
      "w_chans sc_accepted 9 = Some (sc_listening_chan\<lparr>ch_revents := 1\<rparr>)"
    by (simp_all add: sc_polled_def sc_accepted_def)
  then show ?thesis using r by (rule accept_event)
qed

lemma sc_kernel: "kernel sc_sys"
  unfolding sc_sys_def by (rule os_with_kernel.kernel_axioms)

lemma sc_fresh_threads:
  "fresh_threads sp (map (thread_name (tp_name (sv_threadPool sc_server)))
      [0 .. tp_numThreads (sv_threadPool sc_server) - 1]) sc_constructed"
  by (simp add: sc_server_def EventLoopThreadPool_ctor_def fresh_threads_def)

lemma sc_boot_sel:
  "w_loops sc_boot 1 \<noteq> None" "w_chans sc_boot 9 = None" "w_servers sc_boot 7 = None" "w_acceptors sc_boot 8 = None"
  "w_conns sc_boot a = None" "w_chans sc_boot y = Some d \<Longrightarrow> ch_fd d \<noteq> 6"
  by (auto simp: booted_def sc_wakeup_chan_def setReadCallback_def Channel_ctor_def split: if_splits)

lemma scenario_run_constructed: "program_run (resting sc_boot) {} (resting sc_constructed)"
proof -
  have "program_step (resting sc_boot) {} (resting sc_boot\<lparr>pg_world := sc_constructed\<rparr>)"
    using program_step.new_server [of "resting sc_boot" 1 9 7 8 6 10 0 "InetAddress_port 80 False" "''s''" kNoReusePort sc_constructed]
      sc_boot_sel scenario_construct by simp
  then show ?thesis using program_run_step [OF program_run.none] by simp
qed

lemma scenario_run_polled: "program_run (resting sc_boot) {} (resting sc_polled)"
proof -
  have k: "kernel (e_sys sc_env)" using sc_kernel by (simp add: sc_env_def)
  have sv: "w_servers sc_constructed 7 = Some sc_server" by (simp add: sc_constructed_def)
  have "program_step (resting sc_constructed) {} (resting sc_constructed\<lparr>pg_world := sc_started\<rparr>)"
    by (rule program_step.start_server [where env = sc_env and s = 7 and sv = sc_server and ret = 0])
      (use k sv sc_fresh_threads scenario_start in \<open>simp_all add: sc_env_def\<close>)
  then have 2: "program_run (resting sc_boot) {} (resting sc_started)" using program_run_step [OF scenario_run_constructed] by simp
  have "program_step (resting sc_started) {} (resting sc_started\<lparr>pg_world := sc_polled\<rparr>)"
    using program_step.poll [OF sc_kernel, of 1 "resting sc_started" sc_polled] scenario_poll by simp
  then show ?thesis using program_run_step [OF 2] by simp
qed

lemma scenario_run: "program_run (resting sc_boot) {} (resting sc_accepted)"
proof -
  have k: "kernel (e_sys sc_env)" using sc_kernel by (simp add: sc_env_def)
  have "program_step (resting sc_polled) {} (resting sc_polled\<lparr>pg_world := sc_accepted\<rparr>)"
    by (rule program_step.event [where env = sc_env and x = 9 and t = 0])
      (use k scenario_accept in \<open>simp_all add: sc_env_def fresh_conn_def sc_polled_def sc_started_def
        sc_constructed_def booted_def sc_wakeup_chan_def sc_listening_chan_def sc_acceptor_chan_def setReadCallback_def
        Channel_ctor_def\<close>)
  then show ?thesis using program_run_step [OF scenario_run_polled] by simp
qed

lemma sc_boot_ok: "world_ok sc_boot"
  by (rule booted_ok [OF sc_kernel scenario_boot])

lemma sc_polled_ok: "world_ok sc_polled"
  using program_reachable_ok [OF sc_kernel scenario_boot scenario_run_polled] by (simp add: resting_ok fine_def)

lemma sc_accepted_ok: "program_ok (resting sc_accepted)"
  by (rule program_reachable_ok [OF sc_kernel scenario_boot scenario_run])

subsection \<open>A half-close from another thread\<close>

text \<open>
  A user function on thread 200 asks for a half-close of the new connection, which the loop carries out with its next
  batch of functors.
\<close>

definition sc_shut_conn :: tcp_connection where
  "sc_shut_conn = sc_conn\<lparr>tc_state := kDisconnecting, tc_socket := (tc_socket sc_conn)\<lparr>sk_shut_wr := True\<rparr>\<rparr>"

lemma scenario_shutdown:
  "\<exists>w. program_run (resting sc_accepted) {} (resting w) \<and> w_conns w 20 = Some sc_shut_conn"
proof -
  let ?c = "sc_conn\<lparr>tc_state := kDisconnecting\<rparr>"
  let ?w1 = "upd_loop 1 (\<lambda>l. l\<lparr>el_pendingFunctors := [ShutdownInLoop 20], el_wakeups := 1\<rparr>) (put_conn 20 ?c sc_accepted)"
  let ?w2 = "upd_loop 1 (\<lambda>l. l\<lparr>el_wakeups := 1\<rparr>) (put_conn 20 sc_shut_conn sc_accepted)"
  have k: "kernel (e_sys sc_env)" using sc_kernel by (simp add: sc_env_def)
  have 1: "run_user sc_sys 200 [ShutdownConnection 20] sc_accepted = Inr ?w1"
    by (simp add: shutdown_def run_call_def runInLoop_def isInLoopThread_def world_step_defs
        queueInLoop_def push_functor_def needs_wakeup_def wakeup_def sc_accepted_def sc_polled_def sc_loop_def
        setState_def sc_sys_def os_with_def sc_conn_def)
  have 2: "doPendingFunctors (loop_at 1) (upd_loop 1) (exec sc_env 0) ?w1 = Inr ?w2"
    by (simp add: doPendingFunctors_def begin_calling_def swap_pending_def end_calling_def shutdownInLoop_def
        world_step_defs sc_accepted_def sc_polled_def sc_loop_def sc_shut_conn_def sc_conn_def sc_conn_chan_def
        isWriting_def shutdownWrite_def setKeepAlive_def Socket_ctor_def sc_env_def sc_sys_def os_with_def epoll_masks)
  have "program_step (resting sc_accepted) {} (resting sc_accepted\<lparr>pg_world := ?w1\<rparr>)"
    by (rule program_step.user [OF sc_kernel, of 200 "[ShutdownConnection 20]"]) (simp only: 1 program.simps)
  then have "program_run (resting sc_accepted) {} (resting ?w1)" using program_run_step [OF program_run.none] by simp
  moreover have "program_run (resting ?w1) {} (resting ?w2)"
  proof (rule doPendingFunctors_steps [OF runs_functors_exec [OF k] _ _ 2, THEN conjunct1])
    show "world_ok ?w1"
      using keepsD [OF kernel.safe_run_user [OF sc_kernel] _ 1] sc_accepted_ok by (simp add: resting_ok fine_def)
  qed (simp add: upd_loop_def put_loop_def)
  ultimately have "program_run (resting sc_accepted) {} (resting ?w2)" using program_run_trans by fastforce
  moreover have "w_conns ?w2 20 = Some sc_shut_conn" by (simp add: upd_loop_def put_loop_def put_conn_def)
  ultimately show ?thesis by blast
qed

end
