(* ===== verification/ServerProps.thy ===== *)
theory ServerProps
  imports Scenario
begin

text \<open>
  The properties of the server and of the program as a whole.
\<close>

subsection \<open>What a connection has accepted\<close>

text \<open>
  C1: nothing accepted is lost. In every run of the program, whatever the loops, the user
  functions, the clients and the system do, a connection that is not destroyed keeps its name, loop and
  descriptor and never goes back in its life; the bytes handed to the kernel and those that wait
  behind them, taken together, are only ever extended at the end, so what was accepted is
  transmitted in order, without loss, change or repetition; and a write side once shut down stays so.
\<close>

theorem accepted_bytes_survive:
  assumes "program_run p D p'" "program_ok p" "w_conns (pg_world p) a = Some c" "a \<notin> D"
  shows "\<exists>c' new. program_ok p' \<and> w_conns (pg_world p') a = Some c' \<and> tc_name c' = tc_name c \<and> tc_loop c' = tc_loop c \<and>
    sockfd (tc_socket c') = sockfd (tc_socket c) \<and> tc_state c \<le> tc_state c' \<and>
    prefix (sk_sent (tc_socket c)) (sk_sent (tc_socket c')) \<and>
    sk_sent (tc_socket c') @ content (outputBuffer c') =
      sk_sent (tc_socket c) @ content (outputBuffer c) @ new \<and>
    (sk_shut_wr (tc_socket c) \<longrightarrow> sk_shut_wr (tc_socket c'))"
proof -
  have k: "program_ok p'" "survive (pg_world p) D (pg_world p')" using program_run_keeps [OF assms(1,2)] by simp_all
  obtain c' where c': "w_conns (pg_world p') a = Some c'" "conn_le c c'"
    using k(2) assms(3,4) unfolding survive_def by blast
  from c'(2) have "prefix (pipe c) (pipe c')" "prefix (sk_sent (tc_socket c)) (sk_sent (tc_socket c'))"
    by (simp_all add: conn_le_def)
  then obtain m where mn: "pipe c' = pipe c @ m"
    by (auto elim!: prefixE)
  show ?thesis
    using k(1) c' mn
    by (intro exI [of _ c'] exI [of _ m]) (simp add: conn_le_def pipe_def)
qed

theorem accepted_bytes_survive_witness:
  "\<exists>w' c' new. program_run (resting sc_accepted) {} (resting w') \<and> w_conns w' 20 = Some c' \<and>
     tc_name c' = connection_name sc_running \<and> kConnected \<le> tc_state c' \<and> sk_shut_wr (tc_socket c') \<and>
     sk_sent (tc_socket c') @ content (outputBuffer c') = new"
proof -
  obtain w' where w': "program_run (resting sc_accepted) {} (resting w')" "w_conns w' 20 = Some sc_shut_conn"
    using scenario_shutdown by blast
  have c: "w_conns (pg_world (resting sc_accepted)) 20 = Some sc_conn" by (simp add: sc_accepted_def)
  have "tc_name sc_conn = connection_name sc_running" "tc_state sc_conn = kConnected" "sk_shut_wr (tc_socket sc_shut_conn)"
    by (simp_all add: sc_conn_def sc_shut_conn_def)
  with accepted_bytes_survive [OF w'(1) sc_accepted_ok c] w' show ?thesis by auto
qed

subsection \<open>The write interest of every connection\<close>

text \<open>
  C2: the write interest of every connection is exact. However the program has run since its first
  loop was constructed, a connection that is not yet disconnected and whose descriptor the kernel
  watches is watched for writability exactly when its output buffer holds something, on behalf of its own channel
  and in the interest list of its own loop: nothing waits unobserved, and an idle connection
  does not wake the loop.
\<close>

theorem write_interest_exact:
  assumes "kernel sys" "EventLoop_ctor sys up epfd evfd None tid lp0 x0 = Inr (l0, ch0)"
    and "program_run (resting (booted lp0 l0 x0 ch0)) D p"
    and "w_conns (pg_world p) a = Some c" "tc_state c \<noteq> kDisconnected"
  shows "\<exists>l. w_loops (pg_world p) (tc_loop c) = Some l \<and>
    (\<forall>ev. pl_interest (el_poller l) (sockfd (tc_socket c)) = Some ev \<longrightarrow>
      ev_ptr ev = tc_channel c \<and> (ev_events ev AND EPOLLOUT \<noteq> 0) = (content (outputBuffer c) \<noteq> []))"
proof -
  let ?w = "pg_world p"
  have ok: "world_ok ?w" by (rule program_ok_parts(1) [OF program_reachable_ok [OF assms(1-3)]])
  from attachedE [OF ok assms(4)] obtain ch l where at: "attached a c ch l ?w"
    and f: "ch_fd ch = sockfd (tc_socket c)" "chan_inv ch (el_poller l)" "chans_of (tc_loop c) ?w (tc_channel c) = Some ch"
      "isWriting ch = (tc_state c \<noteq> kDisconnected \<and> content (outputBuffer c) \<noteq> [])" by blast
  have l: "w_loops ?w (tc_loop c) = Some l" using at by (simp add: attached_def)
  have addr: "ch_addr ch = tc_channel c"
    using world_okD(1) [OF ok l] f(3) unfolding poller_ok_def fst_conv by blast
  have "ev_ptr ev = tc_channel c \<and> (ev_events ev AND EPOLLOUT \<noteq> 0) = (content (outputBuffer c) \<noteq> [])"
    if "pl_interest (el_poller l) (sockfd (tc_socket c)) = Some ev" for ev
  proof -
    have "watched ch = Some ev" using f(1,2) that by (simp add: chan_inv_def)
    then have "ev = \<lparr>ev_events = ch_events ch, ev_ptr = ch_addr ch\<rparr>" by (simp add: watched_def split: if_splits)
    then show ?thesis using addr f(4) assms(5) by (simp add: isWriting_def epoll_masks)
  qed
  then show ?thesis using l by blast
qed

theorem write_interest_exact_witness:
  "\<exists>l. w_loops sc_accepted 1 = Some l \<and>
    (\<forall>ev. pl_interest (el_poller l) 5 = Some ev \<longrightarrow> ev_ptr ev = 21 \<and> ev_events ev AND EPOLLOUT = 0) \<and>
    pl_interest (el_poller l) 5 = Some (sc_ev 21)"
proof -
  have c: "w_conns (pg_world (resting sc_accepted)) 20 = Some sc_conn" by (simp add: sc_accepted_def)
  have f: "tc_state sc_conn \<noteq> kDisconnected" "tc_loop sc_conn = 1" "tc_channel sc_conn = 21"
      "sockfd (tc_socket sc_conn) = 5" "content (outputBuffer sc_conn) = []"
    by (simp_all add: sc_conn_def setKeepAlive_def Socket_ctor_def content_def)
  from write_interest_exact [OF sc_kernel scenario_boot scenario_run c f(1)] f show ?thesis
    by (auto simp: sc_accepted_def sc_loop_def sc_poller_def)
qed

subsection \<open>The loop as written\<close>

text \<open>
  C7: \<open>EventLoop::loop\<close>, as it is written, takes the steps of the program, in this order and no others: it is entered
  (\<open>looping_\<close> set, \<open>quit_\<close> cleared); then come rounds, each begun only while \<open>quit_\<close> is not set, of one poll, the
  handling of exactly the channels that the poll has reported, in their order, with its time, the swap of the
  functors, the run of exactly these, in their order, and the end of the batch; then, with \<open>quit_\<close> set, it is
  left. Whatever the system answers in the rounds (one element of \<open>syss\<close> each) and whatever each event and each
  functor meets, there are three cases. The call returns: it was such a run, of at most as many rounds as there are
  answers, and it ends consistent with \<open>quit_\<close> set and \<open>looping_\<close> cleared. It ends with a fault: that is the fault
  of the next step of such a run. The answers are used up: as many whole rounds have been run as there are answers, and
  \<open>quit_\<close> is still not set. Each of these steps is one of the step relation, so all that is proved of runs holds.
\<close>

theorem loop_is_run:
  assumes "\<forall>w. kernel (e_sys (envs w)) \<and> fresh_conn (envs w) w" "\<forall>sys \<in> set syss. kernel sys"
    and "program_ok (resting w)" "w_loops w lp \<noteq> None"
  shows "case loop syss (loop_at lp) (upd_loop lp) world_set_revents (\<lambda>t x w. dispatch (envs w) t x w)
      (\<lambda>f w. exec (envs w) ret f w) w of
      Some (Inr w') \<Rightarrow> (\<exists>rs. length rs \<le> length syss \<and>
          trace lp (resting w) (LoopBegins # rounds rs @ [LoopEnds]) (resting w')) \<and>
        program_run (resting w) {} (resting w') \<and> program_ok (resting w') \<and>
        (\<exists>l. w_loops w' lp = Some l \<and> el_quit l \<and> \<not> el_looping l)
    | Some (Inl e) \<Rightarrow> \<exists>rs. length rs \<le> length syss \<and> breaks lp (resting w) (LoopBegins # rounds rs) e
    | None \<Rightarrow> \<exists>rs w'. length rs = length syss \<and> trace lp (resting w) (LoopBegins # rounds rs) (resting w') \<and>
        program_ok (resting w') \<and> \<not> el_quit (loop_at lp w')"
proof -
  let ?di = "\<lambda>t x w. dispatch (envs w) t x w" and ?ex = "\<lambda>f w. exec (envs w) ret f w"
  have "runs_events ?di" "runs_functors ?ex"
    unfolding runs_events_def runs_functors_def using assms(1) by blast+
  note acts = loop_acts [OF this assms(2-4)]
  have keeps: "program_run (resting w) {} (resting v) \<and> program_ok (resting v)" if "trace lp (resting w) as (resting v)" for as v
    using trace_run [OF that] program_run_keeps assms(3) by blast
  show ?thesis
  proof (cases "loop syss (loop_at lp) (upd_loop lp) world_set_revents ?di ?ex w")
    case None
    show ?thesis using acts keeps unfolding None option.case by blast
  next
    case (Some r)
    show ?thesis using acts keeps unfolding Some by (cases r) (simp_all only: option.case sum.case, blast)
  qed
qed

text \<open>A loop that is asked to quit by a functor that another thread has queued.\<close>

definition quit_env :: env where
  "quit_env = sc_env\<lparr>e_sys := os_with 9 [] [], e_user := (\<lambda>_ _. [QuitLoop 1]), e_accept := (\<lambda>_. (- 1, EAGAIN, default_address))\<rparr>"

theorem loop_is_run_witness:
  "\<exists>w w' rs. program_run (resting sc_boot) {} (resting w) \<and> pend w 1 = [UserFunctor 0] \<and>
     trace 1 (resting w) (LoopBegins # rounds rs @ [LoopEnds]) (resting w') \<and> length rs \<le> 1 \<and> pend w' 1 = []"
proof -
  let ?sys = "os_with 9 [] []"
  let ?l = "sc_loop (sc_poller [4 \<mapsto> 2] [4 \<mapsto> sc_ev 2]) []"
  let ?q = "?l\<lparr>el_pendingFunctors := [UserFunctor 0], el_wakeups := 1\<rparr>"
  let ?w = "sc_boot\<lparr>w_loops := [1 \<mapsto> ?q]\<rparr>"
  have k: "kernel ?sys" by (rule os_with_kernel.kernel_axioms)
  have "run_user ?sys 200 [QueueInLoop 1 0] sc_boot = Inr ?w"
    by (simp add: queue_call_def the_loop_def bindE_def upd_loop_def put_loop_def loop_at_def queueInLoop_def push_functor_def
        needs_wakeup_def isInLoopThread_def wakeup_def Let_def booted_def sc_loop_def os_with_def)
  then have "program_step (resting sc_boot) {} (resting sc_boot\<lparr>pg_world := ?w\<rparr>)"
    using program_step.user [OF k, of 200 "[QueueInLoop 1 0]" "resting sc_boot" ?w] by (simp del: run_user.simps)
  note run = program_run_rest [OF program_run.none this]
  have ok: "program_ok (resting ?w)" by (rule program_reachable_ok [OF sc_kernel scenario_boot run])
  have fresh: "\<forall>w. kernel (e_sys quit_env) \<and> fresh_conn quit_env w" using k by (simp add: quit_env_def fresh_conn_def)
  have lp: "w_loops ?w 1 \<noteq> None" by simp
  have 1: "loop [?sys] (loop_at 1) (upd_loop 1) world_set_revents (\<lambda>t x w. dispatch quit_env t x w) (\<lambda>f w. exec quit_env 0 f w) ?w =
      Some (Inr (?w\<lparr>w_loops := [1 \<mapsto> ?l\<lparr>el_wakeups := 1, el_quit := True\<rparr>]\<rparr>))"
    by (simp add: loop_def loop_iteration_def poller_poll_def wait_ready_def os_with_def List.map_filter_def doPendingFunctors_def
        begin_calling_def swap_pending_def end_calling_def call_user_def quit_env_def quit_def set_quit_def isInLoopThread_def
        the_loop_def upd_loop_def put_loop_def loop_at_def sc_loop_def sc_poller_def sc_env_def Let_def bindE_def)
  have "\<forall>sys \<in> set [?sys]. kernel sys" using k by simp
  from loop_is_run [OF fresh this ok lp, of 0] obtain rs where "length rs \<le> 1"
      "trace 1 (resting ?w) (LoopBegins # rounds rs @ [LoopEnds]) (resting (?w\<lparr>w_loops := [1 \<mapsto> ?l\<lparr>el_wakeups := 1, el_quit := True\<rparr>]\<rparr>))"
    unfolding 1 option.case sum.case by auto
  moreover have "pend ?w 1 = [UserFunctor 0]" "pend (?w\<lparr>w_loops := [1 \<mapsto> ?l\<lparr>el_wakeups := 1, el_quit := True\<rparr>]\<rparr>) 1 = []"
    by (simp_all add: pend_def sc_loop_def)
  ultimately show ?thesis using run by blast
qed

subsection \<open>Names and bookkeeping of connections\<close>

definition names_ok :: "tcp_server \<Rightarrow> bool" where
  "names_ok sv \<longleftrightarrow> (\<exists>addr. sv_ipPort sv = toIpPort addr) \<and> 1 \<le> sv_nextConnId sv \<and> sv_nextConnId sv < 2 ^ 31 \<and>
     (\<forall>nm a. sv_connections sv nm = Some a \<longrightarrow>
        (\<exists>k. 1 \<le> k \<and> k < sv_nextConnId sv \<and> nm = sv_name sv @ id_suffix sv k))"

lemma connection_name_eq:
  assumes "names_ok sv"
  shows "connection_name sv = sv_name sv @ id_suffix sv (sv_nextConnId sv)"
proof -
  obtain addr where "sv_ipPort sv = toIpPort addr" using assms by (auto simp: names_ok_def)
  from id_suffix_fits [OF this, of "sv_nextConnId sv"] assms show ?thesis
    by (simp add: names_ok_def connection_name_def id_suffix_def)
qed

lemma connection_name_new: "names_ok sv \<Longrightarrow> sv_connections sv (connection_name sv) = None"
  unfolding connection_name_eq
  by (rule ccontr) (auto simp: names_ok_def id_suffix_inj)

lemma names_ok_accept:
  assumes sv: "names_ok sv" "sv_nextConnId sv < 2 ^ 31 - 1"
    and sv': "sv_ipPort sv' = sv_ipPort sv" "sv_name sv' = sv_name sv" "sv_nextConnId sv' = sv_nextConnId sv + 1"
      "sv_connections sv' = (sv_connections sv)(connection_name sv \<mapsto> a)"
  shows "names_ok sv'"
proof -
  have s: "id_suffix sv' k = id_suffix sv k" for k by (simp add: id_suffix_def sv')
  have "\<exists>k. 1 \<le> k \<and> k < sv_nextConnId sv' \<and> nm = sv_name sv' @ id_suffix sv' k"
    if "sv_connections sv' nm = Some b" for nm b
  proof (cases "nm = connection_name sv")
    case True
    then show ?thesis using sv(1) connection_name_eq [OF sv(1)]
      by (intro exI [of _ "sv_nextConnId sv"]) (simp add: names_ok_def s sv')
  next
    case False
    then have "sv_connections sv nm = Some b" using that by (simp add: sv')
    then obtain k where "1 \<le> k" "k < sv_nextConnId sv" "nm = sv_name sv @ id_suffix sv k"
      using sv(1) unfolding names_ok_def by blast
    then show ?thesis by (intro exI [of _ k]) (simp add: s sv')
  qed
  then show ?thesis using sv unfolding names_ok_def sv'(1,3) by simp
qed

lemma names_ok_joined:
  assumes "joined env fd s w w2" "w_servers w s = Some sv" "names_ok sv" "w_servers w2 s = Some sv'"
  shows "names_ok sv'"
  using assms(1,2,4) unfolding joined_def by (auto intro: names_ok_accept [OF assms(3)])

context kernel
begin

lemma connectEstablished_connects:
  assumes env: "e_sys env = sys" and ok: "world_ok w" and c: "w_conns w a = Some c"
    and run: "connectEstablished env a w = Inr w'"
  shows "\<exists>c'. w_conns w' a = Some c' \<and> kConnected \<le> tc_state c' \<and> conn_le c c'"
proof -
  have st: "tc_state c = kConnecting"
      and w1: "bindE (chan_tie a (tc_channel c) (put_conn a (setState kConnected c) w))
         (\<lambda>w. bindE (chan_call sys EnableReading (tc_channel c) w) (call_connectionCallback env a)) = Inr w'"
    using run c by (auto simp: connectEstablished_def the_conn_def bindE_eq_Inr guardE_eq_Inr env)
  let ?c = "setState kConnected c" and ?w = "put_conn a (setState kConnected c) w"
  have k0: "world_ok ?w \<and> world_le w ?w"
  proof (rule keeps_put_conn [OF ok c conn_le_setState])
    show "tc_state c \<le> kConnected" using st by (simp add: less_eq_StateE_def)
  qed (use conn_inv [OF ok c] st in \<open>simp_all add: setState_def\<close>)
  have c0: "w_conns ?w a = Some ?c" by (simp add: put_conn_def)
  obtain w2 w3 where w2: "chan_tie a (tc_channel c) ?w = Inr w2" "chan_call sys EnableReading (tc_channel c) w2 = Inr w3"
      "call_connectionCallback env a w3 = Inr w'"
    using w1 by (auto simp: bindE_eq_Inr)
  have "tc_channel ?c = tc_channel c" by (simp add: setState_def)
  then have k2: "world_ok w2 \<and> world_le ?w w2" using keeps_tie [of ?w a ?c a w2] k0 c0 w2(1) by simp
  then obtain c2 where c2: "w_conns w2 a = Some c2" "conn_le ?c c2" using c0 world_le_conn by blast
  then have "tc_channel c2 = tc_channel c" by (simp add: conn_le_def setState_def)
  then have "world_ok w3 \<and> world_le w2 w3"
    using keeps_chan_call [OF _ c2(1), of EnableReading w3] k2 w2(2) by simp
  then have "world_ok w3 \<and> world_le ?w w3" using k2 world_le_trans by blast
  from wc.keeps_chain [OF _ _ safe_call_connectionCallback [OF env] w2(3)] this
  have "\<exists>c'. w_conns w' a = Some c' \<and> conn_le ?c c'" using c0 world_le_conn by blast
  moreover have "conn_le c ?c" by (rule conn_le_setState) (simp add: st less_eq_StateE_def)
  moreover have "kConnected \<le> tc_state c'" if "conn_le ?c c'" for c' using that by (simp add: conn_le_def setState_def)
  ultimately show ?thesis using conn_le_trans by blast
qed

end

text \<open>
  C8: accepting a client. \<open>newConnection\<close> never replaces a connection: the name it makes
  (server name, address and port, \<open>#\<close>, running number) is not in the server's table, the new table has the new
  connection under it and all others as before, and the names stay distinct. The connection belongs to the loop
  the pool hands out, owns the accepted descriptor, and nothing has been sent on it; on that
  loop's own thread it is established at once, otherwise that is the last functor in the loop's queue.
\<close>

theorem new_connection_effect:
  assumes k: "kernel (e_sys env)" and ok: "world_ok w" and sv: "w_servers w s = Some sv" and nm: "names_ok sv"
    and new: "e_new env = (a, x)" "w_conns w a = None" "w_chans w x = None"
      "\<forall>y d. w_chans w y = Some d \<longrightarrow> ch_fd d \<noteq> fd"
    and pool: "getNextLoop (sv_threadPool sv) = Inr (io, pool)" and l: "w_loops w io = Some l"
    and run: "newConnection env s fd peer w = Inr w'"
  shows "sv_connections sv (connection_name sv) = None \<and>
    (\<exists>sv' c. w_servers w' s = Some sv' \<and> names_ok sv' \<and>
      sv_connections sv' = (sv_connections sv)(connection_name sv \<mapsto> a) \<and>
      w_conns w' a = Some c \<and> tc_name c = connection_name sv \<and> tc_loop c = io \<and> sockfd (tc_socket c) = fd \<and>
      (if isInLoopThread (e_tid env) l then kConnected \<le> tc_state c
       else tc_state c = kConnecting \<and> pipe c = [] \<and>
         (\<exists>l'. w_loops w' io = Some l' \<and>
            el_pendingFunctors l' = el_pendingFunctors l @ [ConnectEstablished a])))"
proof -
  obtain w2 c0 where j: "joined env fd s w w2" and w2: "world_ok w2" "w_conns w2 a = Some c0"
    and rest: "run_call (e_sys env) (e_tid env) (tc_loop c0) (\<lambda>_. connectEstablished env a) (ConnectEstablished a) w2 = Inr w'"
    using kernel.newConnection_upto [OF k ok _ _ new(4) run] new(1-3) by auto
  obtain sv' where s2: "w_servers w2 s = Some sv'" "w_loops w2 = w_loops w"
    and sv': "sv_connections sv' = (sv_connections sv)(connection_name sv \<mapsto> a)" "names_ok sv'"
    and c0: "tc_name c0 = connection_name sv" "tc_loop c0 = io" "sockfd (tc_socket c0) = fd" "tc_state c0 = kConnecting" "pipe c0 = []"
    using j names_ok_joined [OF j sv nm] sv w2(2) pool new(1) unfolding joined_def by auto
  have l2: "w_loops w2 io = Some l" using l s2(2) by simp
  have free: "sv_connections sv (connection_name sv) = None" by (rule connection_name_new [OF nm])
  show ?thesis
  proof (cases "isInLoopThread (e_tid env) l")
    case True
    then have e: "connectEstablished env a w2 = Inr w'"
      using rest l2 c0(2) by (simp add: run_call_def runInLoop_def the_loop_def loop_at_def)
    obtain c where c: "w_conns w' a = Some c" "kConnected \<le> tc_state c" "conn_le c0 c"
      using kernel.connectEstablished_connects [OF k refl w2 e] by blast
    have "w_servers w' = w_servers w2" using inertD [OF inert_connectEstablished e] by (simp add: same_objects_def)
    then show ?thesis using free c s2 sv' c0 True by (auto simp: conn_le_def)
  next
    case False
    then have "w' = upd_loop io (queueInLoop (e_sys env) (e_tid env) (ConnectEstablished a)) w2"
      using rest l2 c0(2) by (simp add: run_call_def runInLoop_def the_loop_def loop_at_def)
    then show ?thesis using free w2(2) s2(1) sv' l2 c0 False by (simp add: upd_loop_def put_loop_def loop_at_def)
  qed
qed

theorem new_connection_effect_witness:
  "\<exists>sv' c. w_servers sc_accepted 7 = Some sv' \<and> names_ok sv' \<and>
     sv_connections sv' = (sv_connections sc_running)(connection_name sc_running \<mapsto> 20) \<and>
     w_conns sc_accepted 20 = Some c \<and> kConnected \<le> tc_state c \<and> sockfd (tc_socket c) = 5"
proof -
  have k: "kernel (e_sys sc_env)" using sc_kernel by (simp add: sc_env_def)
  have sv: "w_servers sc_polled 7 = Some sc_running" by (simp add: sc_polled_def sc_started_def)
  have nm: "names_ok sc_running" by (auto simp: names_ok_def sc_running_def sc_server_def)
  have new: "e_new sc_env = (20, 21)" "w_conns sc_polled 20 = None" "w_chans sc_polled 21 = None"
      "\<forall>y d. w_chans sc_polled y = Some d \<longrightarrow> ch_fd d \<noteq> 5"
    by (simp_all add: sc_env_def sc_polled_def sc_started_def sc_constructed_def booted_def sc_wakeup_chan_def
        sc_listening_chan_def sc_acceptor_chan_def setReadCallback_def Channel_ctor_def)
  have pool: "getNextLoop (sv_threadPool sc_running) = Inr (1, sv_threadPool sc_running)"
    by (simp add: getNextLoop_def sc_running_def EventLoopThreadPool_ctor_def)
  have l: "w_loops sc_polled 1 = Some (sc_listening_loop [9])" "isInLoopThread (e_tid sc_env) (sc_listening_loop [9])"
    by (simp_all add: sc_polled_def isInLoopThread_def sc_env_def sc_listening_loop_def sc_loop_def)
  from new_connection_effect [OF k sc_polled_ok sv nm new pool l(1) scenario_newConnection] l(2)
  show ?thesis by auto
qed

subsection \<open>Failing accepts\<close>

text \<open>
  What a failing \<open>accept\<close> does to the program. The errors of a connection that is already gone, of an
  interrupted call and of a refused one leave everything as it is; every other one ends the process,
  running out of descriptors included: the spare descriptor \<open>idleFd_\<close> is never used.
\<close>

lemma accept_error_policy:
  assumes "w_acceptors w a = Some ac" "e_accept env (sockfd (ac_socket ac)) = (fd, e, addr)" "fd < 0"
  shows "if e \<in> {EAGAIN, ECONNABORTED, EINTR, EPROTO, EPERM} then acceptor_handleRead env a w = Inr w
    else \<exists>msg. acceptor_handleRead env a w = Inl (FatalExit msg)"
  using assms by (cases e) (simp_all add: acceptor_handleRead_def the_acceptor_def socket_accept_def)

lemma accept_error_policy_witness:
  "\<exists>msg. acceptor_handleRead (sc_env\<lparr>e_accept := \<lambda>_. (- 1, EMFILE, default_address)\<rparr>) 8 sc_polled
     = Inl (FatalExit msg)"
proof -
  let ?ac = "sc_acceptor\<lparr>ac_listening := True, ac_socket := (ac_socket sc_acceptor)\<lparr>sk_listening := True\<rparr>\<rparr>"
  let ?env = "sc_env\<lparr>e_accept := \<lambda>_. (- 1, EMFILE, default_address)\<rparr>"
  have "w_acceptors sc_polled 8 = Some ?ac" by (simp add: sc_polled_def sc_started_def)
  from accept_error_policy [OF this, of ?env "- 1" EMFILE default_address] show ?thesis by simp
qed

end
