(* ===== verification/Threaded.thy ===== *)
theory Threaded
  imports Scenario
begin

text \<open>
  The server of \<open>Scenario\<close> with one I/O thread: the client's connection lives on that thread's loop, and the
  server is taken down by the thread of its own loop while it does.
\<close>

subsection \<open>Participants\<close>

text \<open>Loop 30 of thread 300, with its wake-up channel 31 on descriptor 11 and the epoll descriptor 12.\<close>

definition mt_spawn :: spawn where
  "mt_spawn = \<lparr>sp_loop = 30, sp_chan = 31, sp_tid = 300, sp_use_poll = False, sp_epollfd = 12, sp_evtfd = 11\<rparr>"

definition mt_env :: env where
  "mt_env = sc_env\<lparr>e_tid := 300\<rparr>"

definition mt_wakeup_chan :: "callback channel" where
  "mt_wakeup_chan = (setReadCallback (EventLoop_handleRead 30) (Channel_ctor 31 30 11))\<lparr>ch_events := 3, ch_index := kAdded\<rparr>"

definition mt_poller :: "(int \<Rightarrow> ptr option) \<Rightarrow> interest \<Rightarrow> poller" where
  "mt_poller m k = \<lparr>pl_loop = 30, pl_channels = m, pl_epollfd = 12, pl_events_size = kInitEventListSize, pl_interest = k\<rparr>"

definition mt_loop :: "poller \<Rightarrow> ptr list \<Rightarrow> Functor list \<Rightarrow> nat \<Rightarrow> eventloop" where
  "mt_loop p act fs n = \<lparr>el_addr = 30, el_looping = False, el_quit = False, el_threadId = 300,
     el_pollReturnTime = 0, el_poller = p, el_wakeupFd = 11, el_wakeupChannel = 31, el_activeChannels = act,
     el_callingPendingFunctors = False, el_pendingFunctors = fs, el_wakeups = n\<rparr>"

abbreviation mt_idle :: poller where
  "mt_idle \<equiv> mt_poller [11 \<mapsto> 31] [11 \<mapsto> sc_ev 31]"

abbreviation mt_busy :: poller where
  "mt_busy \<equiv> mt_poller [11 \<mapsto> 31, 5 \<mapsto> 21] [11 \<mapsto> sc_ev 31, 5 \<mapsto> sc_ev 21]"

definition mt_pool :: threadpool where
  "mt_pool = (EventLoopThreadPool_ctor 1 ''s'')\<lparr>tp_numThreads := 1\<rparr>"

definition mt_running :: tcp_server where
  "mt_running = sc_server\<lparr>sv_started := 1,
     sv_threadPool := mt_pool\<lparr>tp_started := True, tp_threads := [thread_name ''s'' 0], tp_loops := [30]\<rparr>\<rparr>"

definition mt_conn :: "StateE \<Rightarrow> tcp_connection" where
  "mt_conn st = sc_conn\<lparr>tc_loop := 30, tc_state := st\<rparr>"

definition mt_chan :: "callback channel" where
  "mt_chan = sc_conn_chan\<lparr>ch_loop := 30\<rparr>"

subsection \<open>Until a client is connected\<close>

definition mt_started :: world where
  "mt_started = sc_started\<lparr>w_chans := [2 \<mapsto> sc_wakeup_chan, 9 \<mapsto> sc_listening_chan, 31 \<mapsto> mt_wakeup_chan],
     w_servers := [7 \<mapsto> mt_running], w_loops := [1 \<mapsto> sc_listening_loop [], 30 \<mapsto> mt_loop mt_idle [] [] 0]\<rparr>"

lemma threaded_configure: "server_do (SetThreadNum 1) 7 sc_constructed = Inr (put_server 7 (sc_server\<lparr>sv_threadPool := mt_pool\<rparr>) sc_constructed)"
  by (simp add: server_setThreadNum_def the_server_def bindE_def guardE_def sc_constructed_def sc_server_def setThreadNum_def
      EventLoopThreadPool_ctor_def mt_pool_def)

lemma threaded_spawn:
  "EventLoop_ctor sc_sys False 12 11 None 300 30 31 = Inr (mt_loop mt_idle [] [] 0, mt_wakeup_chan)"
  by (simp add: EventLoop_ctor_def newDefaultPoller_def EPollPoller_ctor_def createEventfd_def bindE_def guardE_def
      enableReading_def channel_update_def loop_updateChannel_def poller_updateChannel_def poller_update_def
      index_defs set_index_def Let_def sc_sys_def os_with_def epoll_man_def mt_loop_def mt_poller_def mt_wakeup_chan_def
      sc_ev_def setReadCallback_def Channel_ctor_def)

lemma sc_sys_sel:
  "sys_epoll_ctl sc_sys = epoll_man" "sys_now sc_sys = 0" "snd (sys_evwrite sc_sys n) = (if n < 18446744073709551614 then n + 1 else n)"
  by (simp_all add: sc_sys_def os_with_def)

lemma threaded_start:
  "server_start sc_env (startLoop sc_sys (\<lambda>_. mt_spawn)) 0 7 (put_server 7 (sc_server\<lparr>sv_threadPool := mt_pool\<rparr>) sc_constructed) =
     Inr mt_started"
  by (simp add: server_start_def start_def startLoop_def mt_spawn_def threaded_spawn init_callback_def run_call_def runInLoop_def
      isInLoopThread_def
      acceptor_listen_def socket_listen_def world_step_defs registration_defs sc_sys_sel
      sc_env_def sc_constructed_def sc_started_def booted_def sc_server_def mt_running_def mt_started_def sc_loop_def sc_poller_def
      sc_listening_loop_def sc_listening_chan_def sc_acceptor_chan_def sc_acceptor_def sc_ev_def mt_pool_def
      EventLoopThreadPool_ctor_def setReadCallback_def Channel_ctor_def
      fun_upd_twist [of 31 9] fun_upd_twist [of 30 "Suc 0"])

subsection \<open>A client\<close>

definition mt_polled :: world where
  "mt_polled = mt_started\<lparr>w_chans := [2 \<mapsto> sc_wakeup_chan, 9 \<mapsto> sc_listening_chan\<lparr>ch_revents := 1\<rparr>, 31 \<mapsto> mt_wakeup_chan],
     w_loops := [1 \<mapsto> sc_listening_loop [9], 30 \<mapsto> mt_loop mt_idle [] [] 0]\<rparr>"

lemma threaded_poll: "world_poll sc_sys 1 mt_started = Inr mt_polled"
  by (simp add: world_poll_def poller_poll_def fillActiveChannels_def world_set_revents_def set_revents_def
      world_step_defs sc_sys_def os_with_def wait_ready_def List.map_filter_def epoll_masks
      mt_started_def mt_polled_def sc_started_def sc_constructed_def sc_listening_loop_def sc_loop_def sc_poller_def sc_ev_def
      kInitEventListSize_def fun_upd_twist [of 9] fun_upd_twist [of "Suc 0"])

text \<open>Accepted, the connection waits for its loop to establish it.\<close>

definition mt_client :: "StateE \<Rightarrow> callback channel \<Rightarrow> poller \<Rightarrow> Functor list \<Rightarrow> nat \<Rightarrow> world" where
  "mt_client st ch p fs n = mt_polled\<lparr>w_conns := [20 \<mapsto> mt_conn st],
     w_chans := [2 \<mapsto> sc_wakeup_chan, 9 \<mapsto> sc_listening_chan\<lparr>ch_revents := 1\<rparr>, 31 \<mapsto> mt_wakeup_chan, 21 \<mapsto> ch],
     w_loops := [1 \<mapsto> sc_listening_loop [9], 30 \<mapsto> mt_loop p [] fs n],
     w_servers := [7 \<mapsto> mt_running\<lparr>sv_nextConnId := 2, sv_connections := [connection_name sc_running \<mapsto> 20]\<rparr>]\<rparr>"

definition mt_new_chan :: "callback channel" where
  "mt_new_chan = mt_chan\<lparr>ch_events := 0, ch_index := kNew, ch_tie := None, ch_tied := False\<rparr>"

lemma threaded_newConnection:
  "newConnection sc_env 7 5 (InetAddress_port 81 True) mt_polled =
     Inr (mt_client kConnecting mt_new_chan mt_idle [ConnectEstablished 20] 1)"
  by (simp add: newConnection_def TcpConnection_ctor_def initial_buffer
      run_call_def runInLoop_def isInLoopThread_def getNextLoop_def world_step_defs sc_sys_sel
      queueInLoop_def push_functor_def needs_wakeup_def wakeup_def
      setConnCloseCallback_def setWriteCompleteCallback_def setMessageCallback_def setConnectionCallback_def
      setErrorCallback_def setCloseCallback_def setWriteCallback_def setReadCallback_def Channel_ctor_def
      sc_env_def mt_polled_def mt_started_def mt_client_def mt_conn_def mt_chan_def mt_new_chan_def sc_started_def
      sc_constructed_def booted_def sc_conn_def sc_conn_chan_def mt_running_def mt_pool_def index_defs
      sc_running_def sc_server_def mt_loop_def
      EventLoopThreadPool_ctor_def setKeepAlive_def Socket_ctor_def connection_name_def)

lemma threaded_accept: "dispatch sc_env 0 9 mt_polled = Inr (mt_client kConnecting mt_new_chan mt_idle [ConnectEstablished 20] 1)"
proof -
  let ?w = "mt_client kConnecting mt_new_chan mt_idle [ConnectEstablished 20] 1"
  have a: "w_acceptors mt_polled 8 = Some (sc_acceptor\<lparr>ac_listening := True,
      ac_socket := (ac_socket sc_acceptor)\<lparr>sk_listening := True\<rparr>\<rparr>)"
    by (simp add: mt_polled_def mt_started_def sc_started_def)
  have "acceptor_handleRead sc_env 8 mt_polled = newConnection sc_env 7 5 (InetAddress_port 81 True) mt_polled"
    using a by (simp add: acceptor_handleRead_def the_acceptor_def socket_accept_def sc_env_def sc_acceptor_def)
  then have r: "run_callback sc_env 0 (Acceptor_handleRead 8) mt_polled = Inr ?w"
    by (simp add: threaded_newConnection)
  have "w_chans mt_polled 9 = Some (sc_listening_chan\<lparr>ch_revents := 1\<rparr>)" "w_chans ?w 9 = Some (sc_listening_chan\<lparr>ch_revents := 1\<rparr>)"
    by (simp_all add: mt_polled_def mt_client_def)
  then show ?thesis using r by (rule accept_event)
qed

lemma threaded_establish:
  "doPendingFunctors (loop_at 30) (upd_loop 30) (exec mt_env 0) (mt_client kConnecting mt_new_chan mt_idle [ConnectEstablished 20] 1) =
     Inr (mt_client kConnected mt_chan mt_busy [] 1)"
  by (simp add: doPendingFunctors_def begin_calling_def swap_pending_def end_calling_def connectEstablished_def
      chan_tie_def tie_def setState_def call_connectionCallback_def world_step_defs registration_defs sc_sys_sel
      mt_env_def sc_env_def mt_client_def mt_conn_def mt_chan_def mt_new_chan_def sc_conn_def sc_conn_chan_def mt_loop_def
      mt_poller_def sc_ev_def)

lemma threaded_run: "program_run (resting sc_boot) {} (resting (mt_client kConnected mt_chan mt_busy [] 1))"
proof -
  have k: "kernel (e_sys sc_env)" and k': "kernel (e_sys mt_env)" using sc_kernel by (simp_all add: sc_env_def mt_env_def)
  let ?conf = "put_server 7 (sc_server\<lparr>sv_threadPool := mt_pool\<rparr>) sc_constructed"
  let ?w = "mt_client kConnecting mt_new_chan mt_idle [ConnectEstablished 20] 1"
  note 0 = program_run_configure [OF scenario_run_constructed threaded_configure]
  have sv: "w_servers ?conf 7 = Some (sc_server\<lparr>sv_threadPool := mt_pool\<rparr>)" by (simp add: put_server_def)
  have "fresh_threads (\<lambda>_. mt_spawn) (map (thread_name (tp_name mt_pool)) [0 .. tp_numThreads mt_pool - 1]) ?conf"
    by (simp add: fresh_threads_def mt_pool_def mt_spawn_def put_server_def sc_constructed_def booted_def)
  then have "program_step (resting ?conf) {} (resting ?conf\<lparr>pg_world := mt_started\<rparr>)"
    using program_step.start_server [OF k, of "resting ?conf" 7 _ "\<lambda>_. mt_spawn" 0 mt_started] sv threaded_start
    by (simp add: sc_env_def)
  note 1 = program_run_rest [OF 0 this]
  have "program_step (resting mt_started) {} (resting mt_started\<lparr>pg_world := mt_polled\<rparr>)"
    using program_step.poll [OF sc_kernel, of 1 "resting mt_started" mt_polled] threaded_poll by simp
  note 2 = program_run_rest [OF 1 this]
  have "fresh_conn sc_env mt_polled"
    by (simp add: sc_env_def fresh_conn_def mt_polled_def mt_started_def sc_started_def sc_constructed_def booted_def
        sc_wakeup_chan_def sc_listening_chan_def sc_acceptor_chan_def mt_wakeup_chan_def setReadCallback_def Channel_ctor_def)
  then have "program_step (resting mt_polled) {} (resting mt_polled\<lparr>pg_world := ?w\<rparr>)"
    using program_step.event [OF k, of "resting mt_polled" 0 9 ?w] threaded_accept by simp
  note 3 = program_run_rest [OF 2 this]
  have "world_ok ?w" using program_reachable_ok [OF sc_kernel scenario_boot 3] by (simp add: resting_ok fine_def)
  from doPendingFunctors_steps [OF runs_functors_exec [OF k'] this _ threaded_establish]
  have "program_run (resting ?w) {} (resting (mt_client kConnected mt_chan mt_busy [] 1))" by (simp add: mt_client_def)
  from program_run_trans [OF this 3] show ?thesis by simp
qed

subsection \<open>The server goes\<close>

text \<open>Without an entry in the table, and with the loop's flag \<open>callingPendingFunctors_\<close> and user strings.\<close>

definition mt_down ::
    "StateE \<Rightarrow> callback channel \<Rightarrow> poller \<Rightarrow> bool \<Rightarrow> Functor list \<Rightarrow> nat \<Rightarrow> (ptr \<Rightarrow> byte list option) \<Rightarrow> world" where
  "mt_down st ch p call fs n m = (mt_client st ch p fs n)\<lparr>w_servers := [7 \<mapsto> mt_running\<lparr>sv_nextConnId := 2\<rparr>],
     w_loops := [1 \<mapsto> sc_listening_loop [9], 30 \<mapsto> (mt_loop p [] fs n)\<lparr>el_callingPendingFunctors := call\<rparr>], w_strings := m\<rparr>"

abbreviation mt_connected :: world where
  "mt_connected \<equiv> mt_client kConnected mt_chan mt_busy [] 1"

text \<open>The body of the destructor, on the thread of loop 1.\<close>

lemma threaded_destroy:
  "TcpServer.destroy_connections sc_env 7 [connection_name sc_running] mt_connected =
     Inr (mt_down kConnected mt_chan mt_busy False [ConnectDestroyed 20] 2 Map.empty)"
  by (simp add: run_call_def runInLoop_def isInLoopThread_def queueInLoop_def push_functor_def needs_wakeup_def wakeup_def
      world_step_defs sc_env_def mt_client_def mt_down_def mt_conn_def mt_loop_def mt_running_def sc_server_def sc_sys_sel
      mt_polled_def mt_started_def sc_started_def sc_constructed_def booted_def numeral_2_eq_2)

text \<open>What \<open>ConnectDestroyed\<close> makes of the connection.\<close>

definition mt_dead_chan :: "callback channel" where
  "mt_dead_chan = mt_chan\<lparr>ch_events := 0, ch_index := kNew\<rparr>"

lemma threaded_destroyed:
  "exec mt_env 0 (ConnectDestroyed 20) (mt_down kConnected mt_chan mt_busy call fs n m) =
     Inr (mt_down kDisconnected mt_dead_chan mt_idle call fs n m)"
proof -
  have "([11 \<mapsto> 31, 5 \<mapsto> 21] :: int \<Rightarrow> ptr option)(5 := None) = [11 \<mapsto> 31]"
    "([11 \<mapsto> sc_ev 31, 5 \<mapsto> sc_ev 21] :: interest)(5 := None) = [11 \<mapsto> sc_ev 31]" by auto
  then show ?thesis
    by (simp add: connectDestroyed_def setState_def call_connectionCallback_def world_step_defs registration_defs sc_sys_sel
        disableAll_def channel_remove_def loop_removeChannel_def poller_removeChannel_def
        mt_env_def sc_env_def mt_client_def mt_down_def mt_conn_def mt_chan_def mt_dead_chan_def sc_conn_def sc_conn_chan_def
        mt_loop_def mt_poller_def sc_ev_def)
qed

subsection \<open>A message that comes too late\<close>

lemma threaded_down: "program_run (resting sc_boot) {} (resting (mt_down kConnected mt_chan mt_busy False [ConnectDestroyed 20] 2 Map.empty))"
proof -
  have k: "kernel (e_sys sc_env)" using sc_kernel by (simp add: sc_env_def)
  show ?thesis
    using program_run_rest [OF threaded_run] program_step.destroy_connections [OF k, of 7 "[connection_name sc_running]"
        "resting mt_connected"] threaded_destroy by simp
qed

text \<open>Thread 200 sends two bytes while the batch with \<open>ConnectDestroyed\<close> has begun.\<close>

lemma threaded_late_send:
  "run_user sc_sys 200 [MakeString 60 [104, 105], SendString 20 60] (mt_down kConnected mt_chan mt_busy True [] 2 Map.empty) =
     Inr (mt_down kConnected mt_chan mt_busy True [SendInLoop 20 60 2] 3 [60 \<mapsto> [104, 105]])"
  by (simp add: send_def run_call_def runInLoop_def isInLoopThread_def queueInLoop_def push_functor_def needs_wakeup_def
      wakeup_def world_step_defs mt_client_def mt_down_def mt_conn_def mt_loop_def sc_sys_sel sc_conn_def vector_max_def)

abbreviation batch :: "Functor list \<Rightarrow> Functor list \<Rightarrow> world \<Rightarrow> program" where
  "batch fs gs w \<equiv> \<lparr>pg_world = w, pg_running = [30 \<mapsto> (fs, gs)]\<rparr>"

lemma threaded_take:
  "take_functors 30 (resting (mt_down st ch p False fs n m)) = batch fs fs (mt_down st ch p True [] n m)"
  by (simp add: take_functors_def Let_def begin_calling_def swap_pending_def upd_loop_def loop_at_def put_loop_def
      mt_down_def mt_client_def mt_loop_def)

text \<open>After the batch nothing owns the connection, and it can be destroyed.\<close>

abbreviation mt_unowned :: world where
  "mt_unowned \<equiv> mt_down kDisconnected mt_dead_chan mt_idle False [SendInLoop 20 60 2] 3 [60 \<mapsto> [104, 105]]"

definition mt_over :: "bool \<Rightarrow> Functor list \<Rightarrow> world" where
  "mt_over call fs = (mt_down kDisconnected mt_dead_chan mt_idle call fs 3 [60 \<mapsto> [104, 105]])\<lparr>w_conns := Map.empty,
     w_chans := [2 \<mapsto> sc_wakeup_chan, 9 \<mapsto> sc_listening_chan\<lparr>ch_revents := 1\<rparr>, 31 \<mapsto> mt_wakeup_chan]\<rparr>"

lemma threaded_dtor:
  "TcpConnection_dtor 20 mt_unowned =
     Inr (mt_over False [SendInLoop 20 60 2])"
  by (auto simp: TcpConnection_dtor_def the_conn_def bindE_def guardE_def mt_down_def mt_client_def mt_over_def mt_conn_def
      sc_conn_def)

lemma mt_unowned_owned: "\<not> owned (held (resting mt_unowned)) (pg_world (resting mt_unowned)) 20"
  by (auto simp: owned_def held_def pend_def mt_down_def mt_client_def mt_loop_def sc_listening_loop_def sc_loop_def
      mt_running_def sc_server_def split: if_splits)

lemma threaded_unowned_run: "program_run (resting sc_boot) {} (resting mt_unowned)"
proof -
  let ?f = "ConnectDestroyed 20" and ?g = "SendInLoop 20 60 2" and ?m = "[60 \<mapsto> [104, 105]] :: ptr \<Rightarrow> byte list option"
  let ?w1 = "mt_down kConnected mt_chan mt_busy True [] 2 Map.empty" and ?w2 = "mt_down kConnected mt_chan mt_busy True [?g] 3 ?m"
  let ?w3 = "mt_down kDisconnected mt_dead_chan mt_idle True [?g] 3 ?m"
  have k: "kernel (e_sys mt_env)" using sc_kernel by (simp add: sc_env_def mt_env_def)
  have lp: "w_loops (mt_down st ch p call fs n m) 30 \<noteq> None" for st ch p call fs n m by (simp add: mt_down_def)
  have r: "program_run (resting sc_boot) {} (batch [?f] [?f] ?w1)"
    using program_run_step [OF threaded_down program_step.begin_functors [of _ 30]] lp threaded_take by simp
  have "program_step (batch [?f] [?f] ?w1) {} (batch [?f] [?f] ?w2)"
    using program_step.user [OF sc_kernel, of 200 _ "batch [?f] [?f] ?w1"] threaded_late_send
    by (simp del: run_user.simps)
  note r = program_run_step [OF r this]
  have "program_step (batch [?f] [?f] ?w2) {} (batch [?f] [] ?w3)"
    using program_step.one_functor [OF k, of "batch [?f] [?f] ?w2" 30 "[?f]" ?f "[]" 0 ?w3] threaded_destroyed by simp
  note r = program_run_step [OF r this]
  have "upd_loop 30 end_calling ?w3 = mt_unowned"
    by (simp add: mt_down_def mt_client_def upd_loop_def put_loop_def loop_at_def end_calling_def mt_loop_def)
  then have "program_step (batch [?f] [] ?w3) {} (resting mt_unowned)"
    using program_step.end_functors [of "batch [?f] [] ?w3" 30 "[?f]"] lp by simp
  from program_run_step [OF r this] show ?thesis .
qed

lemma threaded_late_run:
  "program_run (resting sc_boot) {20} (batch [SendInLoop 20 60 2] [SendInLoop 20 60 2] (mt_over True []))"
proof -
  let ?g = "SendInLoop 20 60 2"
  have lp: "w_loops (mt_over call fs) 30 \<noteq> None" for call fs by (simp add: mt_over_def mt_down_def)
  have "program_step (resting mt_unowned) {20} (resting (mt_over False [?g]))"
    using program_step.destroy [OF mt_unowned_owned, of "mt_over False [?g]"] threaded_dtor by simp
  note r = program_run.step [OF threaded_unowned_run this]
  have "take_functors 30 (resting (mt_over False [?g])) = batch [?g] [?g] (mt_over True [])"
    by (simp add: take_functors_def Let_def begin_calling_def swap_pending_def upd_loop_def loop_at_def put_loop_def
        mt_over_def mt_down_def mt_client_def mt_loop_def)
  then show ?thesis
    using program_run_step [OF r program_step.begin_functors [of _ 30]] lp by simp
qed

subsection \<open>The end of the thread\<close>

text \<open>
  What is left of \<open>threadFunc\<close> at the head of the \<open>while\<close> loop: the rest of \<open>loop()\<close>, on the answers of the
  system \<open>syss\<close>, and the end of the local loop.
\<close>

definition finish_thread :: "os list \<Rightarrow> env \<Rightarrow> int \<Rightarrow> ptr \<Rightarrow> world \<Rightarrow> fault + world" where
  "finish_thread syss env ret lp w =
     (case loop_while syss (loop_at lp) (upd_loop lp) world_set_revents (dispatch env) (exec env ret) w of
        None \<Rightarrow> Inl (Undefined ''join does not return'')
      | Some r \<Rightarrow> bindE r (TcpServer.free_loop (e_sys env) lp))"

text \<open>The same for a thread that is in the middle of a round of its loop, at the call of \<open>poll\<close>.\<close>

definition finish_round :: "os \<Rightarrow> os list \<Rightarrow> env \<Rightarrow> int \<Rightarrow> ptr \<Rightarrow> world \<Rightarrow> fault + world" where
  "finish_round sys syss env ret lp w =
     bindE (loop_iteration sys (loop_at lp) (upd_loop lp) world_set_revents (dispatch env) (exec env ret) w)
       (finish_thread syss env ret lp)"

text \<open>The hang-up of the client.\<close>

definition hup_sys :: os where
  "hup_sys = os_with 9 [] [(5, EPOLLHUP)]"

text \<open>Once the flag is set, a thread at the head of the loop runs no functor any more.\<close>

lemma finish_quit:
  assumes "w_loops w lp = Some l" "el_quit l"
  shows "finish_thread syss env ret lp w = TcpServer.free_loop (e_sys env) lp w"
  using assms by (cases syss) (simp_all add: finish_thread_def loop_at_def)

lemma threaded_free_loop:
  assumes "w_loops w 30 = Some l" "el_wakeupChannel l = 31" "w_chans w 31 = Some mt_wakeup_chan"
    and "el_poller l = mt_poller m k" "m 11 = Some 31" "k 11 \<noteq> None"
  shows "TcpServer.free_loop sc_sys 30 w = Inr (w\<lparr>w_loops := (w_loops w)(30 := None), w_chans := (w_chans w)(31 := None)\<rparr>)"
  using assms
  by (auto simp: free_loop_def EventLoop_dtor_def the_loop_def the_chan_def bindE_def guardE_def Let_def disableAll_def channel_update_def
      loop_updateChannel_def poller_updateChannel_def poller_update_def index_defs set_index_def epoll_man_def
      channel_remove_def loop_removeChannel_def poller_removeChannel_def mt_wakeup_chan_def setReadCallback_def Channel_ctor_def
      mt_poller_def sc_sys_sel)

lemma threaded_free_server:
  assumes "w_servers w 7 = Some sv" "sv_acceptor sv = 8" "w_acceptors w = w_acceptors sc_started"
    and "w_chans w 9 = Some (sc_listening_chan\<lparr>ch_revents := 1\<rparr>)" "w_loops w 1 = Some l"
    and "el_poller l = el_poller (sc_listening_loop [9])"
  shows "\<exists>w'. TcpServer.free_server sc_sys 7 w = Inr w' \<and> w_conns w' = w_conns w \<and> w_servers w' = (w_servers w)(7 := None) \<and>
    (\<forall>lp. pend w' lp = pend w lp) \<and> (\<forall>lp. w_loops w' lp = None \<longleftrightarrow> w_loops w lp = None)"
proof -
  obtain ac where ac: "w_acceptors w 8 = Some ac" "ac_channel ac = 9"
    using assms(3) by (simp add: sc_started_def sc_acceptor_def)
  have "\<exists>w'. Acceptor_dtor sc_sys 8 w = Inr w' \<and> w_conns w' = w_conns w \<and> w_servers w' = w_servers w \<and>
    w_loops w' = (w_loops w)(1 \<mapsto> l\<lparr>el_poller := (el_poller l)\<lparr>pl_channels := (pl_channels (el_poller l))(6 := None),
      pl_interest := (pl_interest (el_poller l))(6 := None)\<rparr>\<rparr>)"
    using assms(4-6) ac
    by (simp add: Acceptor_dtor_def world_step_defs registration_defs disableAll_def channel_remove_def loop_removeChannel_def
        poller_removeChannel_def sc_listening_chan_def sc_acceptor_chan_def setReadCallback_def Channel_ctor_def
        sc_listening_loop_def sc_loop_def sc_poller_def sc_sys_sel)
  then show ?thesis
    using assms(1,2,5) by (auto simp: free_server_def bindE_def the_server_def pend_def)
qed

text \<open>The thread was at the head of the loop: \<open>ConnectDestroyed\<close> is not run, and goes with the queue.\<close>

abbreviation mt_quit :: world where
  "mt_quit \<equiv> upd_loop 30 (quit sc_sys 100) (mt_down kConnected mt_chan mt_busy False [ConnectDestroyed 20] 2 Map.empty)"

lemma mt_quit_sel:
  "\<exists>l. w_loops mt_quit 30 = Some l \<and> el_quit l \<and> el_wakeupChannel l = 31 \<and> el_poller l = mt_busy \<and>
     el_pendingFunctors l = [ConnectDestroyed 20]"
  "w_conns mt_quit = [20 \<mapsto> mt_conn kConnected]" "w_servers mt_quit = [7 \<mapsto> mt_running\<lparr>sv_nextConnId := 2\<rparr>]"
  "w_chans mt_quit 31 = Some mt_wakeup_chan" "w_chans mt_quit 9 = Some (sc_listening_chan\<lparr>ch_revents := 1\<rparr>)"
  "w_acceptors mt_quit = w_acceptors sc_started" "w_loops mt_quit lp = None \<longleftrightarrow> lp \<notin> {1, 30}"
  "w_loops mt_quit 1 = Some (sc_listening_loop [9])" "pend mt_quit 1 = []"
  by (simp_all add: upd_loop_def put_loop_def loop_at_def mt_down_def mt_client_def mt_polled_def mt_started_def sc_started_def
      mt_loop_def quit_def set_quit_def wakeup_def isInLoopThread_def sc_listening_loop_def sc_loop_def pend_def Let_def)

lemma threaded_members:
  "TcpServer_dtor sc_env join 7 [connection_name sc_running] mt_connected =
     bindE (join 30 mt_quit) (TcpServer.free_server sc_sys 7)"
proof -
  let ?d = "mt_down kConnected mt_chan mt_busy False [ConnectDestroyed 20] 2 Map.empty"
  have sel: "the_server ?d 7 = Inr (mt_running\<lparr>sv_nextConnId := 2\<rparr>)" "\<exists>l. the_loop ?d 30 = Inr l"
    by (simp_all add: mt_down_def the_server_def the_loop_def)
  have "tp_loops (sv_threadPool (mt_running\<lparr>sv_nextConnId := 2\<rparr>)) = [30]" "e_sys sc_env = sc_sys" "e_tid sc_env = 100"
    by (simp_all add: mt_running_def sc_env_def)
  with sel show ?thesis
    unfolding TcpServer_dtor_def threaded_destroy by (cases "join 30 mt_quit") auto
qed

lemma threaded_lost:
  "\<exists>w. TcpServer_dtor sc_env (finish_thread [] mt_env 0) 7 [connection_name sc_running] mt_connected = Inr w \<and>
     w_conns w 20 = Some (mt_conn kConnected) \<and> w_loops w 30 = None \<and> \<not> owned {} w 20"
proof -
  obtain l where l: "w_loops mt_quit 30 = Some l" "el_quit l" "el_wakeupChannel l = 31" "el_poller l = mt_busy"
    using mt_quit_sel(1) by blast
  let ?v = "mt_quit\<lparr>w_loops := (w_loops mt_quit)(30 := None), w_chans := (w_chans mt_quit)(31 := None)\<rparr>"
  have e: "e_sys mt_env = sc_sys" by (simp add: mt_env_def sc_env_def)
  have 1: "finish_thread [] mt_env 0 30 mt_quit = Inr ?v"
    unfolding finish_quit [OF l(1,2)] e by (rule threaded_free_loop [OF l(1,3) mt_quit_sel(4) l(4)]) simp_all
  obtain w where w: "TcpServer.free_server sc_sys 7 ?v = Inr w" "w_conns w = w_conns ?v" "w_servers w = (w_servers ?v)(7 := None)"
      "\<forall>lp. pend w lp = pend ?v lp" "\<forall>lp. w_loops w lp = None \<longleftrightarrow> w_loops ?v lp = None"
    using threaded_free_server [of ?v "mt_running\<lparr>sv_nextConnId := 2\<rparr>" "sc_listening_loop [9]"] mt_quit_sel
    by (auto simp: mt_running_def sc_server_def)
  have "w_servers w = Map.empty" using w(3) mt_quit_sel(3) by auto
  moreover have "pend w lp = []" for lp
  proof (cases "lp = 1")
    case True
    have "pend ?v 1 = pend mt_quit 1" by (simp add: pend_def)
    then show ?thesis using True w(4) mt_quit_sel(9) by simp
  next
    case False
    then have "w_loops ?v lp = None" using mt_quit_sel(7) [of lp] by simp
    then show ?thesis using w(4) by (simp add: pend_def)
  qed
  ultimately have "\<not> owned {} w 20" by (simp add: owned_def)
  moreover have "TcpServer_dtor sc_env (finish_thread [] mt_env 0) 7 [connection_name sc_running] mt_connected = Inr w"
    unfolding threaded_members 1 using w(1) by simp
  moreover have "w_conns w 20 = Some (mt_conn kConnected)" "w_loops w 30 = None" using w(2,5) mt_quit_sel(2) by simp_all
  ultimately show ?thesis by blast
qed

text \<open>
  The thread was in \<open>poll\<close>, and the client has hung up: the loop closes the connection before it runs
  \<open>ConnectDestroyed\<close>, and with that queues a functor that holds a pointer to the server.
\<close>

definition mt_hup_chan :: "callback channel" where
  "mt_hup_chan = mt_chan\<lparr>ch_revents := EPOLLHUP\<rparr>"

lemma threaded_hup_poll:
  "poller_poll hup_sys kPollTimeMs world_set_revents mt_busy w =
     bindE (world_set_revents 21 EPOLLHUP w) (\<lambda>w'. Inr ([21], mt_busy, w'))"
  by (simp add: poller_poll_def fillActiveChannels_def hup_sys_def os_with_def wait_ready_def List.map_filter_def epoll_masks
      mt_poller_def sc_ev_def kInitEventListSize_def bindE_def Let_def
      split: sum.split)

definition mt_closing :: "StateE \<Rightarrow> callback channel \<Rightarrow> poller \<Rightarrow> ptr list \<Rightarrow> bool \<Rightarrow> Functor list \<Rightarrow> Functor list \<Rightarrow> nat \<Rightarrow> world" where
  "mt_closing st ch p act call fs gs n = (mt_down st ch p call fs 3 Map.empty)\<lparr>
     w_loops := [1 \<mapsto> (sc_listening_loop [9])\<lparr>el_pendingFunctors := gs, el_wakeups := n\<rparr>,
       30 \<mapsto> (mt_loop p act fs 3)\<lparr>el_quit := True, el_callingPendingFunctors := call\<rparr>]\<rparr>"

lemma mt_quit_closing: "mt_quit = mt_closing kConnected mt_chan mt_busy [] False [ConnectDestroyed 20] [] 0"
  by (simp add: mt_closing_def mt_down_def mt_client_def upd_loop_def put_loop_def loop_at_def quit_def set_quit_def
      wakeup_def isInLoopThread_def mt_loop_def sc_listening_loop_def sc_loop_def sc_sys_sel Let_def numeral_3_eq_3 numeral_2_eq_2)

definition mt_closed_chan :: "callback channel" where
  "mt_closed_chan = mt_hup_chan\<lparr>ch_events := 0, ch_index := kDeleted\<rparr>"

abbreviation mt_half :: poller where
  "mt_half \<equiv> mt_poller [11 \<mapsto> 31, 5 \<mapsto> 21] [11 \<mapsto> sc_ev 31]"

lemma busy_minus:
  "([11 \<mapsto> 31, 5 \<mapsto> 21] :: int \<Rightarrow> ptr option)(5 := None) = [11 \<mapsto> 31]"
  "([11 \<mapsto> sc_ev 31, 5 \<mapsto> sc_ev 21] :: interest)(5 := None) = [11 \<mapsto> sc_ev 31]"
  by auto

lemma threaded_handleClose:
  "handleClose mt_env 20 (mt_closing kConnected mt_hup_chan mt_busy act False fs [] 0) =
     Inr (mt_closing kDisconnected mt_closed_chan mt_half act False fs [RemoveConnectionInLoop 7 20] 1)"
  using busy_minus
  by (simp add: handleClose_def setState_def call_connectionCallback_def call_closeCallback_def removeConnection_def run_call_def
      runInLoop_def isInLoopThread_def queueInLoop_def push_functor_def needs_wakeup_def wakeup_def
      world_step_defs registration_defs sc_sys_sel disableAll_def isNonEvent_def mt_closing_def
      mt_env_def sc_env_def mt_client_def mt_down_def mt_conn_def mt_chan_def mt_hup_chan_def mt_closed_chan_def sc_conn_def
      sc_conn_chan_def mt_loop_def mt_poller_def sc_ev_def mt_running_def sc_server_def sc_listening_loop_def sc_loop_def
      fun_upd_twist [of 30 "Suc 0"])

lemma threaded_dispatch:
  "dispatch mt_env t 21 (mt_closing kConnected mt_hup_chan mt_busy act False fs [] 0) =
     Inr (mt_closing kDisconnected mt_closed_chan mt_half act False fs [RemoveConnectionInLoop 7 20] 1)"
proof -
  let ?w = "mt_closing kConnected mt_hup_chan mt_busy act False fs [] 0"
  let ?v = "mt_closing kDisconnected mt_closed_chan mt_half act False fs [RemoveConnectionInLoop 7 20] 1"
  have "run_callback mt_env t (TcpConnection_handleClose 20) ?w = Inr ?v" by (simp add: threaded_handleClose)
  moreover have "w_chans ?w 21 = Some mt_hup_chan" "w_chans ?v 21 = Some mt_closed_chan" "w_conns ?w 20 \<noteq> None"
    by (simp_all add: mt_closing_def mt_down_def mt_client_def)
  moreover have "ch_revents mt_hup_chan = EPOLLHUP" "ch_revents mt_closed_chan = EPOLLHUP"
    "closeCallback mt_hup_chan = Some (TcpConnection_handleClose 20)" "ch_tied mt_hup_chan" "ch_tie mt_hup_chan = Some 20"
    by (simp_all add: mt_hup_chan_def mt_closed_chan_def mt_chan_def sc_conn_chan_def)
  ultimately show ?thesis
    by (simp add: dispatch_def handleEvent_def handleEventWithGuard_def call_if_def chan_at_def the_chan_def alive_def epoll_masks)
qed

lemma threaded_closed_destroyed:
  "exec mt_env 0 (ConnectDestroyed 20) (mt_closing kDisconnected mt_closed_chan mt_half act call fs gs n) =
     Inr (mt_closing kDisconnected (mt_closed_chan\<lparr>ch_index := kNew\<rparr>) mt_idle act call fs gs n)"
  using busy_minus
  by (simp add: connectDestroyed_def world_step_defs registration_defs channel_remove_def loop_removeChannel_def
      poller_removeChannel_def mt_closing_def mt_client_def mt_down_def mt_conn_def mt_chan_def mt_hup_chan_def
      mt_closed_chan_def sc_conn_def sc_conn_chan_def mt_loop_def mt_poller_def fun_upd_twist [of 30 "Suc 0"])

lemma threaded_round:
  "loop_iteration hup_sys (loop_at 30) (upd_loop 30) world_set_revents (dispatch mt_env) (exec mt_env 0) mt_quit =
     Inr (mt_closing kDisconnected (mt_closed_chan\<lparr>ch_index := kNew\<rparr>) mt_idle [21] False [] [RemoveConnectionInLoop 7 20] 1)"
proof -
  let ?f = "ConnectDestroyed 20" and ?g = "RemoveConnectionInLoop 7 20"
  have lp: "loop_at 30 (mt_closing st ch p act call fs gs n) = (mt_loop p act fs 3)\<lparr>el_quit := True, el_callingPendingFunctors := call\<rparr>"
    for st ch p act call fs gs n
    by (simp add: loop_at_def mt_closing_def)
  have upd: "upd_loop 30 f (mt_closing st ch p act call fs gs n) = mt_closing st ch p' act' call' fs' gs n"
    if "f ((mt_loop p act fs 3)\<lparr>el_quit := True, el_callingPendingFunctors := call\<rparr>) =
        (mt_loop p' act' fs' 3)\<lparr>el_quit := True, el_callingPendingFunctors := call'\<rparr>" for f st ch p act call fs gs n p' act' call' fs'
    using that by (simp add: upd_loop_def put_loop_def lp) (simp add: mt_closing_def mt_down_def mt_client_def)
  have rev: "world_set_revents 21 EPOLLHUP (mt_closing kConnected mt_chan mt_busy [] False [?f] [] 0) =
      Inr (mt_closing kConnected mt_hup_chan mt_busy [] False [?f] [] 0)"
    by (simp add: world_set_revents_def set_revents_def world_step_defs mt_closing_def mt_down_def mt_client_def mt_hup_chan_def)
  have now: "sys_now hup_sys = 0" by (simp add: hup_sys_def os_with_def)
  have 1: "upd_loop 30 (\<lambda>l. l\<lparr>el_activeChannels := []\<rparr>) mt_quit = mt_quit"
    unfolding mt_quit_closing by (rule upd) (simp add: mt_loop_def)
  have 2: "poller_poll hup_sys kPollTimeMs world_set_revents (el_poller (loop_at 30 mt_quit)) mt_quit =
      Inr ([21], mt_busy, mt_closing kConnected mt_hup_chan mt_busy [] False [?f] [] 0)"
    unfolding mt_quit_closing lp using rev by (simp add: mt_loop_def threaded_hup_poll)
  have 3: "upd_loop 30 (\<lambda>l. l\<lparr>el_poller := mt_busy, el_activeChannels := [21], el_pollReturnTime := sys_now hup_sys\<rparr>)
      (mt_closing kConnected mt_hup_chan mt_busy [] False [?f] [] 0) = mt_closing kConnected mt_hup_chan mt_busy [21] False [?f] [] 0"
    by (rule upd) (simp add: mt_loop_def now)
  have 4: "doPendingFunctors (loop_at 30) (upd_loop 30) (exec mt_env 0) (mt_closing kDisconnected mt_closed_chan mt_half [21] False [?f] [?g] 1) =
     Inr (mt_closing kDisconnected (mt_closed_chan\<lparr>ch_index := kNew\<rparr>) mt_idle [21] False [] [?g] 1)"
  proof -
    have "upd_loop 30 begin_calling (mt_closing kDisconnected mt_closed_chan mt_half [21] False [?f] [?g] 1) =
        mt_closing kDisconnected mt_closed_chan mt_half [21] True [?f] [?g] 1"
      by (rule upd) (simp add: mt_loop_def begin_calling_def)
    moreover have "upd_loop 30 (\<lambda>l. snd (swap_pending l)) (mt_closing kDisconnected mt_closed_chan mt_half [21] True [?f] [?g] 1) =
        mt_closing kDisconnected mt_closed_chan mt_half [21] True [] [?g] 1"
      by (rule upd) (simp add: mt_loop_def swap_pending_def)
    moreover have "upd_loop 30 end_calling (mt_closing kDisconnected (mt_closed_chan\<lparr>ch_index := kNew\<rparr>) mt_idle [21] True [] [?g] 1) =
        mt_closing kDisconnected (mt_closed_chan\<lparr>ch_index := kNew\<rparr>) mt_idle [21] False [] [?g] 1"
      by (rule upd) (simp add: mt_loop_def end_calling_def)
    moreover have "fst (swap_pending (loop_at 30 (mt_closing kDisconnected mt_closed_chan mt_half [21] True [?f] [?g] 1))) = [?f]"
      unfolding lp by (simp add: swap_pending_def mt_loop_def)
    ultimately show ?thesis using threaded_closed_destroyed by (simp add: doPendingFunctors_def Let_def)
  qed
  have "el_activeChannels (loop_at 30 (mt_closing kConnected mt_hup_chan mt_busy [21] False [?f] [] 0)) = [21]"
    unfolding lp by (simp add: mt_loop_def)
  then show ?thesis
    unfolding loop_iteration_def Let_def 1 2 using 3 4 threaded_dispatch by simp
qed

lemma threaded_stale:
  "\<exists>w. TcpServer_dtor sc_env (finish_round hup_sys [] mt_env 0) 7 [connection_name sc_running] mt_connected = Inr w \<and>
     pend w 1 = [RemoveConnectionInLoop 7 20] \<and> w_servers w 7 = None"
proof -
  let ?w = "mt_closing kDisconnected (mt_closed_chan\<lparr>ch_index := kNew\<rparr>) mt_idle [21] False [] [RemoveConnectionInLoop 7 20] 1"
  let ?l = "(mt_loop mt_idle [21] [] 3)\<lparr>el_quit := True, el_callingPendingFunctors := False\<rparr>"
  let ?v = "?w\<lparr>w_loops := (w_loops ?w)(30 := None), w_chans := (w_chans ?w)(31 := None)\<rparr>"
  have e: "e_sys mt_env = sc_sys" by (simp add: mt_env_def sc_env_def)
  have l: "w_loops ?w 30 = Some ?l" by (simp add: mt_closing_def)
  have q: "el_quit ?l" "el_wakeupChannel ?l = 31" "el_poller ?l = mt_idle" by (simp_all add: mt_loop_def)
  have x: "w_chans ?w 31 = Some mt_wakeup_chan" by (simp add: mt_closing_def mt_down_def mt_client_def)
  have "finish_thread [] mt_env 0 30 ?w = Inr ?v"
    unfolding finish_quit [OF l q(1)] e by (rule threaded_free_loop [OF l q(2) x q(3)]) simp_all
  then have 1: "finish_round hup_sys [] mt_env 0 30 mt_quit = Inr ?v"
    unfolding finish_round_def threaded_round by simp
  have v: "w_servers ?v 7 = Some (mt_running\<lparr>sv_nextConnId := 2\<rparr>)" "w_acceptors ?v = w_acceptors sc_started"
    "w_chans ?v 9 = Some (sc_listening_chan\<lparr>ch_revents := 1\<rparr>)"
    "w_loops ?v 1 = Some ((sc_listening_loop [9])\<lparr>el_pendingFunctors := [RemoveConnectionInLoop 7 20], el_wakeups := 1\<rparr>)"
    by (simp_all add: mt_closing_def mt_down_def mt_client_def mt_polled_def mt_started_def sc_started_def)
  have "sv_acceptor (mt_running\<lparr>sv_nextConnId := 2\<rparr>) = 8" by (simp add: mt_running_def sc_server_def)
  from threaded_free_server [OF v(1) this v(2-4)] obtain w where w: "TcpServer.free_server sc_sys 7 ?v = Inr w"
    "w_servers w = (w_servers ?v)(7 := None)" "pend w 1 = pend ?v 1" by auto
  have "TcpServer_dtor sc_env (finish_round hup_sys [] mt_env 0) 7 [connection_name sc_running] mt_connected = Inr w"
    unfolding threaded_members 1 using w(1) by simp
  moreover have "pend ?v 1 = [RemoveConnectionInLoop 7 20]" using v(4) by (simp add: pend_def)
  ultimately show ?thesis using w(2,3) by auto
qed

end
