(* ===== verification/LifetimeProps.thy ===== *)
theory LifetimeProps
  imports ServerProps Threaded
begin

text \<open>
  The properties of lifetimes: where the pointers of the library lead in every reachable state, when a connection can
  go, what the destructor of a server hands over to the other threads, and what it does not wait for.
\<close>

subsection \<open>Where pointers lead\<close>

lemma loop_interest_channel:
  assumes ok: "world_ok w" and l: "w_loops w lp = Some l" and ev: "pl_interest (el_poller l) fd = Some ev"
  obtains ch where "w_chans w (ev_ptr ev) = Some ch" "ch_loop ch = lp" "ch_fd ch = fd" "ch_events ch = ev_events ev"
proof -
  have p: "poller_ok (chans_of lp w, el_poller l)" by (rule world_okD(1) [OF ok l])
  with ev obtain ch where ch: "chans_of lp w (ev_ptr ev) = Some ch" "ch_fd ch = fd" "ev_events ev = ch_events ch"
    using interest_channel by blast
  then have "w_chans w (ev_ptr ev) = Some ch" "ch_loop ch = lp" by (auto simp: chans_of_def split: option.splits if_splits)
  with ch show thesis using that by metis
qed

text \<open>The same of the poller's own map.\<close>

lemma loop_map_channel:
  assumes ok: "world_ok w" and l: "w_loops w lp = Some l" and m: "pl_channels (el_poller l) fd = Some x"
  obtains ch where "w_chans w x = Some ch" "ch_index ch \<noteq> kNew"
proof -
  have "poller_ok (chans_of lp w, el_poller l)" by (rule world_okD(1) [OF ok l])
  moreover have "poller_view (el_poller l) fd \<noteq> (None, None)" using m by (simp add: poller_view_def)
  ultimately obtain y d where d: "chans_of lp w y = Some d" "ch_fd d = fd" "ch_addr d = y" "chan_inv d (el_poller l)"
    unfolding poller_ok_def registry_ok_def prod.case fst_conv by blast
  then have "registered d = Some x" using m by (simp add: chan_inv_def)
  then have "y = x" "ch_index d \<noteq> kNew" using d(3) by (auto simp: registered_def split: if_splits)
  with d(1) that show thesis by (auto simp: chans_of_def split: option.splits if_splits)
qed

text \<open>
  C3: pointers lead to what they are typed for. In every state the program can reach, whatever servers,
  connections and loops have come and gone: an entry of a server's table is a live connection of that name, which
  calls that server back; every functor in a queue or a running batch that holds a \<open>shared_ptr\<close>
  finds its connection, and \<open>removeConnectionInLoop\<close> is bound to the server that the connection calls back; every
  pointer the kernel would hand back from \<open>epoll_wait\<close> is a live channel of that loop and descriptor with
  just the events it asked for; every callback of a channel is bound to a live object, the one that owns the
  channel; acceptors and servers know each other; and the names in use at one server differ.
\<close>

theorem pointers_lead_to_objects:
  assumes "kernel sys" "EventLoop_ctor sys up epfd evfd None tid lp0 x0 = Inr (l0, ch0)"
    and "program_run (resting (booted lp0 l0 x0 ch0)) D p"
  shows "(\<forall>s sv nm a. w_servers (pg_world p) s = Some sv \<longrightarrow> sv_connections sv nm = Some a \<longrightarrow>
      (\<exists>c. w_conns (pg_world p) a = Some c \<and> tc_name c = nm \<and> tc_closeCallback c = Some s)) \<and>
    (\<forall>f a. owns f = Some a \<longrightarrow> f \<in> held p \<or> (\<exists>lp. f \<in> set (pend (pg_world p) lp)) \<longrightarrow>
      (\<exists>c. w_conns (pg_world p) a = Some c \<and> (\<forall>s. f = RemoveConnectionInLoop s a \<longrightarrow> tc_closeCallback c = Some s))) \<and>
    (\<forall>lp l fd ev. w_loops (pg_world p) lp = Some l \<longrightarrow> pl_interest (el_poller l) fd = Some ev \<longrightarrow>
      (\<exists>ch. w_chans (pg_world p) (ev_ptr ev) = Some ch \<and> ch_loop ch = lp \<and> ch_fd ch = fd \<and> ch_events ch = ev_events ev)) \<and>
    (\<forall>x ch cb. w_chans (pg_world p) x = Some ch \<longrightarrow> cb \<in> callbacks ch \<longrightarrow> leads cb x (pg_world p)) \<and>
    (\<forall>s sv. w_servers (pg_world p) s = Some sv \<longrightarrow> w_loops (pg_world p) (sv_loop sv) \<noteq> None \<and>
      (\<exists>ac. w_acceptors (pg_world p) (sv_acceptor sv) = Some ac \<and> newConnectionCallback ac = Some s)) \<and>
    (\<forall>s sv a b c d. w_servers (pg_world p) s = Some sv \<longrightarrow> w_conns (pg_world p) a = Some c \<longrightarrow> w_conns (pg_world p) b = Some d \<longrightarrow>
      tc_closeCallback c = Some s \<longrightarrow> tc_closeCallback d = Some s \<longrightarrow> tc_name c = tc_name d \<longrightarrow> a = b)"
    (is "?tables \<and> ?functors \<and> ?interest \<and> ?callbacks \<and> ?servers \<and> ?names")
proof -
  note parts = program_ok_parts [OF program_reachable_ok [OF assms]]
  note own = parts(3) and obj = parts(2) and ok = parts(1)
  have ?tables using own_okD(1) [OF own] unfolding table_ok_def by blast
  moreover have ?functors
  proof (intro allI impI)
    fix f a assume a: "owns f = Some a" and f: "f \<in> held p \<or> (\<exists>lp. f \<in> set (pend (pg_world p) lp))"
    have "functor_ok (pg_world p) f" using f own_okD(4,5) [OF own] by blast
    then show "\<exists>c. w_conns (pg_world p) a = Some c \<and> (\<forall>s. f = RemoveConnectionInLoop s a \<longrightarrow> tc_closeCallback c = Some s)"
      using a by (auto simp: functor_ok_def)
  qed
  moreover have ?interest using loop_interest_channel [OF ok] by metis
  moreover have ?callbacks using objects_okD(1) [OF obj] by blast
  moreover have ?servers using objects_okD(5,6) [OF obj] by blast
  moreover have ?names using own_okD(3) [OF own] unfolding names_differ_def by blast
  ultimately show ?thesis by blast
qed

text \<open>In the accepted world of the scenario, the entry of the client's descriptor is the connection's channel.\<close>

theorem pointers_lead_to_objects_witness:
  "\<exists>c ch. w_conns sc_accepted 20 = Some c \<and> tc_closeCallback c = Some 7 \<and> w_chans sc_accepted 21 = Some ch \<and> ch_fd ch = 5 \<and>
     leads (TcpConnection_handleRead 20) 21 sc_accepted"
proof -
  let ?p = "resting sc_accepted"
  let ?l = "sc_loop (sc_poller [4 \<mapsto> 2, 6 \<mapsto> 9, 5 \<mapsto> 21] [4 \<mapsto> sc_ev 2, 6 \<mapsto> sc_ev 9, 5 \<mapsto> sc_ev 21]) [9]"
  let ?sv = "sc_running\<lparr>sv_nextConnId := 2, sv_connections := [connection_name sc_running \<mapsto> 20]\<rparr>"
  note all = pointers_lead_to_objects [OF sc_kernel scenario_boot scenario_run]
  have sv: "w_servers (pg_world ?p) 7 = Some ?sv" "sv_connections ?sv (connection_name sc_running) = Some 20"
    and l: "w_loops (pg_world ?p) 1 = Some ?l" and ch: "w_chans (pg_world ?p) 21 = Some sc_conn_chan"
    by (simp_all add: sc_accepted_def)
  have i: "pl_interest (el_poller ?l) 5 = Some (sc_ev 21)" by (simp add: sc_loop_def sc_poller_def)
  have cb: "TcpConnection_handleRead 20 \<in> callbacks sc_conn_chan" by (simp add: callbacks_def sc_conn_chan_def)
  from conjunct1 [OF all, rule_format, OF sv] conjunct1 [OF conjunct2 [OF conjunct2 [OF all]], rule_format, OF l i]
    conjunct1 [OF conjunct2 [OF conjunct2 [OF conjunct2 [OF all]]], rule_format, OF ch cb]
  show ?thesis by (auto simp: sc_ev_def)
qed

subsection \<open>When a connection can go\<close>

text \<open>
  C6: a connection may go when its last owner does. In every reachable state, a disconnected connection that no
  server's table and no functor, queued or in a running batch, holds any more has left its poller: neither the
  poller's map nor the kernel points to its channel. Its destructor returns, that is a step of the program, the
  connection and its channel are gone, and afterwards these do not lead to where they were: no callback of a channel,
  no entry of any poller's map or interest list, no entry of any server's table, and no functor that holds a
  \<open>shared_ptr\<close>. (What may still name them: the raw \<open>this\<close> of a queued \<open>sendInLoop\<close> or
  \<open>shutdownInLoop\<close>, as C33 shows, and the list of active channels of a loop's last \<open>poll\<close>, which
  \<open>loop\<close> clears before the next.)
\<close>

theorem unowned_connection_ends:
  assumes "kernel sys" "EventLoop_ctor sys up epfd evfd None tid lp0 x0 = Inr (l0, ch0)"
    and "program_run (resting (booted lp0 l0 x0 ch0)) D p"
    and "w_conns (pg_world p) a = Some c" "tc_state c = kDisconnected" "\<not> owned (held p) (pg_world p) a"
  shows "(\<forall>l fd. w_loops (pg_world p) (tc_loop c) = Some l \<longrightarrow> pl_channels (el_poller l) fd \<noteq> Some (tc_channel c)) \<and>
    (\<exists>w. TcpConnection_dtor a (pg_world p) = Inr w \<and> program_step p {a} (p\<lparr>pg_world := w\<rparr>) \<and>
      w_conns w a = None \<and> w_chans w (tc_channel c) = None \<and>
      (\<forall>x ch cb. w_chans w x = Some ch \<longrightarrow> cb \<in> callbacks ch \<longrightarrow> leads cb x w) \<and>
      (\<forall>lp l fd ev. w_loops w lp = Some l \<longrightarrow> pl_channels (el_poller l) fd \<noteq> Some (tc_channel c) \<and>
         (pl_interest (el_poller l) fd = Some ev \<longrightarrow> ev_ptr ev \<noteq> tc_channel c)) \<and>
      (\<forall>s sv nm. w_servers w s = Some sv \<longrightarrow> sv_connections sv nm \<noteq> Some a) \<and>
      (\<forall>f lp. f \<in> held p \<or> f \<in> set (pend w lp) \<longrightarrow> owns f \<noteq> Some a))"
proof -
  let ?w = "pg_world p"
  have pok: "program_ok p" by (rule program_reachable_ok [OF assms(1-3)])
  then have f: "fine (todo p) (held p) ?w" by (simp add: program_ok_def)
  note ok = program_ok_parts(1) [OF pok]
  obtain ch where ch: "w_chans ?w (tc_channel c) = Some ch" "ch_index ch = kNew"
    using unowned_channel [OF f todo_held [OF pok] assms(6,4,5)] .
  obtain w where w: "TcpConnection_dtor a ?w = Inr w" "w_conns w = (w_conns ?w)(a := None)"
      "w_chans w = (w_chans ?w)(tc_channel c := None)"
    using keeps_dtor [OF ok assms(4,5) ch] by blast
  have same: "w_servers w = w_servers ?w" "pend w = pend ?w"
    using w(1) by (auto simp: TcpConnection_dtor_def bindE_eq_Inr guardE_eq_Inr pend_def)
  have step: "program_step p {a} (p\<lparr>pg_world := w\<rparr>)" by (rule program_step.destroy [OF assms(6) w(1)])
  then have pok': "program_ok (p\<lparr>pg_world := w\<rparr>)" using program_step_keeps pok by blast
  note parts = program_ok_parts [OF pok', simplified]
  have gone: "w_conns w a = None" "w_chans w (tc_channel c) = None" using w(2,3) by simp_all
  have map: "\<forall>l fd. w_loops ?w (tc_loop c) = Some l \<longrightarrow> pl_channels (el_poller l) fd \<noteq> Some (tc_channel c)"
    using loop_map_channel [OF ok] ch by fastforce
  have callbacks: "\<forall>x ch cb. w_chans w x = Some ch \<longrightarrow> cb \<in> callbacks ch \<longrightarrow> leads cb x w"
    using objects_okD(1) [OF parts(2)] by blast
  have poller: "pl_channels (el_poller l) fd \<noteq> Some (tc_channel c) \<and>
      (pl_interest (el_poller l) fd = Some ev \<longrightarrow> ev_ptr ev \<noteq> tc_channel c)" if l: "w_loops w lp = Some l" for lp l fd ev
    using loop_map_channel [OF parts(1) l, of fd] loop_interest_channel [OF parts(1) l, of fd ev] gone(2) by fastforce
  have owners: "\<forall>s sv nm. w_servers w s = Some sv \<longrightarrow> sv_connections sv nm \<noteq> Some a"
      "\<forall>f lp. f \<in> held p \<or> f \<in> set (pend w lp) \<longrightarrow> owns f \<noteq> Some a"
    using assms(6) unfolding same owned_def by blast+
  show ?thesis
    by (intro conjI exI [of _ w] map w(1) step gone callbacks owners allI impI)
      (use poller in \<open>blast+\<close>)
qed

text \<open>The connection of the threaded scenario after its last functor has run.\<close>

theorem unowned_connection_ends_witness:
  "\<exists>w. TcpConnection_dtor 20 mt_unowned = Inr w \<and> program_step (resting mt_unowned) {20} (resting w) \<and>
     w_conns w 20 = None \<and> w_chans w 21 = None \<and>
     (\<forall>lp l fd ev. w_loops w lp = Some l \<longrightarrow> pl_interest (el_poller l) fd = Some ev \<longrightarrow> ev_ptr ev \<noteq> 21)"
proof -
  have c: "w_conns (pg_world (resting mt_unowned)) 20 = Some (mt_conn kDisconnected)" "tc_state (mt_conn kDisconnected) = kDisconnected"
    "tc_channel (mt_conn kDisconnected) = 21"
    by (simp_all add: mt_down_def mt_client_def mt_conn_def sc_conn_def)
  from unowned_connection_ends [OF sc_kernel scenario_boot threaded_unowned_run c(1,2) mt_unowned_owned] c(3)
  show ?thesis by auto
qed

subsection \<open>What the destructor of a server hands over\<close>

definition elsewhere :: "int \<Rightarrow> world \<Rightarrow> ptr \<Rightarrow> bool" where
  "elsewhere tid w a \<longleftrightarrow>
     (\<exists>c l. w_conns w a = Some c \<and> w_loops w (tc_loop c) = Some l \<and> \<not> isInLoopThread tid l)"

definition loop_of :: "world \<Rightarrow> ptr \<Rightarrow> ptr" where
  "loop_of w a = tc_loop (the (w_conns w a))"

text \<open>The connections under the names \<open>nms\<close>, in this order.\<close>

definition listed :: "(string \<Rightarrow> ptr option) \<Rightarrow> string list \<Rightarrow> ptr list" where
  "listed m nms = List.map_filter m nms"

lemma listed_simps [simp]:
  "listed m [] = []" "listed m (nm # nms) = (case m nm of None \<Rightarrow> listed m nms | Some a \<Rightarrow> a # listed m nms)"
  by (simp_all add: listed_def List.map_filter_simps split: option.split)

lemma listed_upd [simp]: "nm \<notin> set nms \<Longrightarrow> listed (m(nm := x)) nms = listed m nms"
  by (induction nms) (auto split: option.split)

lemma destroy_connections_elsewhere:
  assumes "distinct nms" "w_servers w s = Some sv"
    and "\<forall>nm a. nm \<in> set nms \<longrightarrow> sv_connections sv nm = Some a \<longrightarrow> elsewhere (e_tid env) w a"
  shows "\<exists>w'. TcpServer.destroy_connections env s nms w = Inr w' \<and> w_conns w' = w_conns w \<and> w_chans w' = w_chans w \<and>
    w_servers w' = (w_servers w)(s \<mapsto> sv\<lparr>sv_connections := (\<lambda>nm. if nm \<in> set nms then None else sv_connections sv nm)\<rparr>) \<and>
    (\<forall>lp. pend w' lp = pend w lp @ map ConnectDestroyed (filter (\<lambda>a. loop_of w a = lp) (listed (sv_connections sv) nms)))"
  using assms
proof (induction nms arbitrary: w sv)
  case Nil
  then show ?case by (simp add: fun_upd_idem)
next
  case (Cons nm nms)
  show ?case
  proof (cases "sv_connections sv nm")
    case None
    have e: "(\<lambda>n. if n \<in> set (nm # nms) then None else sv_connections sv n) = (\<lambda>n. if n \<in> set nms then None else sv_connections sv n)"
      using None by auto
    have "\<forall>n a. n \<in> set nms \<longrightarrow> sv_connections sv n = Some a \<longrightarrow> elsewhere (e_tid env) w a" using Cons.prems(3) by simp
    note ih = Cons.IH [OF _ Cons.prems(2) this]
    have "TcpServer.destroy_connections env s (nm # nms) w = TcpServer.destroy_connections env s nms w"
      using Cons.prems(2) None by (simp add: the_server_def)
    moreover have "listed (sv_connections sv) (nm # nms) = listed (sv_connections sv) nms" using None by simp
    ultimately show ?thesis using ih Cons.prems(1) unfolding e by (simp only: distinct.simps)
  next
    case (Some a)
    have "elsewhere (e_tid env) w a" using Cons.prems(3) Some by simp
    then obtain c l where c: "w_conns w a = Some c" "w_loops w (tc_loop c) = Some l" "\<not> isInLoopThread (e_tid env) l"
      unfolding elsewhere_def by blast
    let ?sv = "sv\<lparr>sv_connections := (sv_connections sv)(nm := None)\<rparr>" and ?f = "ConnectDestroyed a"
    let ?l = "queueInLoop (e_sys env) (e_tid env) ?f l"
    let ?w2 = "put_loop (tc_loop c) ?l (put_server s ?sv w)"
    have run: "TcpServer.destroy_connections env s (nm # nms) w = TcpServer.destroy_connections env s nms ?w2"
      using Cons.prems(2) Some c
      by (simp add: the_server_def the_conn_def run_call_def the_loop_def runInLoop_def loop_at_def upd_loop_def put_server_def)
    have sel: "w_conns ?w2 = w_conns w" "w_chans ?w2 = w_chans w" "w_servers ?w2 = (w_servers w)(s \<mapsto> ?sv)"
      "w_loops ?w2 = (w_loops w)(tc_loop c \<mapsto> ?l)"
      by (simp_all add: put_server_def)
    have "el_threadId ?l = el_threadId l" by (simp add: queueInLoop_def push_functor_def wakeup_def Let_def)
    then have th: "elsewhere (e_tid env) ?w2 b" if "elsewhere (e_tid env) w b" for b
      using that c unfolding elsewhere_def sel by (auto simp: isInLoopThread_def)
    have "\<forall>n b. n \<in> set nms \<longrightarrow> sv_connections ?sv n = Some b \<longrightarrow> elsewhere (e_tid env) ?w2 b"
      using Cons.prems(3) th by simp
    moreover have "distinct nms" "w_servers ?w2 s = Some ?sv" using Cons.prems(1) by (simp_all add: sel)
    ultimately obtain w' where w': "TcpServer.destroy_connections env s nms ?w2 = Inr w'"
      "w_conns w' = w_conns ?w2" "w_chans w' = w_chans ?w2"
      "w_servers w' = (w_servers ?w2)(s \<mapsto> ?sv\<lparr>sv_connections := (\<lambda>n. if n \<in> set nms then None else sv_connections ?sv n)\<rparr>)"
      "\<forall>lp. pend w' lp = pend ?w2 lp @ map ConnectDestroyed (filter (\<lambda>b. loop_of ?w2 b = lp) (listed (sv_connections ?sv) nms))"
      using Cons.IH [of ?w2 ?sv] by blast
    have e: "(\<lambda>n. if n \<in> set nms then None else sv_connections ?sv n) = (\<lambda>n. if n \<in> set (nm # nms) then None else sv_connections sv n)"
      by auto
    have pend: "pend ?w2 lp = pend w lp @ (if tc_loop c = lp then [?f] else [])" for lp
      using c(2) by (auto simp: pend_def put_server_def queueInLoop_def push_functor_def wakeup_def Let_def)
    have "loop_of ?w2 b = loop_of w b" for b by (simp add: loop_of_def sel)
    moreover have "loop_of w a = tc_loop c" using c(1) by (simp add: loop_of_def)
    ultimately have "pend w' lp = pend w lp @ map ConnectDestroyed (filter (\<lambda>b. loop_of w b = lp) (listed (sv_connections sv) (nm # nms)))"
      for lp
      using w'(5) pend [of lp] Cons.prems(1) Some by simp
    moreover have "w_servers w' = (w_servers w)(s \<mapsto> sv\<lparr>sv_connections :=
        (\<lambda>n. if n \<in> set (nm # nms) then None else sv_connections sv n)\<rparr>)"
      using w'(4) unfolding sel(3) e by simp
    ultimately show ?thesis using w'(1-3) unfolding run sel(1,2) by blast
  qed
qed

text \<open>
  C31: what the destructor of a server leaves to its I/O threads. When the table is visited as a whole and none of
  its connections lives on a loop of the calling thread, the loop in \<open>~TcpServer\<close> always gets through, in whatever
  order the hash map has the entries: the table is empty, no connection and no channel has
  been touched from this thread, and every loop has got exactly the \<open>connectDestroyed\<close> functors of its own
  connections, one for each, behind everything that was queued before.
\<close>

theorem destructor_hands_over:
  assumes "w_servers w s = Some sv" "distinct nms" "set nms = dom (sv_connections sv)"
    and "\<forall>nm a. sv_connections sv nm = Some a \<longrightarrow> elsewhere (e_tid env) w a"
  shows "\<exists>w'. TcpServer.destroy_connections env s nms w = Inr w' \<and> w_conns w' = w_conns w \<and> w_chans w' = w_chans w \<and>
    w_servers w' = (w_servers w)(s \<mapsto> sv\<lparr>sv_connections := Map.empty\<rparr>) \<and>
    (\<forall>lp. pend w' lp = pend w lp @ map ConnectDestroyed (filter (\<lambda>a. loop_of w a = lp) (listed (sv_connections sv) nms)))"
proof -
  have "(\<lambda>nm. if nm \<in> set nms then None else sv_connections sv nm) = Map.empty"
    unfolding assms(3) by (auto simp: domIff)
  with destroy_connections_elsewhere [OF assms(2,1), of env] assms(4) show ?thesis by simp
qed

theorem destructor_hands_over_witness:
  "\<exists>w'. TcpServer.destroy_connections sc_env 7 [connection_name sc_running] mt_connected = Inr w' \<and>
     w_conns w' = w_conns mt_connected \<and> pend w' 30 = [ConnectDestroyed 20] \<and> pend w' 1 = []"
proof -
  let ?sv = "mt_running\<lparr>sv_nextConnId := 2, sv_connections := [connection_name sc_running \<mapsto> 20]\<rparr>"
  have sv: "w_servers mt_connected 7 = Some ?sv" by (simp add: mt_client_def)
  have l: "loop_of mt_connected 20 = 30" "pend mt_connected 30 = []" "pend mt_connected 1 = []"
    by (simp_all add: loop_of_def pend_def mt_client_def mt_conn_def mt_loop_def sc_listening_loop_def sc_loop_def)
  have "elsewhere (e_tid sc_env) mt_connected 20"
    by (simp add: elsewhere_def mt_client_def mt_conn_def mt_loop_def isInLoopThread_def sc_env_def)
  then have "\<forall>nm a. sv_connections ?sv nm = Some a \<longrightarrow> elsewhere (e_tid sc_env) mt_connected a" by simp
  from destructor_hands_over [OF sv _ _ this, of "[connection_name sc_running]"] l show ?thesis by auto
qed

subsection \<open>What the destructor of a server does not wait for\<close>

text \<open>
  C33: a message can come after the connection. \<open>send\<close>, off the loop's thread, binds the raw pointer
  \<open>this\<close>. This run of the program starts with the construction of the loop: a client is connected to a
  server with one I/O thread; the server's destructor queues \<open>connectDestroyed\<close>; while the I/O loop runs the batch
  with it, a third thread, to which the connection still is \<open>kConnected\<close>, sends; the batch ends, nothing
  owns the connection any more and it is destroyed; and the next batch begins with a \<open>sendInLoop\<close> whose object is
  gone, though the string that was to be sent is still there.
\<close>

theorem late_send_dangles:
  "\<exists>p. program_run (resting sc_boot) {20} p \<and> SendInLoop 20 60 2 \<in> todo p \<and>
     w_strings (pg_world p) 60 = Some [104, 105] \<and>
     (\<forall>env ret. exec env ret (SendInLoop 20 60 2) (pg_world p) = Inl (Undefined ''TcpConnection''))"
proof (intro exI conjI allI)
  let ?p = "batch [SendInLoop 20 60 2] [SendInLoop 20 60 2] (mt_over True [])"
  show "program_run (resting sc_boot) {20} ?p" by (rule threaded_late_run)
  show "SendInLoop 20 60 2 \<in> todo ?p" unfolding todo_def by (intro CollectI exI [of _ 30]) simp
  show "w_strings (pg_world ?p) 60 = Some [104, 105]" by (simp add: mt_over_def mt_down_def)
  show "exec env ret (SendInLoop 20 60 2) (pg_world ?p) = Inl (Undefined ''TcpConnection'')" for env ret
    by (simp add: sendInLoop_def the_conn_def mt_over_def bindE_def)
qed

text \<open>
  C32: the destructor of a server does not know what its I/O threads still have to do. In a state the program
  reaches, with a client connected on the loop of an I/O thread, the destructor runs to its end, and what it leaves
  behind is wrong, in two ways that depend only on where the thread was when the flag \<open>quit_\<close> was set. At the head
  of the \<open>while\<close> loop it ends without running the functor \<open>connectDestroyed\<close>: the connection, still \<open>kConnected\<close>
  and owned by nothing, has lost its loop, and its destructor fails its assertion. In \<open>poll\<close>, when the
  client hangs up, it closes the connection first and queues \<open>removeConnectionInLoop\<close> for the server's
  own loop, where it is found when the server is gone.
\<close>

theorem server_destructor_races:
  "\<exists>w. program_run (resting sc_boot) {} (resting w) \<and>
    (\<exists>w' c. TcpServer_dtor sc_env (finish_thread [] mt_env 0) 7 [connection_name sc_running] w = Inr w' \<and>
      w_conns w' 20 = Some c \<and> tc_state c = kConnected \<and> w_loops w' (tc_loop c) = None \<and> \<not> owned {} w' 20 \<and>
      TcpConnection_dtor 20 w' = Inl (AssertFail ''state_ == kDisconnected'')) \<and>
    (\<exists>w' f. TcpServer_dtor sc_env (finish_round hup_sys [] mt_env 0) 7 [connection_name sc_running] w = Inr w' \<and>
      pend w' 1 = [f] \<and> (\<forall>env ret. exec env ret f w' = Inl (Undefined ''TcpServer'')))"
proof (rule exI [of _ mt_connected], intro conjI)
  show "program_run (resting sc_boot) {} (resting mt_connected)" by (rule threaded_run)
  obtain w where w: "TcpServer_dtor sc_env (finish_thread [] mt_env 0) 7 [connection_name sc_running] mt_connected = Inr w"
     "w_conns w 20 = Some (mt_conn kConnected)" "w_loops w 30 = None" "\<not> owned {} w 20"
    using threaded_lost by blast
  have c: "tc_state (mt_conn kConnected) = kConnected" "tc_loop (mt_conn kConnected) = 30" by (simp_all add: mt_conn_def)
  have "TcpConnection_dtor 20 w = Inl (AssertFail ''state_ == kDisconnected'')"
    using w(2) c(1) by (simp add: TcpConnection_dtor_def the_conn_def bindE_def guardE_def)
  then show "\<exists>w' c. TcpServer_dtor sc_env (finish_thread [] mt_env 0) 7 [connection_name sc_running] mt_connected = Inr w' \<and>
      w_conns w' 20 = Some c \<and> tc_state c = kConnected \<and> w_loops w' (tc_loop c) = None \<and> \<not> owned {} w' 20 \<and>
      TcpConnection_dtor 20 w' = Inl (AssertFail ''state_ == kDisconnected'')"
    using w c by (intro exI [of _ w] exI [of _ "mt_conn kConnected"]) simp
  obtain v where v: "TcpServer_dtor sc_env (finish_round hup_sys [] mt_env 0) 7 [connection_name sc_running] mt_connected = Inr v"
     "pend v 1 = [RemoveConnectionInLoop 7 20]" "w_servers v 7 = None"
    using threaded_stale by blast
  have "exec env ret (RemoveConnectionInLoop 7 20) v = Inl (Undefined ''TcpServer'')" for env ret
    using v(3) by (simp add: removeConnectionInLoop_def the_server_def bindE_def)
  then show "\<exists>w' f. TcpServer_dtor sc_env (finish_round hup_sys [] mt_env 0) 7 [connection_name sc_running] mt_connected = Inr w' \<and>
      pend w' 1 = [f] \<and> (\<forall>env ret. exec env ret f w' = Inl (Undefined ''TcpServer''))"
    using v(1,2) by blast
qed

end
