(* ===== verification/Threads.thy ===== *)
theory Threads
  imports Format Posix
begin

text \<open>
  Threads: \<open>src/CurrentThread.h\<close>, \<open>src/CurrentThread.cc\<close>, \<open>src/Thread.h\<close> and \<open>src/Thread.cc\<close>. What
  \<open>gettid\<close> returns is an argument; the concurrent part of \<open>Thread::start\<close> is in \<open>EventLoopThread\<close>.
\<close>

subsection \<open>The cached thread id\<close>

text \<open>\<open>cached\<close> is the thread-local \<open>t_cachedTid\<close>.\<close>

definition cacheTid :: "int \<Rightarrow> int \<Rightarrow> int" where
  "cacheTid gettid cached = (if cached = 0 then gettid else cached)"

definition current_tid :: "int \<Rightarrow> int \<Rightarrow> int \<times> int" where
  "current_tid gettid cached =
     (let c = (if cached = 0 then cacheTid gettid cached else cached) in (c, c))"

subsection \<open>The class\<close>

text \<open>\<open>th_thread\<close> is what the pointer \<open>thread_\<close> leads to.\<close>

datatype std_thread = Joinable | Joined | Detached

record thread =
  th_started :: bool
  th_joined :: bool
  th_thread :: "std_thread option"
  th_tid :: int
  th_name :: string

text \<open>\<open>num\<close> is \<open>numCreated_\<close> after the increment.\<close>

definition setDefaultName :: "cint \<Rightarrow> thread \<Rightarrow> thread" where
  "setDefaultName num t =
     (if th_name t = [] then t\<lparr>th_name := snprintf 32 (''Thread'' @ int_str (sint num))\<rparr> else t)"

definition Thread_ctor :: "string \<Rightarrow> cint \<Rightarrow> thread \<times> cint" where
  "Thread_ctor name numCreated =
     (let t = \<lparr>th_started = False, th_joined = False, th_thread = None, th_tid = 0, th_name = name\<rparr>;
          num = numCreated + 1
      in (setDefaultName num t, num))"

text \<open>
  After the body of the destructor the member \<open>thread_\<close> is destroyed, and with it the \<open>std::thread\<close> it owns: one that is
  still joinable ends the program.
\<close>

definition Thread_dtor :: "thread \<Rightarrow> fault + thread" where
  "Thread_dtor t =
     bindE
       (if th_started t \<and> \<not> th_joined t then
          (case th_thread t of
             None \<Rightarrow> Inl (Undefined ''thread_ is null'')
           | Some Joinable \<Rightarrow> Inr (t\<lparr>th_thread := Some Detached\<rparr>)
           | _ \<Rightarrow> Inl (SystemError ''std::thread::detach''))
        else Inr t)
       (\<lambda>t'. if th_thread t' = Some Joinable then Inl (SystemError ''std::terminate'') else Inr t')"

text \<open>
  \<open>start\<close>, once the new thread has stored its id (\<open>tid\<close>) and posted the semaphore: a second
  \<open>std::thread\<close> replaces the first, which ends the program when that is still joinable.
\<close>

definition thread_start :: "int \<Rightarrow> thread \<Rightarrow> fault + thread" where
  "thread_start tid t =
     (if th_thread t = Some Joinable then Inl (SystemError ''std::terminate'')
      else bindE (guardE (tid > 0) (AssertFail ''tid_ > 0'')) (\<lambda>_.
           Inr (t\<lparr>th_started := True, th_thread := Some Joinable, th_tid := tid\<rparr>)))"

definition thread_join :: "thread \<Rightarrow> fault + thread" where
  "thread_join t =
     (case th_thread t of
        None \<Rightarrow> Inl (Undefined ''thread_ is null'')
      | Some Joinable \<Rightarrow> Inr (t\<lparr>th_joined := True, th_thread := Some Joined\<rparr>)
      | _ \<Rightarrow> Inl (SystemError ''std::thread::join''))"

subsection \<open>Properties\<close>

text \<open>What the owner of a thread object may call on it, any number of times and in any order, before destroying it.\<close>

datatype thread_op = Start int | Join

fun thread_do :: "thread_op \<Rightarrow> thread \<Rightarrow> fault + thread" where
  "thread_do (Start tid) t = thread_start tid t"
| "thread_do Join t = thread_join t"

fun thread_run :: "thread_op list \<Rightarrow> thread \<Rightarrow> fault + thread" where
  "thread_run [] t = Inr t"
| "thread_run (x # xs) t = bindE (thread_do x t) (thread_run xs)"

lemma thread_run_append: "thread_run (xs @ ys) t = bindE (thread_run xs t) (thread_run ys)"
  by (induction xs arbitrary: t) (auto simp: bindE_def split: sum.splits)

text \<open>The first \<open>n\<close> calls are a start, a join, a start, a join, and so on.\<close>

definition alternate :: "thread_op list \<Rightarrow> nat \<Rightarrow> bool" where
  "alternate ops n \<longleftrightarrow> (\<forall>i < n. ops ! i \<noteq> Join \<longleftrightarrow> even i)"

text \<open>A thread object after \<open>n\<close> such calls.\<close>

definition thread_after :: "nat \<Rightarrow> thread \<Rightarrow> bool" where
  "thread_after n s \<longleftrightarrow> th_started s = (0 < n) \<and> th_joined s = (1 < n) \<and>
     th_thread s = (if n = 0 then None else if odd n then Some Joinable else Some Joined)"

lemma thread_run_alternate:
  assumes "alternate ops (length ops)" "\<forall>tid. Start tid \<in> set ops \<longrightarrow> 0 < tid" "thread_after 0 t"
  shows "\<exists>s. thread_run ops t = Inr s \<and> thread_after (length ops) s \<and>
    (\<forall>xs tid. ops = xs @ [Start tid] \<longrightarrow> th_tid s = tid)"
  using assms
proof (induction ops rule: rev_induct)
  case Nil
  then show ?case by simp
next
  case (snoc x xs)
  have xs: "alternate xs (length xs)" and x: "x \<noteq> Join \<longleftrightarrow> even (length xs)"
    using snoc.prems(1) by (auto simp: alternate_def nth_append split: if_splits)
  obtain s where s: "thread_run xs t = Inr s" "thread_after (length xs) s"
    using snoc.IH [OF xs] snoc.prems(2,3) by auto
  then have after: "th_started s = (xs \<noteq> [])" "th_joined s = (1 < length xs)"
    "th_thread s = (if xs = [] then None else if odd (length xs) then Some Joinable else Some Joined)"
    by (simp_all add: thread_after_def)
  show ?case
  proof (cases x)
    case (Start tid)
    then have "even (length xs)" "0 < tid" using x snoc.prems(2) by auto
    moreover have "xs \<noteq> [] \<Longrightarrow> 1 < length xs" using \<open>even (length xs)\<close> by (cases xs rule: rev_cases; cases xs) auto
    ultimately show ?thesis
      using s after Start by (auto simp: thread_run_append thread_start_def guardE_def thread_after_def)
  next
    case Join
    then have "odd (length xs)" using x by simp
    then show ?thesis using s after Join by (auto simp: thread_run_append thread_join_def thread_after_def)
  qed
qed

lemma thread_run_breaks:
  assumes "thread_run (take n ops) t = Inr s" "n < length ops" "thread_do (ops ! n) s = Inl e"
  shows "thread_run ops t = Inl e"
  using thread_run_append [of "take n ops" "ops ! n # drop (Suc n) ops" t] assms
  by (simp add: id_take_nth_drop [symmetric])

lemma Thread_dtor_after:
  assumes "thread_after n s"
  shows "(even n \<longrightarrow> Thread_dtor s = Inr s) \<and>
    (n = 1 \<longrightarrow> Thread_dtor s = Inr (s\<lparr>th_thread := Some Detached\<rparr>)) \<and>
    (odd n \<and> 1 < n \<longrightarrow> Thread_dtor s = Inl (SystemError ''std::terminate''))"
  using assms by (auto simp: thread_after_def Thread_dtor_def)

lemma Thread_ctor_after: "thread_after 0 (fst (Thread_ctor name n))"
  by (cases "name = []") (simp_all add: thread_after_def Thread_ctor_def setDefaultName_def Let_def)

lemma default_names_differ:
  assumes "th_name (fst (Thread_ctor [] m)) = th_name (fst (Thread_ctor [] n))"
  shows "m = n"
proof -
  have nm: "th_name (fst (Thread_ctor [] m)) = snprintf 32 (''Thread'' @ int_str (sint (m + 1)))" for m
    by (simp add: Thread_ctor_def setDefaultName_def Let_def)
  have "length (int_str (sint (m :: cint))) \<le> 11" for m
  proof -
    have "sint m < 2 ^ 31" "- (2 ^ 31) \<le> sint m" using sint_lt [of m] sint_ge [of m] by simp_all
    then have "nat (sint m) < 10 ^ 10" "nat (- sint m) < 10 ^ 10" by simp_all
    then have "length (nat_str (nat (sint m))) \<le> 10" "length (nat_str (nat (- sint m))) \<le> 10"
      by (simp_all add: length_nat_str)
    then show ?thesis by (simp add: int_str_def)
  qed
  then have full: "snprintf 32 (''Thread'' @ int_str (sint (m :: cint))) = ''Thread'' @ int_str (sint m)" for m
    using le_trans [of "length (int_str (sint m))" 11 25] by (simp add: snprintf_def)
  have "sint (m + 1) = sint (n + 1)" using assms unfolding nm full by simp
  then show ?thesis using signed_word_eqI [of "m + 1" "n + 1"] by simp
qed

text \<open>
  C38: the life of a thread object, for every sequence of calls of \<open>start\<close> and \<open>join\<close> on a new one followed by its
  destruction. As long as starts and joins alternate, beginning with a start, every call returns, and a
  start leaves the id of the new thread. Then the destructor of an object that was joined as often as it was started leaves
  no running thread behind, that of one started once and not joined detaches the thread, and that of one started
  again after a join, and not joined again, ends the program: \<open>joined_\<close> is still set, so a joinable \<open>std::thread\<close> is
  destroyed. The first call out of turn fails: a start before the join ends the program, a join
  before any start follows a null pointer, and a second join throws. Threads created without a name get distinct ones as
  long as fewer than \<open>2^32\<close> are created.
\<close>

theorem thread_lifecycle:
  assumes "\<forall>tid. Start tid \<in> set ops \<longrightarrow> 0 < tid" and t_def: "t = fst (Thread_ctor name k)"
  shows "(alternate ops (length ops) \<longrightarrow>
      (\<exists>s. thread_run ops t = Inr s \<and> (\<forall>xs tid. ops = xs @ [Start tid] \<longrightarrow> th_tid s = tid) \<and>
         (even (length ops) \<longrightarrow> Thread_dtor s = Inr s \<and> th_thread s \<notin> {Some Joinable, Some Detached}) \<and>
         (length ops = 1 \<longrightarrow> Thread_dtor s = Inr (s\<lparr>th_thread := Some Detached\<rparr>)) \<and>
         (odd (length ops) \<and> 1 < length ops \<longrightarrow> Thread_dtor s = Inl (SystemError ''std::terminate'')))) \<and>
    (\<forall>n < length ops. alternate ops n \<longrightarrow>
      (odd n \<and> ops ! n \<noteq> Join \<longrightarrow> thread_run ops t = Inl (SystemError ''std::terminate'')) \<and>
      (even n \<and> ops ! n = Join \<longrightarrow> thread_run ops t =
         Inl (if n = 0 then Undefined ''thread_ is null'' else SystemError ''std::thread::join''))) \<and>
    (\<forall>m. th_name (fst (Thread_ctor [] m)) = th_name (fst (Thread_ctor [] k)) \<longrightarrow> m = k)"
proof (intro conjI allI impI)
  assume "alternate ops (length ops)"
  then obtain s where "thread_run ops t = Inr s" "thread_after (length ops) s"
      "\<And>xs tid. ops = xs @ [Start tid] \<Longrightarrow> th_tid s = tid"
    using thread_run_alternate [OF _ assms(1) Thread_ctor_after] unfolding t_def by blast
  then show "\<exists>s. thread_run ops t = Inr s \<and> (\<forall>xs tid. ops = xs @ [Start tid] \<longrightarrow> th_tid s = tid) \<and>
         (even (length ops) \<longrightarrow> Thread_dtor s = Inr s \<and> th_thread s \<notin> {Some Joinable, Some Detached}) \<and>
         (length ops = 1 \<longrightarrow> Thread_dtor s = Inr (s\<lparr>th_thread := Some Detached\<rparr>)) \<and>
         (odd (length ops) \<and> 1 < length ops \<longrightarrow> Thread_dtor s = Inl (SystemError ''std::terminate''))"
    using Thread_dtor_after [of "length ops" s] by (intro exI [of _ s]) (auto simp: thread_after_def)
next
  fix n
  assume n: "n < length ops" "alternate ops n"
  have pre: "alternate (take n ops) (length (take n ops))" "\<forall>tid. Start tid \<in> set (take n ops) \<longrightarrow> 0 < tid"
    using n assms(1) by (auto simp: alternate_def dest: in_set_takeD)
  obtain s where s: "thread_run (take n ops) t = Inr s" "thread_after n s"
    using thread_run_alternate [OF pre Thread_ctor_after, of name k] n(1) unfolding t_def by auto
  show "thread_run ops t = Inl (SystemError ''std::terminate'')" if "odd n \<and> ops ! n \<noteq> Join"
    using that s(2)
    by (intro thread_run_breaks [OF s(1) n(1)]) (cases "ops ! n"; auto simp: thread_after_def thread_start_def)
  show "thread_run ops t = Inl (if n = 0 then Undefined ''thread_ is null'' else SystemError ''std::thread::join'')"
    if "even n \<and> ops ! n = Join"
    using that s(2)
    by (intro thread_run_breaks [OF s(1) n(1)]) (auto simp: thread_after_def thread_join_def)
qed (rule default_names_differ)

text \<open>Started again after a join and destroyed; and joined twice.\<close>

theorem thread_lifecycle_witness:
  "(\<exists>s. thread_run [Start 42, Join, Start 43] (fst (Thread_ctor ''io'' 0)) = Inr s \<and> th_tid s = 43 \<and>
      Thread_dtor s = Inl (SystemError ''std::terminate'')) \<and>
   thread_run [Start 42, Join, Join] (fst (Thread_ctor ''io'' 0)) = Inl (SystemError ''std::thread::join'')"
proof -
  let ?t = "fst (Thread_ctor ''io'' 0)"
  have a: "alternate [Start 42, Join, Start 43] 3" and b: "alternate [Start 42, Join, Join] 2"
    by (auto simp: alternate_def less_Suc_eq numeral_3_eq_3 numeral_2_eq_2)
  have "\<exists>s. thread_run [Start 42, Join, Start 43] ?t = Inr s \<and>
      (\<forall>xs tid. [Start 42, Join, Start 43] = xs @ [Start tid] \<longrightarrow> th_tid s = tid) \<and>
      Thread_dtor s = Inl (SystemError ''std::terminate'')"
    using thread_lifecycle [of "[Start 42, Join, Start 43]" ?t "''io''" 0] a
    by (simp del: thread_run.simps add: numeral_3_eq_3)
  moreover have "thread_run [Start 42, Join, Join] ?t = Inl (SystemError ''std::thread::join'')"
  proof -
    have "\<forall>n < length [Start 42, Join, Join]. alternate [Start 42, Join, Join] n \<longrightarrow>
        (even n \<and> [Start 42, Join, Join] ! n = Join \<longrightarrow> thread_run [Start 42, Join, Join] ?t =
           Inl (if n = 0 then Undefined ''thread_ is null'' else SystemError ''std::thread::join''))"
      using thread_lifecycle [of "[Start 42, Join, Join]" ?t "''io''" 0] by (simp del: thread_run.simps)
    from spec [OF this, of 2] b show ?thesis by (simp del: thread_run.simps)
  qed
  ultimately show ?thesis by fastforce
qed

end
