(* ===== verification/EventLoopThread.thy ===== *)
theory EventLoopThread
  imports Threads
begin

text \<open>
  The start and the end of a loop's thread: \<open>src/EventLoopThread.cc\<close> with \<open>Thread::start\<close> and \<open>Thread::join\<close>
  of \<open>src/Thread.cc\<close> and \<open>quit\<close> of \<open>src/EventLoop.cc\<close>, as the interleaving of the creating thread and the
  created one. Every access to the mutex, the condition variable, the semaphore, the shared fields and the members
  of the loop is a step of its own.
\<close>

subsection \<open>Program counters and state\<close>

text \<open>
  The creating thread: \<open>Thread::start\<close> up to \<open>M_assert\<close>, \<open>startLoop\<close> up to \<open>M_done\<close>, and then the
  destructor. \<open>M_blocked\<close> is inside \<open>cv_.wait\<close>, \<open>M_wakeup\<close> where it takes the mutex again. The destructor tests
  \<open>loop_\<close> (\<open>D_test\<close>), reads it again for the call (\<open>D_quit\<close>), and inside \<open>EventLoop::quit\<close> sets \<open>quit_\<close> (\<open>D_set\<close>),
  reads \<open>threadId_\<close> in \<open>isInLoopThread\<close> (\<open>D_thread\<close>; the creator is never the loop's thread), and reads
  \<open>wakeupFd_\<close> and writes to it (\<open>D_wakeup\<close>). \<open>M_fault\<close> is a failed assertion, a call through a null pointer, or the
  use of a member of a loop that has been destroyed.
\<close>

datatype main_pc = M_spawn | M_sem_wait | M_assert | M_lock | M_test | M_blocked | M_wakeup | M_read | M_unlock
  | M_done | D_test | D_quit | D_set | D_thread | D_wakeup | D_join | D_end | M_fault

text \<open>
  The created thread: the lambda of \<open>Thread::start\<close> (\<open>C_tid\<close>, \<open>C_post\<close>), then \<open>threadFunc\<close>; the loop object lives
  from \<open>C_ctor\<close> to \<open>C_destroy\<close>. \<open>C_enter\<close> is the start of \<open>EventLoop::loop\<close>, which clears \<open>quit_\<close>; at \<open>C_loop\<close>
  it iterates until the flag is set. The handler steps of an iteration are those of \<open>EventLoop\<close> and do not touch
  this object.
\<close>

datatype child_pc = C_none | C_tid | C_post | C_ctor | C_callback | C_lock | C_set | C_notify | C_unlock | C_enter | C_loop
  | C_exit_lock | C_clear | C_exit_unlock | C_destroy | C_end

datatype who = Creator | Created

text \<open>
  \<open>hs_loop\<close> is the member \<open>loop_\<close>, \<open>hs_result\<close> the local \<open>loop\<close> of \<open>startLoop\<close>; \<open>hs_quit\<close> is the flag of the loop,
  and \<open>hs_foreign\<close> records that somebody else than the destructor set it.
\<close>

record handshake =
  hs_main :: main_pc
  hs_child :: child_pc
  hs_tid :: int
  hs_sem :: nat
  hs_mutex :: "who option"
  hs_loop :: "ptr option"
  hs_result :: "ptr option"
  hs_alive :: bool
  hs_called :: bool
  hs_quit :: bool
  hs_foreign :: bool

definition hs_init :: handshake where
  "hs_init = \<lparr>hs_main = M_spawn, hs_child = C_none, hs_tid = 0, hs_sem = 0, hs_mutex = None, hs_loop = None,
     hs_result = None, hs_alive = False, hs_called = False, hs_quit = False, hs_foreign = False\<rparr>"

subsection \<open>Steps\<close>

definition main_step :: "handshake \<Rightarrow> handshake option" where
  "main_step s = (case hs_main s of
     M_spawn \<Rightarrow> Some (s\<lparr>hs_main := M_sem_wait, hs_child := C_tid\<rparr>)
   | M_sem_wait \<Rightarrow> (if 0 < hs_sem s then Some (s\<lparr>hs_main := M_assert, hs_sem := hs_sem s - 1\<rparr>) else None)
   | M_assert \<Rightarrow> Some (s\<lparr>hs_main := if 0 < hs_tid s then M_lock else M_fault\<rparr>)
   | M_lock \<Rightarrow> (if hs_mutex s = None then Some (s\<lparr>hs_main := M_test, hs_mutex := Some Creator\<rparr>) else None)
   | M_test \<Rightarrow> Some (if hs_loop s = None then s\<lparr>hs_main := M_blocked, hs_mutex := None\<rparr> else s\<lparr>hs_main := M_read\<rparr>)
   | M_blocked \<Rightarrow> None
   | M_wakeup \<Rightarrow> (if hs_mutex s = None then Some (s\<lparr>hs_main := M_test, hs_mutex := Some Creator\<rparr>) else None)
   | M_read \<Rightarrow> Some (s\<lparr>hs_main := M_unlock, hs_result := hs_loop s\<rparr>)
   | M_unlock \<Rightarrow> Some (s\<lparr>hs_main := M_done, hs_mutex := None\<rparr>)
   | M_done \<Rightarrow> None
   | D_test \<Rightarrow> Some (s\<lparr>hs_main := if hs_loop s = None then D_end else D_quit\<rparr>)
   | D_quit \<Rightarrow> Some (s\<lparr>hs_main := if hs_loop s = None then M_fault else D_set\<rparr>)
   | D_set \<Rightarrow> Some (if hs_alive s then s\<lparr>hs_main := D_thread, hs_quit := True\<rparr> else s\<lparr>hs_main := M_fault\<rparr>)
   | D_thread \<Rightarrow> Some (s\<lparr>hs_main := if hs_alive s then D_wakeup else M_fault\<rparr>)
   | D_wakeup \<Rightarrow> Some (s\<lparr>hs_main := if hs_alive s then D_join else M_fault\<rparr>)
   | D_join \<Rightarrow> (if hs_child s = C_end then Some (s\<lparr>hs_main := D_end\<rparr>) else None)
   | D_end \<Rightarrow> None
   | M_fault \<Rightarrow> None)"

text \<open>\<open>gettid\<close> is the new thread's id, \<open>lp\<close> the address of its loop.\<close>

definition child_step :: "int \<Rightarrow> ptr \<Rightarrow> handshake \<Rightarrow> handshake option" where
  "child_step gettid lp s = (case hs_child s of
     C_none \<Rightarrow> None
   | C_tid \<Rightarrow> Some (s\<lparr>hs_child := C_post, hs_tid := fst (current_tid gettid 0)\<rparr>)
   | C_post \<Rightarrow> Some (s\<lparr>hs_child := C_ctor, hs_sem := hs_sem s + 1\<rparr>)
   | C_ctor \<Rightarrow> Some (s\<lparr>hs_child := C_callback, hs_alive := True\<rparr>)
   | C_callback \<Rightarrow> Some (s\<lparr>hs_child := C_lock, hs_called := True\<rparr>)
   | C_lock \<Rightarrow> (if hs_mutex s = None then Some (s\<lparr>hs_child := C_set, hs_mutex := Some Created\<rparr>) else None)
   | C_set \<Rightarrow> Some (s\<lparr>hs_child := C_notify, hs_loop := Some lp\<rparr>)
   | C_notify \<Rightarrow> Some (s\<lparr>hs_child := C_unlock,
                         hs_main := if hs_main s = M_blocked then M_wakeup else hs_main s\<rparr>)
   | C_unlock \<Rightarrow> Some (s\<lparr>hs_child := C_enter, hs_mutex := None\<rparr>)
   | C_enter \<Rightarrow> Some (s\<lparr>hs_child := C_loop, hs_quit := False\<rparr>)
   | C_loop \<Rightarrow> (if hs_quit s then Some (s\<lparr>hs_child := C_exit_lock\<rparr>) else None)
   | C_exit_lock \<Rightarrow> (if hs_mutex s = None then Some (s\<lparr>hs_child := C_clear, hs_mutex := Some Created\<rparr>) else None)
   | C_clear \<Rightarrow> Some (s\<lparr>hs_child := C_exit_unlock, hs_loop := None\<rparr>)
   | C_exit_unlock \<Rightarrow> Some (s\<lparr>hs_child := C_destroy, hs_mutex := None\<rparr>)
   | C_destroy \<Rightarrow> Some (s\<lparr>hs_child := C_end, hs_alive := False\<rparr>)
   | C_end \<Rightarrow> None)"

text \<open>
  The two threads' own steps, a return of \<open>wait\<close> that nobody asked for, the owner destroying the object, and a
  \<open>quit\<close> by anybody else while the loop exists.
\<close>

inductive own_step :: "int \<Rightarrow> ptr \<Rightarrow> handshake \<Rightarrow> handshake \<Rightarrow> bool" for gettid lp where
  main: "main_step s = Some t \<Longrightarrow> own_step gettid lp s t"
| child: "child_step gettid lp s = Some t \<Longrightarrow> own_step gettid lp s t"

inductive hs_step :: "int \<Rightarrow> ptr \<Rightarrow> handshake \<Rightarrow> handshake \<Rightarrow> bool" for gettid lp where
  own: "own_step gettid lp s t \<Longrightarrow> hs_step gettid lp s t"
| spurious: "hs_main s = M_blocked \<Longrightarrow> hs_step gettid lp s (s\<lparr>hs_main := M_wakeup\<rparr>)"
| destroy: "hs_main s = M_done \<Longrightarrow> hs_step gettid lp s (s\<lparr>hs_main := D_test\<rparr>)"
| foreign: "hs_alive s \<Longrightarrow> hs_step gettid lp s (s\<lparr>hs_quit := True, hs_foreign := True\<rparr>)"

inductive hs_reachable :: "int \<Rightarrow> ptr \<Rightarrow> handshake \<Rightarrow> bool" for gettid lp where
  init: "hs_reachable gettid lp hs_init"
| step: "hs_reachable gettid lp s \<Longrightarrow> hs_step gettid lp s t \<Longrightarrow> hs_reachable gettid lp t"

inductive_cases own_stepE: "own_step gettid lp s t"
inductive_cases hs_stepE: "hs_step gettid lp s t"

subsection \<open>The invariant\<close>

text \<open>
  The places of the created thread that go with a place of the creator, and the rest of the state,
  which the two places determine: in every reachable state it has this shape, whoever quits the loop.
\<close>

fun places :: "main_pc \<Rightarrow> child_pc list" where
  "places M_spawn = [C_none]"
| "places M_sem_wait = [C_tid, C_post, C_ctor, C_callback, C_lock, C_set, C_notify, C_unlock, C_enter, C_loop,
     C_exit_lock, C_clear, C_exit_unlock, C_destroy, C_end]"
| "places M_test = [C_ctor, C_callback, C_lock, C_enter, C_loop, C_exit_lock, C_destroy, C_end]"
| "places M_read = [C_enter, C_loop, C_exit_lock]"
| "places M_unlock = [C_enter, C_loop, C_exit_lock]"
| "places M_done = [C_enter, C_loop, C_exit_lock, C_clear, C_exit_unlock, C_destroy, C_end]"
| "places D_test = [C_enter, C_loop, C_exit_lock, C_clear, C_exit_unlock, C_destroy, C_end]"
| "places D_quit = [C_enter, C_loop, C_exit_lock, C_clear, C_exit_unlock, C_destroy, C_end]"
| "places D_set = [C_enter, C_loop, C_exit_lock, C_clear, C_exit_unlock, C_destroy, C_end]"
| "places D_thread = [C_enter, C_loop, C_exit_lock, C_clear, C_exit_unlock, C_destroy, C_end]"
| "places D_wakeup = [C_enter, C_loop, C_exit_lock, C_clear, C_exit_unlock, C_destroy, C_end]"
| "places D_join = [C_enter, C_loop, C_exit_lock, C_clear, C_exit_unlock, C_destroy, C_end]"
| "places D_end = [C_enter, C_loop, C_exit_lock, C_clear, C_exit_unlock, C_destroy, C_end]"
| "places M_fault = [C_enter, C_loop, C_exit_lock, C_clear, C_exit_unlock, C_destroy, C_end]"
| "places _ = [C_ctor, C_callback, C_lock, C_set, C_notify, C_unlock, C_enter, C_loop,
     C_exit_lock, C_clear, C_exit_unlock, C_destroy, C_end]"

definition shape :: "int \<Rightarrow> ptr \<Rightarrow> main_pc \<Rightarrow> child_pc \<Rightarrow> bool \<Rightarrow> bool \<Rightarrow> handshake" where
  "shape gettid lp m c q f =
     \<lparr>hs_main = m, hs_child = c,
      hs_tid = if c \<in> {C_none, C_tid} then 0 else gettid,
      hs_sem = if m = M_sem_wait \<and> c \<notin> {C_tid, C_post} then 1 else 0,
      hs_mutex = if m \<in> {M_test, M_read, M_unlock} then Some Creator
                 else if c \<in> {C_set, C_notify, C_unlock, C_clear, C_exit_unlock} then Some Created else None,
      hs_loop = if c \<in> {C_notify, C_unlock, C_enter, C_loop, C_exit_lock, C_clear} then Some lp else None,
      hs_result = if m \<in> {M_unlock, M_done, D_test, D_quit, D_set, D_thread, D_wakeup, D_join, D_end, M_fault}
        then Some lp else None,
      hs_alive = (c \<notin> {C_none, C_tid, C_post, C_ctor, C_end}),
      hs_called = (c \<notin> {C_none, C_tid, C_post, C_ctor, C_callback}),
      hs_quit = q, hs_foreign = f\<rparr>"

definition hs_ok :: "int \<Rightarrow> ptr \<Rightarrow> handshake \<Rightarrow> bool" where
  "hs_ok gettid lp s \<longleftrightarrow> s = shape gettid lp (hs_main s) (hs_child s) (hs_quit s) (hs_foreign s) \<and>
     hs_child s \<in> set (places (hs_main s))"

lemma shape_sel [simp]:
  "hs_main (shape g lp m c q f) = m" "hs_child (shape g lp m c q f) = c"
  "hs_quit (shape g lp m c q f) = q" "hs_foreign (shape g lp m c q f) = f"
  by (simp_all add: shape_def)

lemma hs_ok_shape [simp]: "hs_ok g lp (shape g lp m c q f) \<longleftrightarrow> c \<in> set (places m)"
  by (simp add: hs_ok_def)

lemma hs_okE:
  assumes "hs_ok g lp s"
  obtains m c q f where "s = shape g lp m c q f" "c \<in> set (places m)"
  using assms unfolding hs_ok_def by blast

lemma hs_ok_main:
  assumes "main_step s = Some t" "hs_ok g lp s" "0 < g"
  shows "hs_ok g lp t"
proof -
  obtain m c q f where s: "s = shape g lp m c q f" and c: "c \<in> set (places m)" by (rule hs_okE [OF assms(2)])
  have run: "main_step (shape g lp m c q f) = Some t" using assms(1) s by simp
  show ?thesis
    using c run assms(3)
    by (cases m; clarsimp; (elim disjE)?; clarsimp simp: main_step_def shape_def split: if_splits;
        simp add: hs_ok_def; simp add: shape_def)
qed

lemma hs_ok_child:
  assumes "child_step g lp s = Some t" "hs_ok g lp s"
  shows "hs_ok g lp t"
proof -
  obtain m c q f where s: "s = shape g lp m c q f" and c: "c \<in> set (places m)" by (rule hs_okE [OF assms(2)])
  have run: "child_step g lp (shape g lp m c q f) = Some t" using assms(1) s by simp
  show ?thesis
    using c run
    by (cases m; clarsimp; (elim disjE)?;
        clarsimp simp: child_step_def shape_def current_tid_def cacheTid_def split: if_splits;
        simp add: hs_ok_def; simp add: shape_def)
qed

text \<open>What holds besides as long as nobody but the destructor quits the loop.\<close>

definition owned :: "handshake \<Rightarrow> bool" where
  "owned s \<longleftrightarrow> (\<not> hs_foreign s \<longrightarrow>
     (hs_quit s \<longrightarrow> hs_main s \<in> {D_thread, D_wakeup, D_join, D_end, M_fault}) \<and> (hs_main s = D_end \<longrightarrow> hs_child s = C_end) \<and>
     (hs_child s \<in> {C_exit_lock, C_clear, C_exit_unlock, C_destroy, C_end} \<longrightarrow> hs_quit s) \<and>
     (hs_main s = M_blocked \<longrightarrow> hs_child s \<in> {C_ctor, C_callback, C_lock, C_set, C_notify}) \<and>
     (hs_main s = M_fault \<longrightarrow> hs_child s = C_end))"

lemma owned_main:
  assumes "main_step s = Some t" "hs_ok g lp s" "owned s" "0 < g"
  shows "owned t"
proof -
  obtain m c q f where s: "s = shape g lp m c q f" and c: "c \<in> set (places m)" by (rule hs_okE [OF assms(2)])
  have run: "main_step (shape g lp m c q f) = Some t" and ow: "owned (shape g lp m c q f)"
    using assms(1,3) s by simp_all
  show ?thesis
    using c run ow assms(4)
    by (cases m; clarsimp; (elim disjE)?; clarsimp simp: main_step_def shape_def split: if_splits; simp add: owned_def)
qed

lemma owned_child:
  assumes "child_step g lp s = Some t" "hs_ok g lp s" "owned s"
  shows "owned t"
proof -
  obtain m c q f where s: "s = shape g lp m c q f" and c: "c \<in> set (places m)" by (rule hs_okE [OF assms(2)])
  have run: "child_step g lp (shape g lp m c q f) = Some t" and ow: "owned (shape g lp m c q f)"
    using assms(1,3) s by simp_all
  show ?thesis
    using c run ow
    by (cases m; clarsimp; (elim disjE)?; clarsimp simp: child_step_def shape_def split: if_splits; simp add: owned_def)
qed

lemma hs_ok_other:
  assumes "hs_ok g lp s"
  shows "hs_main s = M_blocked \<Longrightarrow> hs_ok g lp (s\<lparr>hs_main := M_wakeup\<rparr>)"
    and "hs_main s = M_done \<Longrightarrow> hs_ok g lp (s\<lparr>hs_main := D_test\<rparr>)"
    and "hs_ok g lp (s\<lparr>hs_quit := True, hs_foreign := True\<rparr>)"
proof -
  obtain m c q f where s: "s = shape g lp m c q f" and c: "c \<in> set (places m)" by (rule hs_okE [OF assms])
  have "shape g lp M_blocked c q f\<lparr>hs_main := M_wakeup\<rparr> = shape g lp M_wakeup c q f"
    "shape g lp M_done c q f\<lparr>hs_main := D_test\<rparr> = shape g lp D_test c q f"
    "shape g lp m c q f\<lparr>hs_quit := True, hs_foreign := True\<rparr> = shape g lp m c True True"
    by (simp_all add: shape_def)
  then show "hs_main s = M_blocked \<Longrightarrow> hs_ok g lp (s\<lparr>hs_main := M_wakeup\<rparr>)"
    "hs_main s = M_done \<Longrightarrow> hs_ok g lp (s\<lparr>hs_main := D_test\<rparr>)"
    "hs_ok g lp (s\<lparr>hs_quit := True, hs_foreign := True\<rparr>)"
    using c by (auto simp: s)
qed

lemma reachable_ok:
  assumes "hs_reachable g lp s" "0 < g"
  shows "hs_ok g lp s \<and> owned s"
  using assms(1)
proof (induction rule: hs_reachable.induct)
  case init
  have i: "hs_init = shape g lp M_spawn C_none False False" by (simp add: hs_init_def shape_def)
  show ?case unfolding i by (simp add: owned_def)
next
  case (step s t)
  from step.hyps(2) show ?case
  proof (cases rule: hs_step.cases)
    case own
    then show ?thesis
      using step.IH assms(2) by (cases rule: own_step.cases) (auto intro: hs_ok_main hs_ok_child owned_main owned_child)
  next
    case spurious
    then show ?thesis using step.IH hs_ok_other(1) by (auto simp: owned_def)
  next
    case destroy
    then show ?thesis using step.IH hs_ok_other(2) by (auto simp: owned_def)
  next
    case foreign
    then show ?thesis using step.IH hs_ok_other(3) by (simp add: owned_def)
  qed
qed

subsection \<open>Runs\<close>

text \<open>Who moves next, and the state a list of moves leads to: what the step relation allows, to be computed.\<close>

datatype move = Main | Child | Spurious | Destroy | Foreign

fun hs_move :: "int \<Rightarrow> ptr \<Rightarrow> move \<Rightarrow> handshake \<Rightarrow> handshake option" where
  "hs_move gettid lp Main s = main_step s"
| "hs_move gettid lp Child s = child_step gettid lp s"
| "hs_move gettid lp Spurious s = (if hs_main s = M_blocked then Some (s\<lparr>hs_main := M_wakeup\<rparr>) else None)"
| "hs_move gettid lp Destroy s = (if hs_main s = M_done then Some (s\<lparr>hs_main := D_test\<rparr>) else None)"
| "hs_move gettid lp Foreign s = (if hs_alive s then Some (s\<lparr>hs_quit := True, hs_foreign := True\<rparr>) else None)"

fun hs_run :: "int \<Rightarrow> ptr \<Rightarrow> move list \<Rightarrow> handshake \<Rightarrow> handshake option" where
  "hs_run gettid lp [] s = Some s"
| "hs_run gettid lp (m # ms) s =
     (case hs_move gettid lp m s of None \<Rightarrow> None | Some t \<Rightarrow> hs_run gettid lp ms t)"

lemma hs_move_step: "hs_move g lp m s = Some t \<Longrightarrow> hs_step g lp s t"
  by (cases m) (auto intro: hs_step.intros own_step.intros split: if_splits)

lemma hs_run_reachable: "hs_run g lp ms s = Some t \<Longrightarrow> hs_reachable g lp s \<Longrightarrow> hs_reachable g lp t"
proof (induction ms arbitrary: s)
  case (Cons m ms)
  then obtain u where "hs_move g lp m s = Some u" "hs_run g lp ms u = Some t" by (auto split: option.splits)
  then show ?case using Cons.IH Cons.prems(2) hs_reachable.step [OF _ hs_move_step] by blast
qed simp

lemmas hs_run_init = hs_run_reachable [OF _ hs_reachable.init]

lemmas hs_eval = hs_init_def main_step_def child_step_def current_tid_def cacheTid_def

text \<open>The created thread running up to its loop, with the creator waiting for it inside \<open>startLoop\<close>.\<close>

definition started_run :: "move list" where
  "started_run = [Main, Child, Child, Main, Main, Main, Main] @ replicate 6 Child @ [Main, Main, Main, Main]"

lemma started: "0 < g \<Longrightarrow> hs_run g lp started_run hs_init = Some (shape g lp M_done C_enter False False)"
  by (simp add: started_run_def hs_eval numeral_eq_Suc) (simp add: shape_def)

subsection \<open>Properties\<close>

text \<open>The created thread running to its end between the two accesses of the destructor's \<open>quit\<close> to the loop.\<close>

definition overtaken_run :: "move list" where
  "overtaken_run = [Child, Destroy, Main, Main, Main, Child, Child, Child, Child, Child]"

lemma overtaken:
  assumes "0 < g"
  shows "hs_reachable g lp (shape g lp D_thread C_end True False)"
proof -
  have "hs_run g lp overtaken_run (shape g lp M_done C_enter False False) = Some (shape g lp D_thread C_end True False)"
    by (simp add: overtaken_run_def hs_eval shape_def)
  then show ?thesis by (rule hs_run_reachable) (rule hs_run_init [OF started [OF assms]])
qed

text \<open>
  C26: starting and ending a loop's thread. However the two threads interleave, and however often \<open>wait\<close> returns
  for no reason, \<open>startLoop\<close> returns only the address of the new loop, after the initialisation
  callback has been called, with the id of the thread known (so the assertion of \<open>Thread::start\<close> holds).
  As long as nobody else quits the loop it is alive then and about to run or inside \<open>loop()\<close>, and stays so until the
  destructor has set \<open>quit_\<close>; when the destructor has finished the thread has ended and the loop is destroyed.
  The only fault left is inside the destructor's \<open>quit\<close>, after it has set the flag: the thread may see
  the flag, leave \<open>loop()\<close>, destroy the loop and end before \<open>quit\<close> reads \<open>threadId_\<close> or \<open>wakeupFd_\<close> of it. This
  does happen: such a state is reachable with nobody else touching the loop.
\<close>

theorem startLoop_hands_out_live_loop:
  assumes "hs_reachable gettid lp s" "0 < gettid"
  shows "(hs_main s \<in> {M_done, D_test, D_quit, D_set, D_thread, D_wakeup, D_join, D_end} \<longrightarrow>
      hs_result s = Some lp \<and> hs_called s \<and> hs_tid s = gettid) \<and>
    (hs_main s = M_assert \<longrightarrow> 0 < hs_tid s) \<and>
    (\<not> hs_foreign s \<longrightarrow>
      (hs_main s \<in> {M_done, D_test, D_quit, D_set} \<longrightarrow>
         hs_alive s \<and> hs_child s \<in> {C_enter, C_loop} \<and> hs_loop s = Some lp) \<and>
      (hs_main s = D_end \<longrightarrow> hs_child s = C_end \<and> \<not> hs_alive s) \<and>
      (\<forall>t. own_step gettid lp s t \<and> hs_main s \<noteq> M_fault \<and> hs_main t = M_fault \<longrightarrow>
         hs_main s \<in> {D_thread, D_wakeup} \<and> hs_quit s \<and> hs_child s = C_end \<and> \<not> hs_alive s)) \<and>
    (\<exists>u. hs_reachable gettid lp u \<and> \<not> hs_foreign u \<and> hs_main u = D_thread \<and>
       main_step u = Some (u\<lparr>hs_main := M_fault\<rparr>))"
proof -
  obtain m c q f where s: "s = shape gettid lp m c q f" and c: "c \<in> set (places m)" and o: "owned s"
    using reachable_ok [OF assms] hs_okE by blast
  have pc: "hs_main s = m" "hs_child s = c" "hs_quit s = q" "hs_foreign s = f" by (simp_all add: s)
  have safe: "(m \<in> {M_done, D_test, D_quit, D_set, D_thread, D_wakeup, D_join, D_end} \<longrightarrow>
      hs_result s = Some lp \<and> hs_called s \<and> hs_tid s = gettid) \<and> (m = M_assert \<longrightarrow> 0 < hs_tid s) \<and>
    (\<not> f \<longrightarrow> (m \<in> {M_done, D_test, D_quit, D_set} \<longrightarrow>
         hs_alive s \<and> c \<in> {C_enter, C_loop} \<and> hs_loop s = Some lp) \<and> (m = D_end \<longrightarrow> c = C_end \<and> \<not> hs_alive s))"
    using c o assms(2) unfolding s
    by (cases m; clarsimp; (elim disjE)?; clarsimp simp: owned_def; simp add: shape_def)
  have main: "m \<in> {D_thread, D_wakeup} \<and> q \<and> c = C_end \<and> \<not> hs_alive s"
    if "main_step s = Some t" "m \<noteq> M_fault" "hs_main t = M_fault" "\<not> f" for t
    using c o assms(2) that unfolding s
    by (cases m; clarsimp simp: main_step_def split: if_splits; (elim disjE)?;
        clarsimp simp: owned_def; simp add: shape_def)
  have child: "False" if "child_step gettid lp s = Some t" "m \<noteq> M_fault" "hs_main t = M_fault" for t
    using that unfolding s by (auto simp: child_step_def shape_def split: child_pc.splits if_splits)
  have fault: "\<forall>t. own_step gettid lp s t \<and> m \<noteq> M_fault \<and> hs_main t = M_fault \<longrightarrow>
      m \<in> {D_thread, D_wakeup} \<and> q \<and> c = C_end \<and> \<not> hs_alive s" if "\<not> f"
    using main child that by (blast elim: own_stepE)
  let ?u = "shape gettid lp D_thread C_end True False"
  have "main_step ?u = Some (?u\<lparr>hs_main := M_fault\<rparr>)" by (simp add: main_step_def) (simp add: shape_def)
  then have "\<exists>u. hs_reachable gettid lp u \<and> \<not> hs_foreign u \<and> hs_main u = D_thread \<and>
      main_step u = Some (u\<lparr>hs_main := M_fault\<rparr>)"
    using overtaken [OF assms(2)] by (intro exI [of _ ?u]) simp
  with safe fault show ?thesis unfolding pc by blast
qed

theorem startLoop_hands_out_live_loop_witness:
  "(\<exists>s. hs_reachable 42 7 s \<and> hs_main s = M_done \<and> hs_result s = Some 7 \<and> hs_tid s = 42 \<and> hs_alive s \<and>
    hs_loop s = Some 7) \<and>
   (\<exists>u. hs_reachable 42 7 u \<and> \<not> hs_foreign u \<and> main_step u = Some (u\<lparr>hs_main := M_fault\<rparr>))"
proof -
  let ?s = "shape 42 7 M_done C_enter False False"
  have "hs_reachable 42 7 ?s" by (rule hs_run_init [OF started]) simp
  from startLoop_hands_out_live_loop [OF this] 
  have "hs_result ?s = Some 7 \<and> hs_tid ?s = 42 \<and> hs_alive ?s \<and> hs_loop ?s = Some 7"
    and "\<exists>u. hs_reachable 42 7 u \<and> \<not> hs_foreign u \<and> main_step u = Some (u\<lparr>hs_main := M_fault\<rparr>)"
    by (simp_all) blast
  moreover have "hs_main ?s = M_done" by simp
  ultimately show ?thesis using \<open>hs_reachable 42 7 ?s\<close> by blast
qed

text \<open>A bound on the steps the two threads can still make.\<close>

fun main_rank :: "main_pc \<Rightarrow> nat" where
  "main_rank M_spawn = 9" | "main_rank M_sem_wait = 8" | "main_rank M_assert = 7" | "main_rank M_lock = 6"
| "main_rank M_wakeup = 5" | "main_rank M_test = 4" | "main_rank M_blocked = 3" | "main_rank M_read = 2"
| "main_rank M_unlock = 1" | "main_rank M_done = 0" | "main_rank D_test = 6" | "main_rank D_quit = 5"
| "main_rank D_set = 4" | "main_rank D_thread = 3" | "main_rank D_wakeup = 2" | "main_rank D_join = 1" | "main_rank D_end = 0" | "main_rank M_fault = 0"

fun child_rank :: "child_pc \<Rightarrow> nat" where
  "child_rank C_none = 16" | "child_rank C_tid = 15" | "child_rank C_post = 14" | "child_rank C_ctor = 13"
| "child_rank C_callback = 12" | "child_rank C_lock = 11" | "child_rank C_set = 10" | "child_rank C_notify = 9"
| "child_rank C_unlock = 8" | "child_rank C_enter = 7" | "child_rank C_loop = 6" | "child_rank C_exit_lock = 5"
| "child_rank C_clear = 4" | "child_rank C_exit_unlock = 3" | "child_rank C_destroy = 2" | "child_rank C_end = 1"

definition rank :: "handshake \<Rightarrow> nat" where
  "rank s = 10 * child_rank (hs_child s) + main_rank (hs_main s)"

lemma main_step_rank: "main_step s = Some t \<Longrightarrow> hs_main s = M_spawn \<longrightarrow> hs_child s = C_none \<Longrightarrow> rank t < rank s"
  by (cases "hs_main s") (auto simp: main_step_def rank_def split: if_splits)

lemma child_step_rank: "child_step g lp s = Some t \<Longrightarrow> rank t < rank s"
  by (cases "hs_child s") (auto simp: child_step_def rank_def split: if_splits)

text \<open>
  C27: starting and ending a loop's thread terminate. As long as nobody else quits the loop, a
  state in which \<open>startLoop\<close>, or the destructor, has not finished always has a step of one of the two
  threads (no deadlock, no lost notification), with two exceptions, both in the destructor: it waits for a thread
  whose loop has cleared the flag the destructor had set; or its \<open>quit\<close> has used the destroyed loop, and then
  the thread has ended. Every such step lowers a rank that is below 170, so fewer than 170 of them happen between two
  spurious wake-ups.
\<close>

theorem startLoop_terminates:
  assumes "hs_reachable gettid lp s" "0 < gettid" "\<not> hs_foreign s"
  shows "rank s < 170 \<and> (\<forall>t. own_step gettid lp s t \<longrightarrow> rank t < rank s) \<and>
    (hs_main s \<notin> {M_done, D_end} \<longrightarrow>
       (\<exists>t. own_step gettid lp s t) \<or> hs_main s = D_join \<and> hs_child s = C_loop \<and> \<not> hs_quit s \<or>
       hs_main s = M_fault \<and> hs_quit s \<and> hs_child s = C_end)"
proof -
  obtain m c q where s: "s = shape gettid lp m c q False" and c: "c \<in> set (places m)" and o: "owned s"
    using reachable_ok [OF assms(1,2)] assms(3) hs_okE by (metis shape_sel(4))
  have "rank s < 170"
    unfolding s rank_def by (cases m; cases c; simp)
  moreover have "rank t < rank s" if "own_step gettid lp s t" for t
    using that
  proof (cases rule: own_step.cases)
    case main
    then show ?thesis by (rule main_step_rank) (use c s in auto)
  qed (rule child_step_rank)
  moreover have "main_step s \<noteq> None \<or> child_step gettid lp s \<noteq> None"
    if "m \<notin> {M_done, D_end}" "\<not> (m = D_join \<and> c = C_loop \<and> \<not> q)" "\<not> (m = M_fault \<and> q \<and> c = C_end)"
    using c o that unfolding s
    by (cases m; clarsimp; (elim disjE)?; clarsimp simp: owned_def; simp add: main_step_def child_step_def shape_def)
  ultimately show ?thesis by (auto simp: s intro: own_step.intros)
qed

theorem startLoop_terminates_witness:
  "\<exists>s t. hs_reachable 42 7 s \<and> hs_main s = M_blocked \<and> own_step 42 7 s t \<and> rank t < rank s"
proof -
  let ?s = "shape 42 7 M_blocked C_ctor False False"
  have "hs_run 42 7 (take 7 started_run) hs_init = Some ?s"
    by (simp add: started_run_def hs_eval) (simp add: shape_def)
  then have reach: "hs_reachable 42 7 ?s" by (rule hs_run_init)
  then have "(\<forall>t. own_step 42 7 ?s t \<longrightarrow> rank t < rank ?s) \<and> (\<exists>t. own_step 42 7 ?s t)"
    using startLoop_terminates [of 42 7 ?s] by simp
  then obtain t where "own_step 42 7 ?s t" "rank t < rank ?s" by blast
  then show ?thesis using reach by (intro exI [of _ ?s] exI [of _ t]) simp
qed

text \<open>
  C36: the destructor can wait for ever. When the owner destroys the object right after \<open>startLoop\<close>, its
  \<open>quit\<close> can come before the new thread has entered \<open>loop()\<close>, whose first act is to clear the flag: the loop then
  runs on, the destructor is in \<open>join\<close>, and no step of either thread is left, although nobody else
  ever touched the loop.
\<close>

theorem destructor_quit_can_be_lost:
  assumes "0 < gettid"
  shows "\<exists>s. hs_reachable gettid lp s \<and> \<not> hs_foreign s \<and> hs_main s = D_join \<and> hs_child s = C_loop \<and> hs_alive s \<and>
    (\<forall>t. \<not> own_step gettid lp s t)"
proof -
  let ?s = "shape gettid lp D_join C_loop False False"
  have "hs_run gettid lp [Destroy, Main, Main, Main, Main, Main, Child] (shape gettid lp M_done C_enter False False) = Some ?s"
    by (simp add: hs_eval shape_def)
  then have "hs_reachable gettid lp ?s"
    by (rule hs_run_reachable) (rule hs_run_init [OF started [OF assms]])
  moreover have "\<not> own_step gettid lp ?s t" for t
    by (auto simp: main_step_def child_step_def shape_def elim: own_stepE)
  ultimately show ?thesis by (intro exI [of _ ?s]) (simp add: shape_def)
qed

theorem destructor_quit_can_be_lost_witness:
  "\<exists>s. hs_reachable 42 7 s \<and> hs_main s = D_join \<and> (\<forall>t. \<not> own_step 42 7 s t)"
  using destructor_quit_can_be_lost [of 42 7] by auto

text \<open>The created thread having run to its end before the creator, already notified, takes the mutex again.\<close>

lemma ended_early:
  assumes "0 < g"
  shows "hs_run g lp ([Main, Child, Child, Main, Main, Main, Main] @ replicate 7 Child @ [Foreign] @ replicate 5 Child @
    [Main, Main]) hs_init = Some (shape g lp M_blocked C_end True True)"
  using assms by (simp add: hs_eval numeral_eq_Suc) (simp add: shape_def)

text \<open>The loop being quit by somebody else after \<open>startLoop\<close>, and the thread on its way out.\<close>

lemma leaving:
  assumes "hs_run g lp ms (shape g lp M_done C_enter False False) = Some s" "0 < g"
  shows "hs_reachable g lp s"
  using assms by (blast intro: hs_run_reachable hs_run_init started)

text \<open>
  C37: what a \<open>quit\<close> by anybody else does to the handshake. The loop may run and end, and \<open>loop_\<close> be
  cleared again, before the notified creator has the mutex back: \<open>startLoop\<close> then waits for
  a notification that never comes, and only a wake-up without a cause leaves that state and leads back to it.
  \<open>loop_\<close> may be cleared between the destructor's test of it and its use: the destructor calls
  \<open>quit\<close> through a null pointer. And the destructor may find \<open>loop_\<close> cleared and finish without joining while
  the thread still holds the mutex, a member of the object.
\<close>

theorem foreign_quit_breaks_handshake:
  assumes "0 < gettid"
  shows "(\<exists>s. hs_reachable gettid lp s \<and> hs_main s = M_blocked \<and> hs_child s = C_end \<and>
      (\<forall>t. hs_step gettid lp s t \<longrightarrow> hs_run gettid lp [Main, Main] t = Some s)) \<and>
    (\<exists>s. hs_reachable gettid lp s \<and> hs_main s = D_quit \<and> hs_loop s = None \<and>
      main_step s = Some (s\<lparr>hs_main := M_fault\<rparr>)) \<and>
    (\<exists>s. hs_reachable gettid lp s \<and> hs_main s = D_end \<and> hs_mutex s = Some Created)"
proof -
  let ?a = "shape gettid lp M_blocked C_end True True" and ?b = "shape gettid lp D_quit C_exit_unlock True True"
    and ?c = "shape gettid lp D_end C_exit_unlock True True"
  have a: "hs_reachable gettid lp ?a" by (rule hs_run_init [OF ended_early [OF assms]])
  have stuck: "hs_run gettid lp [Main, Main] t = Some ?a" if "hs_step gettid lp ?a t" for t
    using that
    by (cases rule: hs_step.cases)
      (auto simp: main_step_def child_step_def shape_def elim: own_stepE)
  have "hs_run gettid lp [Child, Destroy, Main, Foreign, Child, Child, Child] (shape gettid lp M_done C_enter False False) =
      Some ?b"
    "hs_run gettid lp [Child, Foreign, Child, Child, Child, Destroy, Main] (shape gettid lp M_done C_enter False False) =
      Some ?c"
    by (simp_all add: hs_eval shape_def)
  then have b: "hs_reachable gettid lp ?b" and c: "hs_reachable gettid lp ?c" using leaving assms by blast+
  have "hs_loop ?b = None" "main_step ?b = Some (?b\<lparr>hs_main := M_fault\<rparr>)" "hs_mutex ?c = Some Created"
    by (simp_all add: main_step_def) (simp_all add: shape_def)
  then show ?thesis using a b c stuck by (metis shape_sel(1,2))
qed

theorem foreign_quit_breaks_handshake_witness:
  "\<exists>s. hs_reachable 42 7 s \<and> hs_main s = D_quit \<and> main_step s = Some (s\<lparr>hs_main := M_fault\<rparr>)"
  using foreign_quit_breaks_handshake [of 42 7] by auto

end
