(* ===== verification/Timestamp.thy ===== *)
theory Timestamp
  imports Format "HOL-Library.Signed_Division"
begin

text \<open>
  Time stamps: \<open>src/Timestamp.h\<close> and \<open>src/Timestamp.cc\<close>. \<open>gmtime_r\<close> of the C library is the proleptic
  Gregorian calendar in UTC, computed by cycles of 400, 100, 4 and 1 years; \<open>timegm\<close>, which counts the days
  before a date, is the reference it is proved against.
\<close>

subsection \<open>The calendar\<close>

record tm =
  tm_year :: int
  tm_mon :: int
  tm_mday :: int
  tm_hour :: int
  tm_min :: int
  tm_sec :: int

definition leap_year :: "int \<Rightarrow> bool" where
  "leap_year y \<longleftrightarrow> y mod 4 = 0 \<and> (y mod 100 \<noteq> 0 \<or> y mod 400 = 0)"

definition month_lengths :: "bool \<Rightarrow> int list" where
  "month_lengths leap = [31, if leap then 29 else 28, 31, 30, 31, 30, 31, 31, 30, 31, 30, 31]"

text \<open>Days from 1 January of the year 1 to 1 January of the year \<open>y\<close>, and to the epoch.\<close>

definition days_before_year :: "int \<Rightarrow> int" where
  "days_before_year y = 365 * (y - 1) + (y - 1) div 4 - (y - 1) div 100 + (y - 1) div 400"

definition epoch_day :: int where
  "epoch_day = 719162"

definition timegm :: "tm \<Rightarrow> int" where
  "timegm t = (let y = tm_year t + 1900 in
     86400 * (days_before_year y + sum_list (take (nat (tm_mon t)) (month_lengths (leap_year y))) + tm_mday t - 1 -
       epoch_day) + 3600 * tm_hour t + 60 * tm_min t + tm_sec t)"

text \<open>The year and the day in it, for a day counted from 1 January of the year 1.\<close>

definition year_day :: "int \<Rightarrow> int \<times> int" where
  "year_day d =
     (let n400 = d div 146097; r400 = d mod 146097;
          n100 = min 3 (r400 div 36524); r100 = r400 - 36524 * n100;
          n4 = r100 div 1461; r4 = r100 mod 1461;
          n1 = min 3 (r4 div 365)
      in (400 * n400 + 100 * n100 + 4 * n4 + n1 + 1, r4 - 365 * n1))"

fun month_day :: "int list \<Rightarrow> int \<Rightarrow> int \<times> int" where
  "month_day [] d = (0, d)"
| "month_day (l # ls) d = (if d < l then (0, d) else (let (m, r) = month_day ls (d - l) in (m + 1, r)))"

definition gmtime :: "int \<Rightarrow> tm" where
  "gmtime s =
     (let days = s div 86400; rest = s mod 86400;
          (y, yd) = year_day (days + epoch_day);
          (m, md) = month_day (month_lengths (leap_year y)) yd
      in \<lparr>tm_year = y - 1900, tm_mon = m, tm_mday = md + 1,
          tm_hour = rest div 3600, tm_min = rest mod 3600 div 60, tm_sec = rest mod 60\<rparr>)"

definition valid_tm :: "tm \<Rightarrow> bool" where
  "valid_tm t \<longleftrightarrow> 0 \<le> tm_mon t \<and> tm_mon t < 12 \<and> 1 \<le> tm_mday t \<and>
     tm_mday t \<le> month_lengths (leap_year (tm_year t + 1900)) ! nat (tm_mon t) \<and>
     0 \<le> tm_hour t \<and> tm_hour t < 24 \<and> 0 \<le> tm_min t \<and> tm_min t < 60 \<and> 0 \<le> tm_sec t \<and> tm_sec t < 60"

lemma capped_div:
  fixes q n :: int
  assumes "0 \<le> q" "q \<le> 4 * n" "0 < n"
  shows "0 \<le> min 3 (q div n)" "min 3 (q div n) \<le> 3" "0 \<le> q - n * min 3 (q div n)"
    "q - n * min 3 (q div n) < n \<or> min 3 (q div n) = 3 \<and> q = 4 * n"
proof -
  have d: "q = n * (q div n) + q mod n" "0 \<le> q mod n" "q mod n < n" "0 \<le> q div n"
    using assms by (simp_all add: pos_imp_zdiv_nonneg_iff)
  show "0 \<le> min 3 (q div n)" "min 3 (q div n) \<le> 3" using d(4) by simp_all
  show "0 \<le> q - n * min 3 (q div n)"
    using d(1,2) mult_left_mono [of "min 3 (q div n)" "q div n" n] assms(3) by linarith
  show "q - n * min 3 (q div n) < n \<or> min 3 (q div n) = 3 \<and> q = 4 * n"
  proof (cases "q div n \<le> 3")
    case True
    then have "min 3 (q div n) = q div n" by simp
    then have "q - n * min 3 (q div n) = q mod n" using minus_mult_div_eq_mod [of q n] by simp
    then show ?thesis using d(3) by simp
  next
    case False
    then have "n * 4 \<le> n * (q div n)" using assms(3) by (intro mult_left_mono) auto
    then have "q = 4 * n" using d(1,2) assms(2) by linarith
    then show ?thesis using False by simp
  qed
qed

lemma year_day_correct:
  assumes "year_day d = (y, r)"
  shows "d = days_before_year y + r" "0 \<le> r" "r < (if leap_year y then 366 else 365)"
proof -
  define a where "a = d div 146097"
  define q where "q = d mod 146097"
  define b where "b = min 3 (q div 36524)"
  define p where "p = q - 36524 * b"
  define c where "c = p div 1461"
  define u where "u = p mod 1461"
  define e where "e = min 3 (u div 365)"
  have y: "y = 400 * a + 100 * b + 4 * c + e + 1" and r: "r = u - 365 * e"
    using assms unfolding year_day_def Let_def a_def [symmetric] q_def [symmetric] b_def [symmetric] p_def [symmetric]
      c_def [symmetric] u_def [symmetric] e_def [symmetric] by simp_all
  have q: "0 \<le> q" "q < 146097" and d: "d = 146097 * a + q" by (simp_all add: q_def a_def)
  have b: "0 \<le> b" "b \<le> 3" "0 \<le> p" "p < 36524 \<or> b = 3 \<and> p = 36524"
    using capped_div [of q 36524] q unfolding b_def p_def by auto
  have u: "0 \<le> u" "u < 1461" and p: "p = 1461 * c + u" by (simp_all add: u_def c_def)
  have c: "0 \<le> c" "c \<le> 24" "c = 24 \<Longrightarrow> u < 1460 \<or> b = 3 \<and> u = 1460"
    using b(3,4) p u by linarith+
  have e: "0 \<le> e" "e \<le> 3" "0 \<le> r" "r < 365 \<or> e = 3 \<and> u = 1460 \<and> r = 365"
    using capped_div [of u 365] u unfolding e_def r by auto
  have y4: "(y - 1) div 4 = 100 * a + 25 * b + c"
    by (rule int_div_pos_eq [of _ _ _ e]) (use e(1,2) in \<open>simp_all add: y\<close>)
  have y100: "(y - 1) div 100 = 4 * a + b"
    by (rule int_div_pos_eq [of _ _ _ "4 * c + e"]) (use c(1,2) e(1,2) in \<open>simp_all add: y\<close>)
  have y400: "(y - 1) div 400 = a"
    by (rule int_div_pos_eq [of _ _ _ "100 * b + 4 * c + e"]) (use b(1,2) c(1,2) e(1,2) in \<open>simp_all add: y\<close>)
  show "d = days_before_year y + r"
    unfolding days_before_year_def y4 y100 y400
    using p [unfolded p_def] by (simp add: d y r algebra_simps)
  show "0 \<le> r" by (rule e(3))
  have "leap_year y" if "r = 365"
  proof -
    have "e = 3" "u = 1460" using e(4) that by auto
    then have "c \<noteq> 24 \<or> b = 3" using c(3) by auto
    moreover have "y = 4 * (100 * a + 25 * b + c + 1)" "y = (4 * c + 4) + 100 * (4 * a + b)"
      using \<open>e = 3\<close> unfolding y by simp_all
    then have "y mod 4 = 0" "y mod 100 = (4 * c + 4) mod 100"
      by (metis mod_mult_self1_is_0, metis mod_mult_self2)
    moreover have "(4 * c + 4) mod 100 \<noteq> 0" if "c \<noteq> 24" using c(1,2) that by simp
    moreover have "y = 400 * (a + 1)" if "c = 24" "b = 3" using \<open>e = 3\<close> that unfolding y by simp
    then have "y mod 400 = 0" if "c = 24" "b = 3" using that by (metis mod_mult_self1_is_0)
    ultimately show ?thesis unfolding leap_year_def by (cases "c = 24") auto
  qed
  then show "r < (if leap_year y then 366 else 365)" using e(4) by auto
qed

lemma month_day_correct:
  "month_day ls d = (m, r) \<Longrightarrow> 0 \<le> d \<Longrightarrow> d < sum_list ls \<Longrightarrow>
   0 \<le> m \<and> m < int (length ls) \<and> 0 \<le> r \<and> r < ls ! nat m \<and> d = sum_list (take (nat m) ls) + r"
proof (induction ls arbitrary: d m)
  case (Cons l ls)
  show ?case
  proof (cases "d < l")
    case False
    then obtain m' where m': "month_day ls (d - l) = (m', r)" "m = m' + 1"
      using Cons.prems(1) by (auto split: prod.splits)
    then have "0 \<le> m' \<and> m' < int (length ls) \<and> 0 \<le> r \<and> r < ls ! nat m' \<and> d - l = sum_list (take (nat m') ls) + r"
      using Cons.IH [OF m'(1)] Cons.prems False by simp
    moreover from this have "nat m = Suc (nat m')" using m'(2) by (simp add: nat_add_distrib)
    ultimately show ?thesis using m'(2) by simp
  qed (use Cons.prems in auto)
qed simp

lemma sum_month_lengths: "sum_list (month_lengths leap) = (if leap then 366 else 365)"
  by (simp add: month_lengths_def)

lemma length_month_lengths [simp]: "length (month_lengths leap) = 12"
  by (simp add: month_lengths_def)

lemma hms:
  fixes r :: int
  assumes "0 \<le> r" "r < 86400"
  shows "0 \<le> r div 3600" "r div 3600 < 24" "0 \<le> r mod 3600 div 60" "r mod 3600 div 60 < 60"
    "0 \<le> r mod 60" "r mod 60 < 60" "3600 * (r div 3600) + 60 * (r mod 3600 div 60) + r mod 60 = r"
proof -
  show "0 \<le> r div 3600" "r div 3600 < 24" "0 \<le> r mod 60" "r mod 60 < 60" using assms by auto
  have "r mod 60 = r mod 3600 mod 60" by (simp add: mod_mod_cancel)
  then have "60 * (r mod 3600 div 60) + r mod 60 = r mod 3600" by simp
  then show "3600 * (r div 3600) + 60 * (r mod 3600 div 60) + r mod 60 = r"
    using mult_div_mod_eq [of 3600 r] by linarith
  have "0 \<le> r mod 3600" "r mod 3600 < 3600" by simp_all
  then show "0 \<le> r mod 3600 div 60" "r mod 3600 div 60 < 60" by auto
qed

lemma gmtime_correct: "valid_tm (gmtime s) \<and> timegm (gmtime s) = s"
proof -
  define rest where "rest = s mod 86400"
  obtain y yd where yd: "year_day (s div 86400 + epoch_day) = (y, yd)" by fastforce
  obtain m md where md: "month_day (month_lengths (leap_year y)) yd = (m, md)" by fastforce
  note Y = year_day_correct [OF yd]
  have M: "0 \<le> m" "m < 12" "0 \<le> md" "md < month_lengths (leap_year y) ! nat m"
    "yd = sum_list (take (nat m) (month_lengths (leap_year y))) + md"
    using month_day_correct [OF md Y(2)] Y(3) by (simp_all add: sum_month_lengths)
  have H: "0 \<le> rest" "rest < 86400" by (simp_all add: rest_def)
  obtain h n c where hnc: "rest div 3600 = h" "rest mod 3600 div 60 = n" "rest mod 60 = c" by blast
  note R = hms [OF H, unfolded hnc]
  have g: "gmtime s = \<lparr>tm_year = y - 1900, tm_mon = m, tm_mday = md + 1, tm_hour = h, tm_min = n, tm_sec = c\<rparr>"
    unfolding gmtime_def Let_def yd md prod.case rest_def [symmetric] hnc ..
  have "valid_tm (gmtime s)" using M(1-4) R unfolding g valid_tm_def by simp
  moreover have "timegm (gmtime s) = 86400 * (s div 86400) + rest"
  proof -
    have "timegm (gmtime s) = 86400 * (days_before_year y + sum_list (take (nat m) (month_lengths (leap_year y))) + md - epoch_day) +
        (3600 * h + 60 * n + c)"
      unfolding g timegm_def Let_def by simp
    also have "days_before_year y + sum_list (take (nat m) (month_lengths (leap_year y))) + md = s div 86400 + epoch_day"
      using Y(1) M(5) by simp
    finally show ?thesis using R(7) by simp
  qed
  ultimately show ?thesis by (simp add: rest_def)
qed

subsection \<open>The class\<close>

text \<open>\<open>microSecondsSinceEpoch_\<close>, a 64-bit signed integer.\<close>

type_synonym timestamp = "64 word"

definition kMicroSecondsPerSecond :: int where
  "kMicroSecondsPerSecond = 1000 * 1000"

text \<open>C++ division and remainder truncate toward zero.\<close>

definition ts_seconds :: "timestamp \<Rightarrow> int" where
  "ts_seconds t = sint t sdiv kMicroSecondsPerSecond"

definition ts_micros :: "timestamp \<Rightarrow> int" where
  "ts_micros t = sint t smod kMicroSecondsPerSecond"

text \<open>The conversions \<open>%0wd\<close> and \<open>%wd\<close>.\<close>

definition pad_zero :: "nat \<Rightarrow> int \<Rightarrow> string" where
  "pad_zero w i = (if i < 0 then CHR ''-'' # replicate (w - 1 - length (nat_str (nat (- i)))) (CHR ''0'') @ nat_str (nat (- i))
     else replicate (w - length (nat_str (nat i))) (CHR ''0'') @ nat_str (nat i))"

definition pad_space :: "nat \<Rightarrow> int \<Rightarrow> string" where
  "pad_space w i = replicate (w - length (int_str i)) (CHR '' '') @ int_str i"

definition toString :: "timestamp \<Rightarrow> string" where
  "toString t = snprintf 128 (int_str (ts_seconds t) @ ''.'' @ pad_zero 6 (ts_micros t))"

definition toFormattedString :: "bool \<Rightarrow> timestamp \<Rightarrow> string" where
  "toFormattedString showMicroseconds t =
     (let tm_time = gmtime (ts_seconds t);
          date = pad_space 4 (tm_year tm_time + 1900) @ pad_zero 2 (tm_mon tm_time + 1) @ pad_zero 2 (tm_mday tm_time) @ '' '' @
            pad_zero 2 (tm_hour tm_time) @ '':'' @ pad_zero 2 (tm_min tm_time) @ '':'' @ pad_zero 2 (tm_sec tm_time)
      in if showMicroseconds then snprintf 128 (date @ ''.'' @ pad_zero 6 (ts_micros t)) else snprintf 128 date)"

text \<open>\<open>now\<close>, from the two fields \<open>gettimeofday\<close> stores.\<close>

definition timestamp_now :: "64 word \<Rightarrow> 64 word \<Rightarrow> timestamp" where
  "timestamp_now tv_sec tv_usec = tv_sec * word_of_int kMicroSecondsPerSecond + tv_usec"

subsection \<open>Reading a time stamp back\<close>

definition field :: "string \<Rightarrow> nat \<Rightarrow> nat \<Rightarrow> int" where
  "field s k n = int (str_nat (take n (drop k s)))"

text \<open>The fields of a formatted time by their columns, and the time they stand for by the reference calendar.\<close>

definition read_time :: "string \<Rightarrow> int" where
  "read_time s = timegm \<lparr>tm_year = field s 0 4 - 1900, tm_mon = field s 4 2 - 1, tm_mday = field s 6 2,
     tm_hour = field s 9 2, tm_min = field s 12 2, tm_sec = field s 15 2\<rparr> * 1000000 + field s 18 6"

lemma str_nat_zeros: "str_nat (replicate k (CHR ''0'') @ s) = str_nat s"
  by (induction k) (simp_all add: str_nat_def digit_val_def)

lemma pad_zero_digits:
  assumes "0 \<le> i" "i < 10 ^ w" "0 < w"
  shows "length (pad_zero w i) = w" "str_nat (pad_zero w i) = nat i"
proof -
  have "nat i < 10 ^ w" using assms(1,2) by (simp add: nat_less_iff)
  then have "length (nat_str (nat i)) \<le> w" using length_nat_str assms(3) by blast
  then show "length (pad_zero w i) = w" "str_nat (pad_zero w i) = nat i"
    using assms(1) by (simp_all add: pad_zero_def str_nat_zeros)
qed

lemma length_nat_str_ge: "10 ^ k \<le> n \<Longrightarrow> k < length (nat_str n)"
proof (induction n arbitrary: k rule: nat_str.induct)
  case (1 n)
  show ?case
  proof (cases k)
    case (Suc m)
    then have m: "10 * 10 ^ m \<le> n" using "1.prems" by simp
    moreover have "1 \<le> (10 :: nat) ^ m" by simp
    ultimately have n: "\<not> n < 10" by linarith
    have "10 ^ m \<le> n div 10" using m by (simp add: less_eq_div_iff_mult_less_eq mult.commute)
    then show ?thesis using "1.IH" [OF n] Suc n by (simp add: nat_str.simps [of n])
  qed simp
qed

lemma pad_space_year:
  assumes "1000 \<le> i" "i < 10000"
  shows "length (pad_space 4 i) = 4" "str_nat (pad_space 4 i) = nat i"
proof -
  have "length (nat_str (nat i)) \<le> 4" "3 < length (nat_str (nat i))"
    using assms by (intro length_nat_str length_nat_str_ge; simp)+
  then have "length (nat_str (nat i)) = 4" by linarith
  then show "length (pad_space 4 i) = 4" "str_nat (pad_space 4 i) = nat i"
    using assms by (simp_all add: pad_space_def int_str_def)
qed

lemma days_before_year_mono:
  assumes "y \<le> z"
  shows "days_before_year y + 365 * (z - y) \<le> days_before_year z"
proof -
  define p q where "p = (y - 1) div 4" and "q = (z - 1) div 4"
  have c: "(x - 1) div 100 = (x - 1) div 4 div 25" "(x - 1) div 400 = (x - 1) div 4 div 100" for x :: int
    using zdiv_zmult2_eq [of 25 "x - 1" 4] zdiv_zmult2_eq [of 100 "x - 1" 4] by simp_all
  have le: "p \<le> q" using assms by (simp add: p_def q_def zdiv_mono1)
  then have "q div 25 \<le> (p + 25 * (q - p)) div 25" by (intro zdiv_mono1) auto
  also have "\<dots> = p div 25 + (q - p)" by simp
  finally have "q div 25 \<le> p div 25 + (q - p)" .
  moreover have "p div 100 \<le> q div 100" using le by (rule zdiv_mono1) simp
  ultimately show ?thesis unfolding days_before_year_def c p_def [symmetric] q_def [symmetric] by simp
qed

lemma year_bounds:
  assumes "0 \<le> s" "s < 253402300800"
  shows "1970 \<le> tm_year (gmtime s) + 1900" "tm_year (gmtime s) + 1900 < 10000"
proof -
  define d where "d = s div 86400 + epoch_day"
  obtain y yd where yd: "year_day d = (y, yd)" by fastforce
  then have y: "tm_year (gmtime s) + 1900 = y"
    unfolding gmtime_def d_def Let_def by (simp split: prod.splits)
  have d: "719162 \<le> d" "d < 3652059" using assms by (auto simp: d_def epoch_day_def)
  note Y = year_day_correct [OF yd]
  have "y < 10000"
    using days_before_year_mono [of 10000 y] Y(1,2) d(2) by (cases "10000 \<le> y") (auto simp: days_before_year_def)
  moreover have "1970 \<le> y"
  proof (rule ccontr)
    assume *: "\<not> 1970 \<le> y"
    then have "days_before_year y + 365 * (1970 - y) \<le> 719162"
      using days_before_year_mono [of y 1970] by (simp add: days_before_year_def)
    moreover have "yd < 366" using Y(3) by (simp split: if_splits)
    ultimately have "\<not> y \<le> 1968" using Y(1) d(1) by auto
    then have "y = 1969" using * by simp
    then show False using Y(1,3) d(1) by (simp add: days_before_year_def leap_year_def)
  qed
  ultimately show "1970 \<le> tm_year (gmtime s) + 1900" "tm_year (gmtime s) + 1900 < 10000" unfolding y by simp_all
qed

lemma ts_split:
  assumes "0 \<le> sint t"
  shows "0 \<le> ts_seconds t" "0 \<le> ts_micros t" "ts_micros t < 10 ^ 6" "ts_seconds t * 1000000 + ts_micros t = sint t"
  using assms by ((cases "sint t = 0"; simp add: ts_seconds_def ts_micros_def kMicroSecondsPerSecond_def signed_divide_int_def signed_modulo_int_def)+)

text \<open>
  C39: a formatted time can be read back. For every time stamp from the epoch to the end of the year
  9999 the text is 24 characters long and its columns, read by the Gregorian calendar, give the time stamp
  to the microsecond; so different time stamps have different texts. Without the microseconds
  the text is the first 17 of them.
\<close>

theorem formatted_time_reads_back:
  assumes "0 \<le> sint t" "sint t < 253402300800 * 1000000"
  shows "length (toFormattedString True t) = 24 \<and> read_time (toFormattedString True t) = sint t \<and>
    toFormattedString False t = take 17 (toFormattedString True t)"
proof -
  let ?g = "gmtime (ts_seconds t)"
  note T = ts_split [OF assms(1)]
  have s: "ts_seconds t < 253402300800" using T assms(2) by linarith
  note Y = pad_space_year [OF _ year_bounds(2) [OF T(1) s]]
  have V: "valid_tm ?g" and G: "timegm ?g = ts_seconds t" using gmtime_correct by auto
  have "month_lengths l ! nat m \<le> 31" if "0 \<le> m" "m < 12" for l m
  proof -
    have "month_lengths l ! nat m \<in> set (month_lengths l)" using that by (intro nth_mem) simp
    then show ?thesis by (auto simp: month_lengths_def)
  qed
  then have D: "tm_mday ?g \<le> 31" using V unfolding valid_tm_def by (meson order_trans)
  have P: "length (pad_zero 2 i) = 2 \<and> str_nat (pad_zero 2 i) = nat i" if "0 \<le> i" "i < 100" for i
    using pad_zero_digits [of i 2] that by simp
  define ys ms ds where "ys = pad_space 4 (tm_year ?g + 1900)" and "ms = pad_zero 2 (tm_mon ?g + 1)"
    and "ds = pad_zero 2 (tm_mday ?g)"
  define hs mi ss us where "hs = pad_zero 2 (tm_hour ?g)" and "mi = pad_zero 2 (tm_min ?g)"
    and "ss = pad_zero 2 (tm_sec ?g)" and "us = pad_zero 6 (ts_micros t)"
  note pieces = ys_def ms_def ds_def hs_def mi_def ss_def us_def
  have v: "str_nat ys = nat (tm_year ?g + 1900)" "str_nat ms = nat (tm_mon ?g + 1)" "str_nat ds = nat (tm_mday ?g)"
    "str_nat hs = nat (tm_hour ?g)" "str_nat mi = nat (tm_min ?g)" "str_nat ss = nat (tm_sec ?g)"
    "str_nat us = nat (ts_micros t)"
    and l: "length ys = 4" "length ms = 2" "length ds = 2" "length hs = 2" "length mi = 2" "length ss = 2" "length us = 6"
    unfolding pieces using P D V Y year_bounds(1) [OF T(1) s] pad_zero_digits [OF T(2,3)] by (auto simp: valid_tm_def)
  let ?line = "ys @ ms @ ds @ '' '' @ hs @ '':'' @ mi @ '':'' @ ss"
  have t: "toFormattedString True t = ?line @ ''.'' @ us" "toFormattedString False t = ?line"
    unfolding toFormattedString_def pieces [symmetric] Let_def snprintf_def using l by simp_all
  have "read_time (?line @ ''.'' @ us) = timegm ?g * 1000000 + ts_micros t"
    unfolding read_time_def field_def using l v V T(2) year_bounds(1) [OF T(1) s]
    by (cases ?g) (simp add: valid_tm_def)
  then show ?thesis unfolding t G T(4) using l by simp
qed

theorem formatted_time_reads_back_witness:
  "read_time (toFormattedString True 1700000000123456) = 1700000000123456"
  using formatted_time_reads_back [of 1700000000123456] by simp

end
