(* ===== verification/Logger.thy ===== *)
theory Logger
  imports Timestamp
begin

text \<open>
  The logger: \<open>src/Logger.h\<close> and \<open>src/Logger.cc\<close>. The one object of the process keeps a level, and its
  output is the text written to the standard output. The formatting of a message is the caller's; the macros
  cut it to their buffer.
\<close>

subsection \<open>The class\<close>

definition INFO :: cint where "INFO = 0"
definition ERROR :: cint where "ERROR = 1"
definition FATAL :: cint where "FATAL = 2"
definition DEBUG :: cint where "DEBUG = 3"

lemmas log_levels = INFO_def ERROR_def FATAL_def DEBUG_def

record logger =
  logLevel :: cint
  lg_out :: string

text \<open>The object of \<open>instance()\<close> has static storage, so its level starts as 0.\<close>

definition Logger_instance :: logger where
  "Logger_instance = \<lparr>logLevel = 0, lg_out = []\<rparr>"

definition setLogLevel :: "cint \<Rightarrow> logger \<Rightarrow> logger" where
  "setLogLevel level lg = lg\<lparr>logLevel := level\<rparr>"

definition log_label :: "cint \<Rightarrow> string" where
  "log_label level =
     (if level = INFO then ''[INFO]'' else if level = ERROR then ''[ERROR]'' else if level = FATAL then ''[FATAL]''
      else if level = DEBUG then ''[DEBUG]'' else [])"

definition newline :: string where
  "newline = [char_of (10 :: nat)]"

definition log_write :: "timestamp \<Rightarrow> string \<Rightarrow> logger \<Rightarrow> logger" where
  "log_write now msg lg =
     lg\<lparr>lg_out := lg_out lg @ log_label (logLevel lg) @ toFormattedString True now @ '' : '' @ msg @ newline\<rparr>"

subsection \<open>The macros\<close>

text \<open>\<open>buf\<close> is zeroed and 1024 bytes long; as a \<open>std::string\<close> it ends at the first NUL.\<close>

definition c_str :: "string \<Rightarrow> string" where
  "c_str s = takeWhile (\<lambda>c. c \<noteq> char_of (0 :: nat)) s"

definition LOG :: "cint \<Rightarrow> timestamp \<Rightarrow> string \<Rightarrow> logger \<Rightarrow> logger" where
  "LOG level now msg lg = log_write now (c_str (snprintf 1024 msg)) (setLogLevel level lg)"

definition LOG_INFO :: "timestamp \<Rightarrow> string \<Rightarrow> logger \<Rightarrow> logger" where
  "LOG_INFO = LOG INFO"

definition LOG_ERROR :: "timestamp \<Rightarrow> string \<Rightarrow> logger \<Rightarrow> logger" where
  "LOG_ERROR = LOG ERROR"

text \<open>\<open>exit(-1)\<close> follows the line.\<close>

definition LOG_FATAL :: "timestamp \<Rightarrow> string \<Rightarrow> logger \<Rightarrow> logger \<times> (fault + unit)" where
  "LOG_FATAL now msg lg = (LOG FATAL now msg lg, Inl (FatalExit msg))"

text \<open>\<open>mudebug\<close> says whether \<open>MUDEBUG\<close> is defined.\<close>

definition LOG_DEBUG :: "bool \<Rightarrow> timestamp \<Rightarrow> string \<Rightarrow> logger \<Rightarrow> logger" where
  "LOG_DEBUG mudebug now msg lg = (if mudebug then LOG DEBUG now msg lg else lg)"

text \<open>
  What a macro does to the shared object, as the two steps another thread can come between.
\<close>

datatype log_step = SetLevel cint | Write timestamp string

fun log_exec :: "log_step \<Rightarrow> logger \<Rightarrow> logger" where
  "log_exec (SetLevel l) lg = setLogLevel l lg"
| "log_exec (Write now msg) lg = log_write now (c_str (snprintf 1024 msg)) lg"

definition log_steps :: "cint \<times> timestamp \<times> string \<Rightarrow> log_step list" where
  "log_steps = (\<lambda>(l, now, msg). [SetLevel l, Write now msg])"

definition log_line :: "cint \<Rightarrow> timestamp \<Rightarrow> string \<Rightarrow> string" where
  "log_line level now msg = log_label level @ toFormattedString True now @ '' : '' @ c_str (take 1023 msg) @ newline"

lemma LOG_steps: "LOG l now msg lg = fold log_exec (log_steps (l, now, msg)) lg"
  by (simp add: LOG_def log_steps_def)

lemma lg_out_LOG [simp]: "lg_out (LOG l now msg lg) = lg_out lg @ log_line l now msg"
  by (simp add: LOG_def log_write_def setLogLevel_def log_line_def snprintf_def)

text \<open>
  C40: what the log shows. As long as the macros run one after the other, whatever their order and
  levels, the output is one line per call, in order, with the label of that call's level, its time and at most
  the first 1023 characters of its message. Each macro first sets the level of the shared object and then
  writes, so in some interleavings of two macros of different levels both lines carry the same
  label: an error is reported as information. (Another thread can come between the pieces of one line, too; here
  a line is written as a whole.)
\<close>

theorem log_lines_sequential_and_raced:
  "lg_out (fold log_exec (concat (map log_steps calls)) lg) =
     lg_out lg @ concat (map (\<lambda>(l, now, msg). log_line l now msg) calls) \<and>
   (\<exists>steps \<in> shuffles (log_steps (ERROR, t, m)) (log_steps (INFO, u, n)).
     lg_out (fold log_exec steps lg) = lg_out lg @ log_line INFO t m @ log_line INFO u n) \<and>
   log_line INFO t m \<noteq> log_line ERROR t m"
proof (intro conjI)
  show "lg_out (fold log_exec (concat (map log_steps calls)) lg) =
     lg_out lg @ concat (map (\<lambda>(l, now, msg). log_line l now msg) calls)"
  proof (induction calls arbitrary: lg)
    case (Cons c cs)
    obtain l now msg where c: "c = (l, now, msg)" by (cases c)
    show ?case using Cons.IH [of "LOG l now msg lg"] by (simp add: c LOG_steps [symmetric] fold_append)
  qed simp
next
  let ?s = "[SetLevel ERROR, SetLevel INFO, Write t m, Write u n]"
  have "?s \<in> shuffles (log_steps (ERROR, t, m)) (log_steps (INFO, u, n))"
    by (simp add: log_steps_def Cons_in_shuffles_iff)
  moreover have "lg_out (fold log_exec ?s lg) = lg_out lg @ log_line INFO t m @ log_line INFO u n"
    by (simp add: log_write_def setLogLevel_def log_line_def snprintf_def)
  ultimately show "\<exists>steps \<in> shuffles (log_steps (ERROR, t, m)) (log_steps (INFO, u, n)).
     lg_out (fold log_exec steps lg) = lg_out lg @ log_line INFO t m @ log_line INFO u n" by blast
next
  show "log_line INFO t m \<noteq> log_line ERROR t m" by (simp add: log_line_def log_label_def log_levels)
qed

end
