(* ===== verification/EchoServer.thy ===== *)
theory EchoServer
  imports ServerProps Logger
begin

text \<open>
  The echo server of \<open>src/example/testserver.cc\<close>: the user functions it gives to the library, its
  construction and start, and what a client gets from it.
\<close>

subsection \<open>The program\<close>

text \<open>\<open>onConnection\<close> only writes a log line.\<close>

definition onConnection :: "timestamp \<Rightarrow> tcp_connection \<Rightarrow> logger \<Rightarrow> logger" where
  "onConnection now c lg =
     (if connected c then LOG_INFO now (''Connection UP : '' @ toIpPort (tc_peerAddr c) @ newline) lg
      else LOG_INFO now (''Connection DOWN : '' @ toIpPort (tc_peerAddr c) @ newline) lg)"

text \<open>\<open>onMessage\<close>; \<open>msg\<close> is the address of its local string.\<close>

definition onMessage :: "ptr \<Rightarrow> ptr \<Rightarrow> user_op list" where
  "onMessage msg conn = [TakeInput conn msg, SendString conn msg, ShutdownConnection conn, FreeString msg]"

definition echo_user :: "ptr \<Rightarrow> user_call \<Rightarrow> world \<Rightarrow> user_op list" where
  "echo_user msg x w = (case x of OnMessage n conn t \<Rightarrow> onMessage msg conn | _ \<Rightarrow> [])"

definition EchoServer_ctor ::
    "int \<Rightarrow> int \<Rightarrow> int \<Rightarrow> ptr \<Rightarrow> ptr \<Rightarrow> ptr \<Rightarrow> ptr \<Rightarrow> inet_address \<Rightarrow> string \<Rightarrow> world \<Rightarrow> fault + world" where
  "EchoServer_ctor fd idle bound server acc chan lp addr name w =
     bindE (TcpServer_ctor fd idle bound server acc chan lp addr name kNoReusePort w) (\<lambda>w1.
     bindE (the_server w1 server) (\<lambda>s.
     server_setThreadNum server 3
       (put_server server (server_setMessageCallback (Some (UserMessageCallback 0))
          (server_setConnectionCallback (Some (UserConnectionCallback 0)) s)) w1)))"

definition EchoServer_start ::
    "env \<Rightarrow> (world init_cb \<Rightarrow> string \<Rightarrow> world \<Rightarrow> fault + ptr \<times> world) \<Rightarrow> int \<Rightarrow> ptr \<Rightarrow> world \<Rightarrow> fault + world" where
  "EchoServer_start env spawn_loop ret server w = server_start env spawn_loop ret server w"

text \<open>The function \<open>main\<close> up to \<open>loop.loop()\<close>.\<close>

definition echo_main ::
    "env \<Rightarrow> (string \<Rightarrow> spawn) \<Rightarrow> int \<Rightarrow> int \<Rightarrow> ptr \<Rightarrow> ptr \<Rightarrow> int \<Rightarrow> int \<Rightarrow> int \<Rightarrow> ptr \<Rightarrow> ptr \<Rightarrow> ptr \<Rightarrow> int \<Rightarrow> fault + world" where
  "echo_main env sp epfd evfd lp wchan fd idle bound server acc chan ret =
     bindE (EventLoop_ctor (e_sys env) False epfd evfd None (e_tid env) lp wchan) (\<lambda>(l, ch).
     bindE (EchoServer_ctor fd idle bound server acc chan lp (InetAddress_port 8080 False) ''EchoServer''
              (booted lp l wchan ch))
       (EchoServer_start env (startLoop (e_sys env) sp) ret server))"

text \<open>
  Started, the program is in a state that the steps of \<open>Program\<close> reach: the properties of all runs are properties of the
  echo server. What its three threads are given must be new, and the system's descriptors distinct.
\<close>

lemma echo_main_run:
  assumes k: "kernel (e_sys env)"
    and run: "echo_main env sp epfd evfd lp wchan fd idle bound server acc chan ret = Inr w"
    and new: "chan \<noteq> wchan" "fd \<noteq> evfd"
    and threads: "distinct (map (\<lambda>i. sp_loop (sp (thread_name ''EchoServer'' i))) [0..2])"
      "distinct (map (\<lambda>i. sp_chan (sp (thread_name ''EchoServer'' i))) [0..2])"
      "\<And>i. sp_loop (sp (thread_name ''EchoServer'' i)) \<notin> {0, lp}"
      "\<And>i. sp_chan (sp (thread_name ''EchoServer'' i)) \<notin> {wchan, chan}"
  obtains l and ch :: "callback channel" where
    "EventLoop_ctor (e_sys env) False epfd evfd None (e_tid env) lp wchan = Inr (l, ch)"
    "program_run (resting (booted lp l wchan ch)) {} (resting w)" "w_loops w lp \<noteq> None"
proof -
  obtain l and ch :: "callback channel" and w0 where
    l: "EventLoop_ctor (e_sys env) False epfd evfd None (e_tid env) lp wchan = Inr (l, ch)"
    and c: "EchoServer_ctor fd idle bound server acc chan lp (InetAddress_port 8080 False) ''EchoServer'' (booted lp l wchan ch) =
      Inr w0" "server_start env (startLoop (e_sys env) sp) ret server w0 = Inr w"
    using run by (auto simp: echo_main_def EchoServer_start_def bindE_eq_Inr)
  let ?b = "booted lp l wchan ch"
  have sys: "epoll_kernel (e_sys env)" using k by (simp add: kernel_def)
  have chfd: "ch_fd ch = evfd" by (rule epoll_kernel.EventLoop_ctor_ok(7) [OF sys l])
  let ?ch = "setReadCallback (Acceptor_handleRead acc) (Channel_ctor chan lp fd) :: callback channel"
  obtain w1 s ac ac' where w1: "TcpServer_ctor fd idle bound server acc chan lp (InetAddress_port 8080 False) ''EchoServer'' kNoReusePort ?b = Inr w1"
    "w1 = put_acceptor acc ac' (put_server server s (put_acceptor acc ac (put_chan chan ?ch ?b)))"
    and s: "sv_threadPool s = EventLoopThreadPool_ctor lp ''EchoServer''"
    and w0: "w0 = put_server server (s\<lparr>sv_connectionCallback := Some (UserConnectionCallback 0),
        sv_messageCallback := Some (UserMessageCallback 0), sv_threadPool := setThreadNum 3 (sv_threadPool s)\<rparr>) w1"
    using c(1)
    by (auto simp: EchoServer_ctor_def TcpServer_ctor_def Acceptor_ctor_def createNonblocking_def bindE_eq_Inr the_simps
        server_setThreadNum_def put_server_def put_acceptor_def put_chan_def server_setMessageCallback_def
        server_setConnectionCallback_def split: if_splits)
  let ?s2 = "s\<lparr>sv_connectionCallback := Some (UserConnectionCallback 0)\<rparr>"
  let ?s3 = "?s2\<lparr>sv_messageCallback := Some (UserMessageCallback 0)\<rparr>"
  have ws: "w_servers w1 server = Some s" by (simp add: w1(2) put_server_def put_acceptor_def)
  have cfg: "server_do (SetConnectionCallback (Some (UserConnectionCallback 0))) server w1 = Inr (put_server server ?s2 w1)"
    "server_do (SetMessageCallback (Some (UserMessageCallback 0))) server (put_server server ?s2 w1) = Inr (put_server server ?s3 w1)"
    "server_do (SetThreadNum 3) server (put_server server ?s3 w1) = Inr w0"
    using ws by (simp_all add: the_server_def put_server_def server_setConnectionCallback_def
        server_setMessageCallback_def server_setThreadNum_def w0)
  have "program_step (resting ?b) {} (resting ?b\<lparr>pg_world := w1\<rparr>)"
    using program_step.new_server [of "resting ?b" lp chan server acc fd idle bound] w1(1) new chfd
    by (auto simp: booted_def split: if_splits)
  from program_run_rest [OF program_run.none this]
  have "program_run (resting ?b) {} (resting w1)" .
  note r = program_run_configure [OF this cfg(1)]
  note r = program_run_configure [OF r cfg(2)]
  note r = program_run_configure [OF r cfg(3)]
  have sel: "w_loops w0 = [lp \<mapsto> l]" "w_chans w0 = [wchan \<mapsto> ch, chan \<mapsto> ?ch]"
    by (simp_all add: w0 w1(2) booted_def put_server_def put_acceptor_def put_chan_def)
  obtain sv where sv: "w_servers w0 server = Some sv" "tp_name (sv_threadPool sv) = ''EchoServer''"
    "tp_numThreads (sv_threadPool sv) = 3"
    by (simp add: w0 s put_server_def setThreadNum_def EventLoopThreadPool_ctor_def)
  have "fresh_threads sp (map (thread_name (tp_name (sv_threadPool sv))) [0 .. tp_numThreads (sv_threadPool sv) - 1]) w0"
    using threads unfolding fresh_threads_def sel sv(2,3) by (simp add: comp_def)
  note fresh = this
  with k sv(1) c(2) have step: "program_step (resting w0) {} (resting w0\<lparr>pg_world := w\<rparr>)"
    using program_step.start_server [of env "resting w0" server sv sp ret w] by simp
  have "fine {} {} w0" using program_reachable_ok [OF k l r] by (simp add: resting_ok)
  from kernel.fine_server_start [OF k refl this sv(1) fresh c(2)] have "w_loops w lp \<noteq> None"
    using world_le_loop sel(1) by fastforce
  with that [OF l] show thesis using program_run_rest [OF r step] by blast
qed

text \<open>
  The whole of \<open>main\<close>: the base loop runs on the answers \<open>syss\<close> of the system; \<open>envs\<close> is what each event and functor
  finds around it. The I/O threads are at rest in it; their steps can come anywhere in a run.
\<close>

definition echo_program ::
    "env \<Rightarrow> (string \<Rightarrow> spawn) \<Rightarrow> int \<Rightarrow> int \<Rightarrow> ptr \<Rightarrow> ptr \<Rightarrow> int \<Rightarrow> int \<Rightarrow> int \<Rightarrow> ptr \<Rightarrow> ptr \<Rightarrow> ptr \<Rightarrow> int \<Rightarrow>
     os list \<Rightarrow> (world \<Rightarrow> env) \<Rightarrow> (fault + world) option" where
  "echo_program env sp epfd evfd lp wchan fd idle bound server acc chan ret syss envs =
     (case echo_main env sp epfd evfd lp wchan fd idle bound server acc chan ret of
        Inl e \<Rightarrow> Some (Inl e)
      | Inr w \<Rightarrow> loop syss (loop_at lp) (upd_loop lp) world_set_revents (\<lambda>t x w. dispatch (envs w) t x w)
          (\<lambda>f w. exec (envs w) ret f w) w)"

lemma echo_program_run:
  assumes k: "kernel (e_sys env)" "\<forall>w. kernel (e_sys (envs w)) \<and> fresh_conn (envs w) w" "\<forall>sys \<in> set syss. kernel sys"
    and run: "echo_program env sp epfd evfd lp wchan fd idle bound server acc chan ret syss envs = Some (Inr w)"
    and new: "chan \<noteq> wchan" "fd \<noteq> evfd"
    and threads: "distinct (map (\<lambda>i. sp_loop (sp (thread_name ''EchoServer'' i))) [0..2])"
      "distinct (map (\<lambda>i. sp_chan (sp (thread_name ''EchoServer'' i))) [0..2])"
      "\<And>i. sp_loop (sp (thread_name ''EchoServer'' i)) \<notin> {0, lp}"
      "\<And>i. sp_chan (sp (thread_name ''EchoServer'' i)) \<notin> {wchan, chan}"
  obtains l and ch :: "callback channel" where "program_run (resting (booted lp l wchan ch)) {} (resting w)"
    "program_ok (resting w)"
proof -
  obtain v where v: "echo_main env sp epfd evfd lp wchan fd idle bound server acc chan ret = Inr v"
    and loop: "loop syss (loop_at lp) (upd_loop lp) world_set_revents (\<lambda>t x w. dispatch (envs w) t x w)
      (\<lambda>f w. exec (envs w) ret f w) v = Some (Inr w)"
    using run by (auto simp: echo_program_def split: sum.splits)
  obtain l and ch :: "callback channel" where e: "EventLoop_ctor (e_sys env) False epfd evfd None (e_tid env) lp wchan = Inr (l, ch)"
    and 1: "program_run (resting (booted lp l wchan ch)) {} (resting v)" and lp: "w_loops v lp \<noteq> None"
    using echo_main_run [OF k(1) v new threads] by blast
  have ok: "program_ok (resting v)" by (rule program_reachable_ok [OF k(1) e 1])
  have ev: "runs_events (\<lambda>t x w. dispatch (envs w) t x w)" and ex: "runs_functors (\<lambda>f w. exec (envs w) ret f w)"
    unfolding runs_events_def runs_functors_def using k(2) by blast+
  from loop_steps [OF ev ex k(3) ok lp loop] have "program_run (resting v) {} (resting w)" by blast
  from program_run_trans [OF this 1] have "program_run (resting (booted lp l wchan ch)) {} (resting w)" by simp
  with that show thesis using program_reachable_ok [OF k(1) e] by blast
qed

subsection \<open>What a client gets\<close>

context kernel
begin

lemma echo_read:
  assumes ok: "world_ok w" and c: "w_conns w a = Some c"
    and cb: "messageCallback c = Some (UserMessageCallback k)"
    and rd: "sys_readv sys (sockfd (tc_socket c)) (readFd_iov (inputBuffer c)) = (n, e, bs)" "0 < n"
    and room: "length (storage (inputBuffer c)) + extrabuf_size \<le> vector_max"
    and env: "e_sys env = sys" "e_user env = echo_user msg"
  shows "\<exists>b. buffer_inv b \<and> content b = [] \<and>
    world_ok ((put_conn a (c\<lparr>inputBuffer := b\<rparr>) w)\<lparr>w_strings := (w_strings w)(msg \<mapsto> content (inputBuffer c) @ bs)\<rparr>) \<and>
    handleRead env t a w = run_user sys (e_tid env) [SendString a msg, ShutdownConnection a, FreeString msg]
      ((put_conn a (c\<lparr>inputBuffer := b\<rparr>) w)\<lparr>w_strings := (w_strings w)(msg \<mapsto> content (inputBuffer c) @ bs)\<rparr>)"
proof -
  from attachedE [OF ok c] obtain ch l where at: "attached a c ch l w" "ch_fd ch = sockfd (tc_socket c)"
    and inv: "buffer_inv (inputBuffer c)" "buffer_inv (outputBuffer c)" by blast
  obtain b where b: "readFd sys (sockfd (tc_socket c)) (inputBuffer c) = Inr (n, None, b)" "buffer_inv b"
      "content b = content (inputBuffer c) @ bs"
    using rd room by (cases rule: readFd_result [OF posix_io_axioms inv(1), of "sockfd (tc_socket c)"]) auto
  let ?b' = "retrieve (readableBytes b) b"
  let ?w1 = "put_conn a (c\<lparr>inputBuffer := b\<rparr>) w"
  let ?w2 = "(put_conn a (c\<lparr>inputBuffer := ?b'\<rparr>) w)\<lparr>w_strings := (w_strings w)(msg \<mapsto> content b)\<rparr>"
  have ok1: "world_ok ?w1" using keeps_put_conn [OF ok c, of "c\<lparr>inputBuffer := b\<rparr>"] b(2) inv by simp
  have t: "user_do sys (e_tid env) (TakeInput a msg) ?w1 = Inr ?w2"
    using b(2) by (simp add: the_conn_def put_conn_def retrieveAllAsString_eq)
  have "handleRead env t a w = run_user sys (e_tid env) (onMessage msg a) ?w1"
    using at c b(1) rd(2) cb env
    by (simp add: handleRead_def the_conn_def the_chan_def attached_def Let_def call_messageCallback_def put_conn_def
        call_user_def echo_user_def)
  also have "\<dots> = run_user sys (e_tid env) [SendString a msg, ShutdownConnection a, FreeString msg] ?w2"
    using t by (simp add: onMessage_def)
  finally have run: "handleRead env t a w = run_user sys (e_tid env) [SendString a msg, ShutdownConnection a, FreeString msg] ?w2" .
  have "content ?b' = []" using content_retrieve [OF b(2)] length_content [OF b(2)] by simp
  then show ?thesis
    using run keepsD [OF safe_user_do ok1 t] retrieve_inv [OF b(2)] b(3)
    by (intro exI [of _ ?b']) (simp del: run_user.simps)
qed

text \<open>The rest of \<open>onMessage\<close> on a connection whose input buffer has just been emptied.\<close>

lemma echo_send:
  assumes ok: "world_ok w" and c: "w_conns w a = Some c" "tc_state c = kConnected"
    and l: "w_loops w (tc_loop c) = Some l" "isInLoopThread tid l"
    and s: "w_strings w msg = Some bs" and room: "has_room (length bs) (outputBuffer c)"
    and acc: "\<not> refused sys c bs"
    and shut: "\<not> sk_shut_wr (tc_socket c)" "0 \<le> sys_shutdown sys (sockfd (tc_socket c))"
  shows "\<exists>w' c'. run_user sys tid [SendString a msg, ShutdownConnection a, FreeString msg] w = Inr w' \<and>
    w_conns w' a = Some c' \<and> pipe c' = pipe c @ bs \<and> inputBuffer c' = inputBuffer c \<and>
    tc_state c' = kDisconnecting \<and> sk_shut_wr (tc_socket c') = (content (outputBuffer c') = []) \<and>
    w_strings w' msg = None"
proof -
  let ?len = "of_nat (length bs) :: size_t" and ?s1 = "kernel_took (int (taken sys c bs)) bs (tc_socket c)"
  have max: "length bs \<le> vector_max" by (rule world_okD(5) [OF ok s])
  have "unat ?len = length bs" by (rule unat_of_nat_size) (use vector_max_less [OF max] in simp)
  then have mem: "read_mem msg ?len w = Inr bs" using s by (simp add: read_mem_whole)
  have "has_room (length bs - taken sys c bs) (outputBuffer c) \<or> refused sys c bs"
    using has_room_mono [OF room] by simp
  from sendInLoop_run [OF ok c(1) _ mem this, of tid] c(2) acc obtain b ch l0 l1 and ch1 :: "callback channel" where
    at: "attached a c ch l0 w" and
    r: "sendInLoop sys tid a msg ?len w = Inr (install a (c\<lparr>tc_socket := ?s1, outputBuffer := b\<rparr>) ch1 l1 w)"
      "world_ok (install a (c\<lparr>tc_socket := ?s1, outputBuffer := b\<rparr>) ch1 l1 w)"
      "content b = content (outputBuffer c) @ drop (taken sys c bs) bs" "el_threadId l1 = el_threadId l0"
    unfolding send_result_def by auto
  let ?c3 = "c\<lparr>tc_socket := ?s1, outputBuffer := b\<rparr>"
  let ?w3 = "install a ?c3 ch1 l1 w"
  have th: "isInLoopThread tid l1" using at l r(4) by (simp add: attached_def isInLoopThread_def)
  have send: "send sys tid a msg w = Inr ?w3"
    using c l s r(1) by (simp add: send_def the_conn_def the_loop_def)
  let ?c4 = "if content b = [] then (setState kDisconnecting ?c3)\<lparr>tc_socket := shutdownWrite sys ?s1\<rparr>
     else setState kDisconnecting ?c3"
  have "shutdown sys tid a ?w3 = Inr (put_conn a ?c4 ?w3)"
    using shutdown_in_loop [OF r(2), of a ?c3 l1 tid] c(2) th by simp
  then have run: "run_user sys tid [SendString a msg, ShutdownConnection a, FreeString msg] w =
      Inr ((put_conn a ?c4 ?w3)\<lparr>w_strings := (w_strings w)(msg := None)\<rparr>)"
    using send by (simp add: put_conn_def)
  have k: "sk_shut_wr ?s1 = sk_shut_wr (tc_socket c)" "sockfd ?s1 = sockfd (tc_socket c)"
    "sk_sent ?s1 = sk_sent (tc_socket c) @ take (taken sys c bs) bs"
    by (simp_all add: kernel_took_def)
  have e: "content (outputBuffer c) = [] \<or> taken sys c bs = 0" by (simp add: taken_def)
  have "pipe ?c4 = pipe c @ bs"
    using r(3) k(3) e by (auto simp: pipe_def setState_def shutdownWrite_def)
  moreover have "sk_shut_wr (tc_socket ?c4) = (content (outputBuffer ?c4) = [])"
    using k shut by (simp add: setState_def shutdownWrite_def)
  moreover have "inputBuffer ?c4 = inputBuffer c" "tc_state ?c4 = kDisconnecting" by (simp_all add: setState_def)
  ultimately show ?thesis
    using run
    by (intro exI [of _ "(put_conn a ?c4 ?w3)\<lparr>w_strings := (w_strings w)(msg := None)\<rparr>"] exI [of _ ?c4])
      (simp add: put_conn_def)
qed

end

text \<open>
  C9: the echo server answers, once. When a read event of a connected client delivers bytes, on the
  loop's thread, everything readable (what was left in the input buffer and the new bytes) is accepted for
  sending, in order and once; the input buffer is empty and the local string gone; the
  connection is on its way down and its write side is closed at once exactly when everything has gone out. On a
  connection that is no longer connected what is received is dropped and nothing else happens. Either way
  the world stays consistent.
\<close>

theorem echo_answers_once:
  assumes "kernel (e_sys env)" and "e_user env = echo_user msg" and "world_ok w" and "w_conns w a = Some c"
    and "messageCallback c = Some (UserMessageCallback k)"
    and "sys_readv (e_sys env) (sockfd (tc_socket c)) (readFd_iov (inputBuffer c)) = (n, e, bs)" and "0 < n"
    and "length (storage (inputBuffer c)) + extrabuf_size \<le> vector_max"
    and "w_loops w (tc_loop c) = Some l" and "isInLoopThread (e_tid env) l"
    and "has_room (length (content (inputBuffer c) @ bs)) (outputBuffer c)"
    and "\<not> refused (e_sys env) c (content (inputBuffer c) @ bs)"
    and "\<not> sk_shut_wr (tc_socket c)" and "0 \<le> sys_shutdown (e_sys env) (sockfd (tc_socket c))"
  shows "\<exists>w' c'. handleRead env t a w = Inr w' \<and> world_ok w' \<and> w_conns w' a = Some c' \<and>
    content (inputBuffer c') = [] \<and> w_strings w' msg = None \<and>
    (if tc_state c = kConnected
     then pipe c' = pipe c @ content (inputBuffer c) @ bs \<and> tc_state c' = kDisconnecting \<and>
       sk_shut_wr (tc_socket c') = (content (outputBuffer c') = [])
     else \<exists>b. c' = c\<lparr>inputBuffer := b\<rparr>)"
proof -
  let ?bs = "content (inputBuffer c) @ bs"
  from kernel.echo_read [OF assms(1,3-8) refl assms(2), of t] obtain b where
    b: "content b = []" "world_ok ((put_conn a (c\<lparr>inputBuffer := b\<rparr>) w)\<lparr>w_strings := (w_strings w)(msg \<mapsto> ?bs)\<rparr>)"
      "handleRead env t a w = run_user (e_sys env) (e_tid env) [SendString a msg, ShutdownConnection a, FreeString msg]
        ((put_conn a (c\<lparr>inputBuffer := b\<rparr>) w)\<lparr>w_strings := (w_strings w)(msg \<mapsto> ?bs)\<rparr>)" by blast
  let ?c2 = "c\<lparr>inputBuffer := b\<rparr>" and ?w2 = "(put_conn a (c\<lparr>inputBuffer := b\<rparr>) w)\<lparr>w_strings := (w_strings w)(msg \<mapsto> ?bs)\<rparr>"
  have good: "world_ok w'" if "handleRead env t a w = Inr w'" for w'
    using keepsD [OF kernel.safe_handleRead [OF assms(1) refl] assms(3) that] by blast
  have w2: "w_conns ?w2 a = Some ?c2" "w_loops ?w2 (tc_loop ?c2) = Some l" "w_strings ?w2 msg = Some ?bs"
    using assms(9) by (simp_all add: put_conn_def)
  have "refused (e_sys env) ?c2 ?bs = refused (e_sys env) c ?bs" "pipe ?c2 = pipe c"
    by (simp_all add: refused_def pipe_def)
  note same = this
  show ?thesis
  proof (cases "tc_state c = kConnected")
    case True
    then have st: "tc_state ?c2 = kConnected" by simp
    have "\<exists>w' c'. run_user (e_sys env) (e_tid env) [SendString a msg, ShutdownConnection a, FreeString msg] ?w2 = Inr w' \<and>
      w_conns w' a = Some c' \<and> pipe c' = pipe ?c2 @ ?bs \<and> inputBuffer c' = inputBuffer ?c2 \<and>
      tc_state c' = kDisconnecting \<and> sk_shut_wr (tc_socket c') = (content (outputBuffer c') = []) \<and>
      w_strings w' msg = None"
      by (rule kernel.echo_send [OF assms(1) b(2) w2(1) st w2(2) assms(10) w2(3)])
        (use assms(11-14) same in simp_all)
    then show ?thesis using True good b(1,3) same by (auto simp del: run_user.simps)
  next
    case False
    then have "handleRead env t a w = Inr (?w2\<lparr>w_strings := (w_strings w)(msg := None)\<rparr>)"
      unfolding b(3) using w2(1) by (simp add: send_def shutdown_def the_conn_def)
    then show ?thesis
      using False good b(1) by (intro exI [of _ "?w2\<lparr>w_strings := (w_strings w)(msg := None)\<rparr>"] exI [of _ ?c2])
        (auto simp: put_conn_def)
  qed
qed

text \<open>A client of the demonstration world has sent two bytes; the kernel takes one byte at a time.\<close>

theorem echo_answers_once_witness:
  "\<exists>env w w' c'. handleRead env 0 20 w = Inr w' \<and> w_conns w' 20 = Some c' \<and> pipe c' = [104, 105] \<and>
     tc_state c' = kDisconnecting"
proof -
  let ?env = "(demo_env 1)\<lparr>e_sys := os_with 1 [104, 105] [], e_user := echo_user 60\<rparr>"
  let ?c = "(demo_conn kConnected [])\<lparr>messageCallback := Some (UserMessageCallback 0)\<rparr>"
  let ?w = "put_conn 20 ?c (demo_world kConnected [])"
  note b = demo_buffer_ok [of "[]"]
  have k: "kernel (e_sys ?env)" by (simp add: os_with_kernel.kernel_axioms)
  have u: "e_user ?env = echo_user 60" by simp
  have "world_ok (demo_world kConnected [])" by (rule demo_world_ok) simp_all
  then have ok: "world_ok ?w"
    by (rule put_conn_upto [OF _ demo_world_sel(1)]) (use b in \<open>simp_all add: demo_conn_def\<close>)
  have c: "w_conns ?w 20 = Some ?c" "messageCallback ?c = Some (UserMessageCallback 0)" by (simp_all add: put_conn_def)
  have in_out: "inputBuffer ?c = demo_buffer []" "outputBuffer ?c = demo_buffer []" by (simp_all add: demo_conn_def)
  have "unat (writableBytes (demo_buffer [])) = 16"
    by (simp add: writableBytes_def buffer_size_def demo_buffer_def)
  then have rd: "sys_readv (e_sys ?env) (sockfd (tc_socket ?c)) (readFd_iov (inputBuffer ?c)) = (2, EAGAIN, [104, 105])"
    unfolding in_out by (simp add: readFd_iov_def os_with_def extrabuf_size_def)
  have room: "length (storage (inputBuffer ?c)) + extrabuf_size \<le> vector_max"
    unfolding in_out by (simp add: demo_buffer_def extrabuf_size_def vector_max_def)
  have l: "w_loops ?w (tc_loop ?c) = Some (demo_eventloop [])" "isInLoopThread (e_tid ?env) (demo_eventloop [])"
    by (simp_all add: put_conn_def demo_world_sel demo_conn_sel isInLoopThread_def demo_loop_sel)
  have rest: "has_room (length (content (inputBuffer ?c) @ [104, 105])) (outputBuffer ?c)"
    "\<not> refused (e_sys ?env) ?c (content (inputBuffer ?c) @ [104, 105])"
    using has_room_mono [OF b(3), of 2] b(2) unfolding in_out
    by (simp add: numeral_2_eq_2) (simp add: refused_def os_with_def)
  have sk: "\<not> sk_shut_wr (tc_socket ?c)" "0 \<le> sys_shutdown (e_sys ?env) (sockfd (tc_socket ?c))"
    by (simp_all add: demo_conn_sel) (simp add: os_with_def)
  have s: "pipe ?c = []" "content (inputBuffer ?c) = []" "tc_state ?c = kConnected"
    using b(2) by (simp_all add: pipe_def demo_conn_def Socket_ctor_def)
  from echo_answers_once [OF k u ok c rd _ room l rest sk, of 0] s show ?thesis by fastforce
qed

end
