(* ===== verification/Refusals.thy ===== *)
theory Refusals
  imports Program
begin

text \<open>
  A kernel that may refuse. \<open>epoll_ctl(2)\<close> may fail to add or change a registration although its arguments are
  right (\<open>ENOMEM\<close>, \<open>ENOSPC\<close>); \<open>EPollPoller::update\<close> then ends the process with \<open>LOG_FATAL\<close>. The locale
  \<open>kernel\<close> leaves this out. Here it is shown that nothing else changes: an operation on a system that may refuse
  either ends there, or does exactly what it does on the system that never refuses.
\<close>

subsection \<open>Systems that may refuse a registration\<close>

definition patient :: "os \<Rightarrow> os" where
  "patient sys = sys\<lparr>sys_epoll_ctl := epoll_man\<rparr>"

locale refusing_kernel =
  fixes sys :: os
  assumes patient_kernel: "kernel (patient sys)"
    and answers_or_refuses: "sys_epoll_ctl sys k op fd ev = epoll_man k op fd ev \<or>
      op \<noteq> EPOLL_CTL_DEL \<and> (\<exists>err. sys_epoll_ctl sys k op fd ev = Inl err)"

text \<open>Some registration that \<open>epoll_ctl(2)\<close> would make is refused.\<close>

definition refuses :: "os \<Rightarrow> bool" where
  "refuses sys \<longleftrightarrow> (\<exists>k op fd ev err k'. op \<noteq> EPOLL_CTL_DEL \<and> sys_epoll_ctl sys k op fd ev = Inl err \<and>
     epoll_man k op fd ev = Inr k')"

context epoll_kernel
begin

lemma ctl_man: "sys_epoll_ctl sys k op fd ev = epoll_man k op fd ev"
  by (cases op; cases "k fd") (simp_all add: epoll_man_def ctl_add ctl_add_exists ctl_mod ctl_mod_absent ctl_del ctl_del_absent)

lemma patient_same: "patient sys = sys"
  using ctl_man by (cases sys) (simp add: patient_def fun_eq_iff)

end

sublocale kernel \<subseteq> refusing_kernel sys
  by (rule refusing_kernel.intro) (use patient_same kernel_axioms ctl_man in simp_all)

context kernel
begin

lemma may_refuse: "refusing_kernel sys"
  by (rule refusing_kernel_axioms)

end

text \<open>The concrete system, short of memory when the descriptor \<open>fd\<close> is to be registered.\<close>

definition os_short :: "nat \<Rightarrow> byte list \<Rightarrow> (int \<times> cint) list \<Rightarrow> int \<Rightarrow> os" where
  "os_short cap inp ready bad = (os_with cap inp ready)\<lparr>sys_epoll_ctl := (\<lambda>k op fd ev.
     if op = EPOLL_CTL_ADD \<and> fd = bad then Inl ENOMEM else epoll_man k op fd ev)\<rparr>"

interpretation os_short: refusing_kernel "os_short cap inp ready bad" for cap inp ready bad
proof (rule refusing_kernel.intro)
  have "patient (os_short cap inp ready bad) = os_with cap inp ready"
    by (simp add: patient_def os_short_def os_with_def)
  then show "kernel (patient (os_short cap inp ready bad))" using os_with_kernel.kernel_axioms by simp
qed (simp add: os_short_def)

subsection \<open>One result falling short of another\<close>

definition short_of :: "os \<Rightarrow> fault + 'a \<Rightarrow> fault + 'a \<Rightarrow> bool" where
  "short_of sys r r' \<longleftrightarrow> r = r' \<or> refuses sys \<and> r = Inl (FatalExit ''epoll_ctl'')"

named_theorems short \<open>operations on a system that may refuse, against the one that never does\<close>

lemma short_refl [short]: "short_of sys r r"
  by (simp add: short_of_def)

lemma short_bind [short]:
  "short_of sys f f' \<Longrightarrow> (\<And>x. short_of sys (g x) (g' x)) \<Longrightarrow> short_of sys (bindE f g) (bindE f' g')"
  unfolding short_of_def by (cases f'; cases f) (metis bindE_simps)+

lemma short_if [short]:
  "(b \<Longrightarrow> short_of sys f f') \<Longrightarrow> (\<not> b \<Longrightarrow> short_of sys g g') \<Longrightarrow> short_of sys (if b then f else g) (if b then f' else g')"
  by simp

lemma short_prod [short]:
  "(\<And>a b. short_of sys (f a b) (g a b)) \<Longrightarrow> short_of sys (case x of (a, b) \<Rightarrow> f a b) (case x of (a, b) \<Rightarrow> g a b)"
  by (simp split: prod.split)

lemma short_option [short]:
  "short_of sys f f' \<Longrightarrow> (\<And>a. short_of sys (g a) (g' a)) \<Longrightarrow>
     short_of sys (case x of None \<Rightarrow> f | Some a \<Rightarrow> g a) (case x of None \<Rightarrow> f' | Some a \<Rightarrow> g' a)"
  by (simp split: option.split)

lemma short_let [short]: "(\<And>a. short_of sys (f a) (g a)) \<Longrightarrow> short_of sys (Let x f) (Let x g)"
  by simp

lemma patient_sel [simp]:
  "sys_write (patient sys) = sys_write sys" "sys_readv (patient sys) = sys_readv sys"
  "sys_evwrite (patient sys) = sys_evwrite sys" "sys_evread (patient sys) = sys_evread sys"
  "sys_shutdown (patient sys) = sys_shutdown sys" "sys_epoll_ctl (patient sys) = epoll_man"
  by (simp_all add: patient_def)

text \<open>What does not register is the same.\<close>

lemma patient_same_ops [simp]:
  "wakeup (patient sys) l = wakeup sys l" "queueInLoop (patient sys) tid f l = queueInLoop sys tid f l"
  "quit (patient sys) tid l = quit sys tid l" "loop_handleRead (patient sys) l = loop_handleRead sys l"
  "shutdownWrite (patient sys) s = shutdownWrite sys s" "readFd (patient sys) fd b = readFd sys fd b"
  "writeFd (patient sys) fd b = writeFd sys fd b"
  by (simp_all add: wakeup_def queueInLoop_def quit_def loop_handleRead_def shutdownWrite_def readFd_def writeFd_def Let_def)

lemma patient_same_calls [simp]:
  "queue_call (patient sys) tid lp f w = queue_call sys tid lp f w"
  "shutdownInLoop (patient sys) a w = shutdownInLoop sys a w"
  unfolding queue_call_def upd_loop_def shutdownInLoop_def patient_same_ops by (rule refl)+

lemma patient_same_users [simp]:
  "removeConnectionInLoop (patient sys) tid s a w = removeConnectionInLoop sys tid s a w"
  "send_direct (patient sys) tid a p len w = send_direct sys tid a p len w"
  unfolding removeConnectionInLoop_def send_direct_def patient_same_calls patient_sel by (rule refl)+

subsection \<open>Every operation\<close>

context refusing_kernel
begin

lemma short_update [short]: "short_of sys (poller_update sys op c p) (poller_update (patient sys) op c p)"
  using answers_or_refuses [of "pl_interest p" op "ch_fd c" "\<lparr>ev_events = ch_events c, ev_ptr = ch_addr c\<rparr>"]
  by (cases "epoll_man (pl_interest p) op (ch_fd c) \<lparr>ev_events = ch_events c, ev_ptr = ch_addr c\<rparr>")
    (fastforce simp: poller_update_def short_of_def refuses_def)+

lemma short_updateChannel [short]: "short_of sys (channel_update sys c p) (channel_update (patient sys) c p)"
  unfolding channel_update_def loop_updateChannel_def poller_updateChannel_def by (intro short)

lemma short_removeChannel [short]: "short_of sys (channel_remove sys c p) (channel_remove (patient sys) c p)"
  unfolding channel_remove_def loop_removeChannel_def poller_removeChannel_def by (intro short)

lemma short_chan_do [short]: "short_of sys (chan_do sys op c p) (chan_do (patient sys) op c p)"
  by (cases op) (simp_all add: enableReading_def disableReading_def enableWriting_def disableWriting_def disableAll_def short)

lemma short_chan_call [short]: "short_of sys (chan_call sys op x w) (chan_call (patient sys) op x w)"
  unfolding chan_call_def by (intro short)

lemma short_run_call [short]:
  "(\<And>w. short_of sys (ex f w) (ex' f w)) \<Longrightarrow> short_of sys (run_call sys tid lp ex f w) (run_call (patient sys) tid lp ex' f w)"
  unfolding run_call_def runInLoop_def by (intro short) (simp_all add: upd_loop_def short)

lemma short_sendInLoop [short]:
  "short_of sys (sendInLoop sys tid a p len w) (sendInLoop (patient sys) tid a p len w)"
  unfolding sendInLoop_def send_rest_def patient_same_calls patient_same_users by (intro short)

lemma short_send [short]: "short_of sys (send sys tid a p w) (send (patient sys) tid a p w)"
  unfolding send_def by (intro short)

lemma short_shutdown [short]: "short_of sys (shutdown sys tid a w) (shutdown (patient sys) tid a w)"
  unfolding shutdown_def by (intro short) (simp add: short)

lemma short_user_do [short]: "short_of sys (user_do sys tid x w) (user_do (patient sys) tid x w)"
  by (cases x) (simp_all add: short upd_loop_def)

lemma short_run_user [short]: "short_of sys (run_user sys tid xs w) (run_user (patient sys) tid xs w)"
  by (induction xs arbitrary: w) (simp_all add: short)

lemma short_removeConnection [short]:
  "short_of sys (removeConnection sys tid s a w) (removeConnection (patient sys) tid s a w)"
  unfolding removeConnection_def by (intro short) (simp add: short)

lemma short_closeCallback [short]:
  "short_of sys (call_closeCallback sys tid a w) (call_closeCallback (patient sys) tid a w)"
  unfolding call_closeCallback_def by (intro short)

lemma short_acceptor_listen [short]:
  "short_of sys (acceptor_listen sys ret a w) (acceptor_listen (patient sys) ret a w)"
  unfolding acceptor_listen_def by (intro short)

end

text \<open>The same environment on the system that never refuses.\<close>

definition settled :: "env \<Rightarrow> env" where
  "settled env = env\<lparr>e_sys := patient (e_sys env)\<rparr>"

lemma settled_sel [simp]:
  "e_sys (settled env) = patient (e_sys env)" "e_tid (settled env) = e_tid env" "e_user (settled env) = e_user env"
  "e_accept (settled env) = e_accept env" "e_sockname (settled env) = e_sockname env" "e_new (settled env) = e_new env"
  by (simp_all add: settled_def)

lemma settled_twice [simp]: "settled (settled env) = settled env"
  by (simp add: settled_def patient_def)

lemma settled_fresh [simp]: "fresh_conn (settled env) w = fresh_conn env w"
  by (simp add: fresh_conn_def)

context refusing_kernel
begin

lemma short_call_user:
  "e_sys env = sys \<Longrightarrow> short_of sys (call_user env x w) (call_user (settled env) x w)"
  by (simp add: call_user_def short)

lemma short_connectionCallback:
  "e_sys env = sys \<Longrightarrow> short_of sys (call_connectionCallback env a w) (call_connectionCallback (settled env) a w)"
  unfolding call_connectionCallback_def by (intro short) (simp add: short short_call_user split: connection_cb.split)

lemma short_messageCallback:
  "e_sys env = sys \<Longrightarrow> short_of sys (call_messageCallback env a t w) (call_messageCallback (settled env) a t w)"
  unfolding call_messageCallback_def by (intro short) (simp add: short short_call_user split: message_cb.split)

lemma short_handleClose: "e_sys env = sys \<Longrightarrow> short_of sys (handleClose env a w) (handleClose (settled env) a w)"
  unfolding handleClose_def by (intro short) (simp_all add: short short_connectionCallback)

lemma short_handleRead: "e_sys env = sys \<Longrightarrow> short_of sys (handleRead env t a w) (handleRead (settled env) t a w)"
  unfolding handleRead_def settled_sel patient_same_ops
  by (intro short) (simp_all add: short_messageCallback short_handleClose)

lemma short_handleWrite: "e_sys env = sys \<Longrightarrow> short_of sys (handleWrite env a w) (handleWrite (settled env) a w)"
  unfolding handleWrite_def settled_sel patient_same_ops patient_same_calls
  by (intro short) (simp_all add: short)

lemma short_connectEstablished:
  "e_sys env = sys \<Longrightarrow> short_of sys (connectEstablished env a w) (connectEstablished (settled env) a w)"
  unfolding connectEstablished_def by (intro short) (simp_all add: short short_connectionCallback)

lemma short_connectDestroyed:
  "e_sys env = sys \<Longrightarrow> short_of sys (connectDestroyed env a w) (connectDestroyed (settled env) a w)"
  unfolding connectDestroyed_def by (intro short) (simp_all add: short short_connectionCallback)

lemma short_newConnection:
  "e_sys env = sys \<Longrightarrow> short_of sys (newConnection env s fd peer w) (newConnection (settled env) s fd peer w)"
  unfolding newConnection_def settled_sel by (intro short) (simp_all add: short short_connectEstablished)

lemma short_acceptor_handleRead:
  "e_sys env = sys \<Longrightarrow> short_of sys (acceptor_handleRead env p w) (acceptor_handleRead (settled env) p w)"
  unfolding acceptor_handleRead_def settled_sel by (intro short) (rule short_newConnection)

lemma short_run_callback:
  "e_sys env = sys \<Longrightarrow> short_of sys (run_callback env t cb w) (run_callback (settled env) t cb w)"
  by (cases cb) (simp_all add: short upd_loop_def short_handleRead short_handleWrite short_handleClose short_acceptor_handleRead)

lemma short_dispatch:
  assumes "e_sys env = sys"
  shows "short_of sys (dispatch env t x w) (dispatch (settled env) t x w)"
proof -
  have call: "short_of sys (call_if b (run_callback env t) cb v) (call_if b (run_callback (settled env) t) cb v)" for b cb v
    unfolding call_if_def by (intro short short_run_callback assms)
  show ?thesis
    unfolding dispatch_def handleEvent_def handleEventWithGuard_def by (intro short call)
qed

lemma short_exec:
  assumes "e_sys env = sys"
  shows "short_of sys (exec env ret f w) (exec (settled env) ret f w)"
  by (cases f) (simp_all add: assms short short_connectEstablished short_connectDestroyed short_call_user)

end

text \<open>What returns on a system that may refuse is what the system that never refuses makes of it.\<close>

lemma short_Inr: "short_of sys r r' \<Longrightarrow> r = Inr x \<Longrightarrow> r' = Inr x"
  by (auto simp: short_of_def)

lemma short_Inl: "short_of sys r r' \<Longrightarrow> r = Inl e \<Longrightarrow> r' = Inl e \<or> refuses sys \<and> e = FatalExit ''epoll_ctl''"
  by (auto simp: short_of_def)

end
