(* ===== verification/Faults.thy ===== *)
theory Faults
  imports EchoServer Threaded Refusals
begin

text \<open>
  What can go wrong. The other theories say what an operation does when it returns; this one says when it does
  not: in a state that the program can reach, an event handler, or a functor that owns its connection, ends with
  one of a few listed faults. There is no other failed assertion, no other call of an empty \<open>std::function\<close>
  and no other pointer to an object that is gone.
\<close>

subsection \<open>Operations with a bounded set of faults\<close>

definition fails_only :: "(world \<Rightarrow> bool) \<Rightarrow> (fault \<Rightarrow> bool) \<Rightarrow> (world \<Rightarrow> fault + world) \<Rightarrow> bool" where
  "fails_only P E f \<longleftrightarrow> (\<forall>w e. P w \<longrightarrow> f w = Inl e \<longrightarrow> E e)"

lemma fails_onlyI: "(\<And>w e. P w \<Longrightarrow> f w = Inl e \<Longrightarrow> E e) \<Longrightarrow> fails_only P E f"
  by (simp add: fails_only_def)

lemma fails_onlyD: "fails_only P E f \<Longrightarrow> P w \<Longrightarrow> f w = Inl e \<Longrightarrow> E e"
  by (simp add: fails_only_def)

lemma fails_only_mono: "fails_only P E f \<Longrightarrow> (\<And>w. Q w \<Longrightarrow> P w) \<Longrightarrow> (\<And>e. E e \<Longrightarrow> F e) \<Longrightarrow> fails_only Q F f"
  unfolding fails_only_def by blast

lemma fails_only_bind:
  "fails_only P E f \<Longrightarrow> keeps P le f \<Longrightarrow> fails_only P E g \<Longrightarrow> fails_only P E (\<lambda>w. bindE (f w) g)"
  unfolding fails_only_def keeps_def bindE_eq_Inl by blast

text \<open>The only exception of the standard library that the code can meet.\<close>

definition out_of_room :: "fault \<Rightarrow> bool" where
  "out_of_room e \<longleftrightarrow> (\<exists>m. e = LengthError m)"

lemma out_of_roomI [simp]: "out_of_room (LengthError m)"
  by (simp add: out_of_room_def)

text \<open>
  User code that makes no mistake of its own: called in a consistent world with the connection it is given, its
  calls fail for want of room only.
\<close>

fun subject :: "user_call \<Rightarrow> ptr option" where
  "subject (OnConnection n a) = Some a"
| "subject (OnMessage n a t) = Some a"
| "subject (OnWriteComplete n a) = Some a"
| "subject (OnHighWaterMark n a k) = Some a"
| "subject (OnFunctor n) = None"
| "subject (OnThreadInit n lp) = None"

definition careful :: "env \<Rightarrow> bool" where
  "careful env \<longleftrightarrow> (\<forall>x. fails_only (\<lambda>w. world_ok w \<and> (\<forall>a. subject x = Some a \<longrightarrow> w_conns w a \<noteq> None)) out_of_room
     (call_user env x))"

lemma carefulD:
  "careful env \<Longrightarrow> world_ok w \<Longrightarrow> (\<And>a. subject x = Some a \<Longrightarrow> w_conns w a \<noteq> None) \<Longrightarrow> call_user env x w = Inl e \<Longrightarrow>
     out_of_room e"
  unfolding careful_def fails_only_def by blast

subsection \<open>A connection and its server\<close>

text \<open>
  The connection at \<open>a\<close> has come from \<open>d\<close>, which calls back the server \<open>s\<close>; \<open>up\<close> says whether that is
  there. Its channel and callbacks are still those of \<open>d\<close>.
\<close>

definition served :: "ptr \<Rightarrow> tcp_connection \<Rightarrow> ptr \<Rightarrow> bool \<Rightarrow> world \<Rightarrow> bool" where
  "served a d s up w \<longleftrightarrow> world_ok w \<and> objects_ok w \<and> (\<exists>c. w_conns w a = Some c \<and> conn_le d c) \<and>
     tc_closeCallback d = Some s \<and> (w_servers w s \<noteq> None) = up"

definition conn_fault :: "tcp_connection \<Rightarrow> bool \<Rightarrow> fault \<Rightarrow> bool" where
  "conn_fault d up e \<longleftrightarrow> out_of_room e \<or> \<not> up \<and> e = Undefined ''TcpServer'' \<or>
     connectionCallback d = None \<and> e = BadFunctionCall ''connectionCallback_'' \<or>
     messageCallback d = None \<and> e = BadFunctionCall ''messageCallback_''"

lemma servedE:
  assumes "served a d s up w"
  obtains c where "world_ok w" "objects_ok w" "w_conns w a = Some c" "tc_channel c = tc_channel d" "tc_closeCallback c = Some s"
    "connectionCallback c = connectionCallback d" "messageCallback c = messageCallback d" "(w_servers w s \<noteq> None) = up"
proof -
  from assms obtain c where w: "world_ok w" "objects_ok w" "(w_servers w s \<noteq> None) = up" "w_conns w a = Some c"
    and c: "conn_le d c" "tc_closeCallback d = Some s"
    unfolding served_def by blast
  from that [OF w(1,2,4) _ _ _ _ w(3)] c show thesis by (simp add: conn_le_def)
qed

lemma served_self:
  "world_ok w \<Longrightarrow> objects_ok w \<Longrightarrow> w_conns w a = Some c \<Longrightarrow> tc_closeCallback c = Some s \<Longrightarrow>
     served a c s (w_servers w s \<noteq> None) w"
  by (simp add: served_def)

lemma served_keeps:
  assumes sv: "served a d s up w" and k: "world_ok w'" "world_le w w'" "fixed w w'"
  shows "served a d s up w'"
proof -
  from sv obtain c where obj: "objects_ok w" and c: "w_conns w a = Some c" "conn_le d c"
    and s: "tc_closeCallback d = Some s" and up: "(w_servers w s \<noteq> None) = up"
    unfolding served_def by blast
  from world_le_conn [OF k(2) c(1)] obtain c' where c': "w_conns w' a = Some c'" "conn_le c c'" .
  have sh: "shape w' = shape w" using k(3) by (simp add: fixed_def)
  have "w_servers w' s = None \<longleftrightarrow> w_servers w s = None"
    using shapeD(3) [OF sh, of s] by (cases "w_servers w s"; cases "w_servers w' s") simp_all
  then show ?thesis
    using k(1) objects_ok_keeps [OF k(2,3) obj] up s c'(1) conn_le_trans [OF c(2) c'(2)] by (simp add: served_def)
qed

lemma served_run:
  assumes "served a d s up w" "safe f" "stable f" "f w = Inr w'"
  shows "served a d s up w'"
  using assms served_keeps keepsD [OF assms(2) _ assms(4)] stableD [OF assms(3,4)] unfolding served_def by blast

lemma served_bind:
  assumes "fails_only (served a d s up) E f" "safe f" "stable f" "fails_only (served a d s up) E g"
  shows "fails_only (served a d s up) E (\<lambda>w. bindE (f w) g)"
  by (rule fails_only_bind [OF assms(1) _ assms(4)])
    (use served_run [OF _ assms(2,3)] in \<open>blast intro: keepsI [where le = "\<lambda>_ _. True"]\<close>)

text \<open>Queueing and handing over to a loop that is there.\<close>

lemma queue_call_runs: "w_loops w lp \<noteq> None \<Longrightarrow> queue_call sys tid lp f w \<noteq> Inl e"
  by (auto simp: queue_call_def the_loop_def)

lemma run_call_Inl:
  assumes "run_call sys tid lp ex f w = Inl e" "w_loops w lp \<noteq> None"
  shows "ex f w = Inl e"
  using assms by (auto simp: run_call_def runInLoop_def the_loop_def split: if_splits)

lemma conn_loop:
  assumes "world_ok w" "w_conns w a = Some c"
  shows "w_loops w (tc_loop c) \<noteq> None"
  using attachedE [OF assms] by (auto simp: attached_def)

context kernel
begin

text \<open>A legal operation of a channel that is there goes through.\<close>

lemma chan_call_runs:
  assumes ok: "world_ok w" and ch: "w_chans w x = Some ch" and legal: "chan_legal op ch"
  shows "chan_call sys op x w = Inr (put_loop (ch_loop ch)
    ((loop_at (ch_loop ch) w)\<lparr>el_poller := place (chan_after op ch) (el_poller (loop_at (ch_loop ch) w))\<rparr>) (put_chan x (chan_after op ch) w))"
proof -
  from world_ok_chan_poller [OF ok ch] obtain l where "w_loops w (ch_loop ch) = Some l" "chan_inv ch (el_poller l)" .
  then show ?thesis
    using ch chan_do_eq [OF chan_inv_slot legal, of "el_poller l"] by (simp add: chan_call_def the_chan_def the_loop_def loop_at_def)
qed

lemma disconnect_runs:
  assumes ok: "world_ok w" and c: "w_conns w a = Some c"
  shows "\<exists>w'. chan_call sys DisableAll (tc_channel c) (put_conn a (setState kDisconnected c) w) = Inr w'"
proof -
  from attachedE [OF ok c] obtain ch l where
    at: "attached a c ch l w" and f: "ch_loop ch = tc_loop c" "chan_inv ch (el_poller l)" by blast
  let ?c = "setState kDisconnected c"
  have id: "tc_channel ?c = tc_channel c" "tc_loop ?c = tc_loop c" by (simp_all add: setState_def)
  then have "put_conn a ?c w = install a ?c ch l w"
    using attached_install [OF at] install_put(1) [of ?c c a ch l w] by simp
  then show ?thesis using install_chan_call [of ch ?c l DisableAll a w] f id chan_inv_slot [OF f(2)]
    by (simp add: chan_legal_def)
qed

end

text \<open>The callbacks of a served connection.\<close>

lemma connectionCallback_fails:
  assumes "careful env"
  shows "fails_only (served a d s up) (conn_fault d up) (call_connectionCallback env a)"
proof (rule fails_onlyI)
  fix w e assume sv: "served a d s up w" and e: "call_connectionCallback env a w = Inl e"
  from servedE [OF sv] obtain c where ok: "world_ok w" and c: "w_conns w a = Some c" "connectionCallback c = connectionCallback d" .
  show "conn_fault d up e"
  proof (cases "connectionCallback d")
    case None
    then show ?thesis using e c by (simp add: call_connectionCallback_def the_conn_def conn_fault_def)
  next
    case (Some cb)
    then obtain n where "call_user env (OnConnection n a) w = Inl e"
      using e c by (cases cb) (simp_all add: call_connectionCallback_def the_conn_def)
    from carefulD [OF assms ok _ this] c(1) show ?thesis by (simp add: conn_fault_def)
  qed
qed

lemma messageCallback_fails:
  assumes "careful env"
  shows "fails_only (served a d s up) (conn_fault d up) (call_messageCallback env a t)"
proof (rule fails_onlyI)
  fix w e assume sv: "served a d s up w" and e: "call_messageCallback env a t w = Inl e"
  from servedE [OF sv] obtain c where ok: "world_ok w" and c: "w_conns w a = Some c" "messageCallback c = messageCallback d" .
  show "conn_fault d up e"
  proof (cases "messageCallback d")
    case None
    then show ?thesis using e c by (simp add: call_messageCallback_def the_conn_def conn_fault_def)
  next
    case (Some cb)
    then obtain n where "call_user env (OnMessage n a t) w = Inl e"
      using e c by (cases cb) (simp_all add: call_messageCallback_def defaultMessageCallback_def the_conn_def)
    from carefulD [OF assms ok _ this] c(1) show ?thesis by (simp add: conn_fault_def)
  qed
qed

lemma removeConnectionInLoop_fails:
  assumes ok: "world_ok w" and c: "w_conns w a = Some c" and e: "removeConnectionInLoop sys tid s a w = Inl e"
  shows "w_servers w s = None \<and> e = Undefined ''TcpServer''"
proof (cases "w_servers w s")
  case None
  then show ?thesis using e by (simp add: removeConnectionInLoop_def the_server_def)
next
  case (Some sv)
  then show ?thesis
    using e c conn_loop [OF ok c] queue_call_runs [of "put_server s _ w" "tc_loop c"]
    by (auto simp: removeConnectionInLoop_def the_server_def the_conn_def)
qed

lemma closeCallback_fails: "fails_only (served a d s up) (conn_fault d up) (call_closeCallback sys tid a)"
proof (rule fails_onlyI)
  fix w e assume sv: "served a d s up w" and e: "call_closeCallback sys tid a w = Inl e"
  from servedE [OF sv] obtain c where ok: "world_ok w" "objects_ok w" and c: "w_conns w a = Some c" "tc_closeCallback c = Some s"
    and up: "(w_servers w s \<noteq> None) = up" .
  have rm: "removeConnection sys tid s a w = Inl e" using e c by (simp add: call_closeCallback_def the_conn_def)
  show "conn_fault d up e"
  proof (cases "w_servers w s")
    case None
    then show ?thesis using rm up by (simp add: removeConnection_def the_server_def conn_fault_def)
  next
    case (Some v)
    then have "run_call sys tid (sv_loop v) (\<lambda>_. removeConnectionInLoop sys tid s a) (RemoveConnectionInLoop s a) w = Inl e"
      using rm by (simp add: removeConnection_def the_server_def)
    from run_call_Inl [OF this objects_okD(5) [OF ok(2) Some]] show ?thesis
      using removeConnectionInLoop_fails [OF ok(1) c(1)] Some by auto
  qed
qed

subsection \<open>The handlers of a connection\<close>

context kernel
begin

lemma handleClose_fails:
  assumes env: "e_sys env = sys" and care: "careful env"
  shows "fails_only (served a d s up) (conn_fault d up) (handleClose env a)"
proof (rule fails_onlyI)
  fix w e assume sv: "served a d s up w" and e: "handleClose env a w = Inl e"
  from servedE [OF sv] obtain c where ok: "world_ok w" and c: "w_conns w a = Some c" .
  obtain w1 where w1: "chan_call sys DisableAll (tc_channel c) (put_conn a (setState kDisconnected c) w) = Inr w1"
    using disconnect_runs [OF ok c] by blast
  have "served a d s up w1"
    using served_keeps [OF sv _ _ fixed_disconnect [OF c w1]] keeps_disconnect [OF ok c w1] by blast
  moreover have "bindE (call_connectionCallback env a w1) (call_closeCallback sys (e_tid env) a) = Inl e"
    using e c w1 by (simp add: handleClose_def the_conn_def env)
  ultimately show "conn_fault d up e"
    using fails_onlyD [OF served_bind [OF connectionCallback_fails [OF care]
        safe_call_connectionCallback [OF env] inert_stable [OF inert_call_connectionCallback] closeCallback_fails]]
    by blast
qed

lemma handleError_runs: "fails_only (served a d s up) E (handleError a)"
proof (rule fails_onlyI)
  fix w e assume sv: "served a d s up w" and e: "handleError a w = Inl e"
  from servedE [OF sv] obtain c where ok: "world_ok w" and c: "w_conns w a = Some c" .
  from attachedE [OF ok c] obtain ch l where "attached a c ch l w" .
  then show "E e" using e by (simp add: handleError_def attached_def the_conn_def the_chan_def)
qed

lemma handleRead_fails:
  assumes env: "e_sys env = sys" and care: "careful env"
  shows "fails_only (served a d s up) (conn_fault d up) (handleRead env t a)"
proof (rule fails_onlyI)
  fix w e assume sv: "served a d s up w" and e: "handleRead env t a w = Inl e"
  from servedE [OF sv] obtain c where ok: "world_ok w" and c: "w_conns w a = Some c" .
  from attachedE [OF ok c] obtain ch l where at: "attached a c ch l w" and inv: "buffer_inv (inputBuffer c)" by blast
  note at = at [unfolded attached_def]
  show "conn_fault d up e"
  proof (cases rule: readFd_result [OF posix_io_axioms inv, of "ch_fd ch"])
    case (1 n err bs b)
    let ?w1 = "put_conn a (c\<lparr>inputBuffer := b\<rparr>) w"
    have k: "world_ok ?w1 \<and> world_le w ?w1" by (rule keeps_put_conn [OF ok c]) (use 1(4) in simp_all)
    have "calm w ?w1" by (rule calm_put_conn [OF c]) simp_all
    from served_keeps [OF sv _ _ calm_fixed [OF this]] k have sv1: "served a d s up ?w1" by blast
    have "(if n > 0 then call_messageCallback env a t ?w1
      else if n = 0 then handleClose env a ?w1 else handleError a ?w1) = Inl e"
      using e at 1(3) by (simp add: handleRead_def the_conn_def the_chan_def Let_def env)
    then show ?thesis
      using fails_onlyD [OF messageCallback_fails [OF care] sv1]
        fails_onlyD [OF handleClose_fails [OF env care] sv1] fails_onlyD [OF handleError_runs [of a d s up "conn_fault d up"] sv1]
      by (auto split: if_splits)
  next
    case 2
    then show ?thesis using e at by (auto simp: handleRead_def the_conn_def the_chan_def env conn_fault_def)
  qed
qed

lemma handleWrite_runs:
  assumes env: "e_sys env = sys" and ok: "world_ok w" and c: "w_conns w a = Some c"
  shows "handleWrite env a w \<noteq> Inl e"
proof -
  obtain n err where n: "sys_write sys (sockfd (tc_socket c)) (content (outputBuffer c)) = (n, err)" by fastforce
  consider "tc_state c = kDisconnected \<or> content (outputBuffer c) = []"
    | "tc_state c \<noteq> kDisconnected" "content (outputBuffer c) \<noteq> []" "n \<le> 0"
    | "tc_state c \<noteq> kDisconnected" "content (outputBuffer c) \<noteq> []" "0 < n" "nat n < length (content (outputBuffer c))"
    | "tc_state c \<noteq> kDisconnected" "content (outputBuffer c) \<noteq> []" "0 < n" "nat n = length (content (outputBuffer c))"
    using write_le [OF n] by linarith
  then show ?thesis
    using handleWrite_idle [OF ok c] handleWrite_error [OF env ok c _ _ n] handleWrite_partial [OF env ok c _ _ n]
      handleWrite_last [OF env ok c _ _ n]
    by cases force+
qed

text \<open>A served connection stays served.\<close>

lemma served_gentle: "gentle f \<Longrightarrow> keeps (served a d s up) (\<lambda>_ _. True) f"
  using served_keeps [OF _ _ _ calm_fixed] unfolding keeps_def tame_def served_def by blast

lemma served_handleClose: "e_sys env = sys \<Longrightarrow> keeps (served a d s up) (\<lambda>_ _. True) (handleClose env a)"
  using served_run [OF _ safe_handleClose stable_handleClose] by (blast intro: keepsI)

lemma served_handleRead:
  assumes env: "e_sys env = sys"
  shows "keeps (served a d s up) (\<lambda>_ _. True) (handleRead env t a)"
proof (rule keepsI)
  fix w w' assume sv: "served a d s up w" and run: "handleRead env t a w = Inr w'"
  from servedE [OF sv] have ok: "world_ok w" .
  from run obtain c n e b and ch :: "callback channel" where c: "w_conns w a = Some c"
      and rd: "readFd sys (ch_fd ch) (inputBuffer c) = Inr (n, e, b)"
      and rest: "(if n > 0 then call_messageCallback env a t (put_conn a (c\<lparr>inputBuffer := b\<rparr>) w)
        else if n = 0 then handleClose env a (put_conn a (c\<lparr>inputBuffer := b\<rparr>) w)
        else handleError a (put_conn a (c\<lparr>inputBuffer := b\<rparr>) w)) = Inr w'"
    by (auto simp: handleRead_def bindE_eq_Inr the_simps Let_def env)
  let ?w1 = "put_conn a (c\<lparr>inputBuffer := b\<rparr>) w"
  have b: "buffer_inv b"
    using rd by (cases rule: readFd_result [OF posix_io_axioms, of "inputBuffer c" "ch_fd ch"])
      (use conn_inv [OF ok c] in auto)
  have k: "world_ok ?w1 \<and> world_le w ?w1" by (rule keeps_put_conn [OF ok c]) (use b in simp_all)
  have "calm w ?w1" by (rule calm_put_conn [OF c]) simp_all
  from served_keeps [OF sv _ _ calm_fixed [OF this]] k have sv1: "served a d s up ?w1" by blast
  have g: "gentle (handleError a)" by (rule gentleI [OF safe_handleError calm_handleError])
  have "served a d s up w'"
    using rest keepsD [OF served_gentle [OF gentle_call_messageCallback [OF env]] sv1]
      keepsD [OF served_handleClose [OF env] sv1] keepsD [OF served_gentle [OF g] sv1]
    by (auto split: if_splits)
  then show "served a d s up w' \<and> True" by simp
qed

end

subsection \<open>Events\<close>

text \<open>The four calls of \<open>handleEventWithGuard\<close>, when the callbacks of the channel are all of \<open>C\<close>.\<close>

lemma guarded_fails:
  assumes cbs: "\<And>v. P v \<Longrightarrow> callbacks (chan_at x v) \<subseteq> C"
    and run: "\<And>cb. cb \<in> C \<Longrightarrow> fails_only P E (run cb) \<and> keeps P (\<lambda>_ _. True) (run cb)"
  shows "fails_only P E (handleEventWithGuard (chan_at x) run)"
proof -
  have bad: "fails_only P E (\<lambda>v. call_if (b v) run (cb v) v)" if "\<And>v f. P v \<Longrightarrow> cb v = Some f \<Longrightarrow> f \<in> C" for b cb
    using that run by (fastforce simp: call_if_def fails_only_def split: option.splits)
  have good: "keeps P (\<lambda>_ _. True) (\<lambda>v. call_if (b v) run (cb v) v)" if "\<And>v f. P v \<Longrightarrow> cb v = Some f \<Longrightarrow> f \<in> C" for b cb
    using that run by (fastforce simp: call_if_def keeps_def split: option.splits if_splits)
  have C: "P v \<Longrightarrow> closeCallback (chan_at x v) = Some f \<Longrightarrow> f \<in> C" "P v \<Longrightarrow> errorCallback (chan_at x v) = Some f \<Longrightarrow> f \<in> C"
    "P v \<Longrightarrow> readCallback (chan_at x v) = Some f \<Longrightarrow> f \<in> C" "P v \<Longrightarrow> writeCallback (chan_at x v) = Some f \<Longrightarrow> f \<in> C" for v f
    using cbs [of v] by (auto simp: callbacks_def)
  have "fails_only P E (\<lambda>w. handleEventWithGuard (chan_at x) run w)"
    unfolding handleEventWithGuard_def
    by (rule fails_only_bind [OF bad good], erule (1) C(1), erule (1) C(1))
      (rule fails_only_bind [OF bad good], erule (1) C(2), erule (1) C(2),
       rule fails_only_bind [OF bad good], erule (1) C(3), erule (1) C(3), rule bad, erule (1) C(4))
  then show ?thesis by simp
qed

text \<open>A channel of a connection.\<close>

definition conn_callbacks :: "ptr \<Rightarrow> callback set" where
  "conn_callbacks a = {TcpConnection_handleRead a, TcpConnection_handleWrite a, TcpConnection_handleClose a, TcpConnection_handleError a}"

lemma served_callbacks:
  assumes "served a d s up w"
  shows "callbacks (chan_at (tc_channel d) w) \<subseteq> conn_callbacks a"
proof -
  from servedE [OF assms] obtain c where obj: "objects_ok w" and c: "w_conns w a = Some c" "tc_channel c = tc_channel d" .
  with objects_okD(2) [OF obj c(1)] obtain ch where "w_chans w (tc_channel d) = Some ch" "conn_handlers a ch" by metis
  then show ?thesis by (auto simp: chan_at_def callbacks_def conn_handlers_def conn_callbacks_def)
qed

context kernel
begin

lemma conn_callback_fails:
  assumes env: "e_sys env = sys" and care: "careful env" and cb: "cb \<in> conn_callbacks a"
  shows "fails_only (served a d s up) (conn_fault d up) (run_callback env t cb) \<and>
    keeps (served a d s up) (\<lambda>_ _. True) (run_callback env t cb)"
proof -
  have w: "fails_only (served a d s up) (conn_fault d up) (handleWrite env a)"
    using handleWrite_runs [OF env] by (auto intro!: fails_onlyI elim!: servedE)
  have g: "gentle (handleError a)" by (rule gentleI [OF safe_handleError calm_handleError])
  show ?thesis
    using cb w handleRead_fails [OF env care] handleClose_fails [OF env care] handleError_runs served_handleRead [OF env]
      served_handleClose [OF env] served_gentle [OF gentle_handleWrite [OF env]] served_gentle [OF g]
    by (auto simp: conn_callbacks_def)
qed

lemma conn_event_fails:
  assumes "e_sys env = sys" "careful env"
  shows "fails_only (served a d s up) (conn_fault d up) (handleEventWithGuard (chan_at (tc_channel d)) (run_callback env t))"
  by (rule guarded_fails [OF served_callbacks conn_callback_fails [OF assms]])

end

text \<open>The channel of a loop: reading the eventfd never fails.\<close>

lemma wakeup_event_runs:
  assumes "callbacks (chan_at x w) \<subseteq> EventLoop_handleRead ` {lp. w_loops w lp \<noteq> None}"
  shows "handleEventWithGuard (chan_at x) (run_callback env t) w \<noteq> Inl e"
proof -
  let ?C = "EventLoop_handleRead ` {lp. w_loops w lp \<noteq> None}"
  let ?P = "\<lambda>v. w_chans v = w_chans w \<and> dom (w_loops w) \<subseteq> dom (w_loops v)"
  have "fails_only ?P (\<lambda>_. False) (handleEventWithGuard (chan_at x) (run_callback env t))"
  proof (rule guarded_fails [where C = ?C])
    show "callbacks (chan_at x v) \<subseteq> ?C" if "?P v" for v using that assms by (simp add: chan_at_def)
    show "fails_only ?P (\<lambda>_. False) (run_callback env t cb) \<and> keeps ?P (\<lambda>_ _. True) (run_callback env t cb)" if "cb \<in> ?C" for cb
    proof
      show "fails_only ?P (\<lambda>_. False) (run_callback env t cb)"
        using that by (auto simp: fails_only_def the_loop_def)
      show "keeps ?P (\<lambda>_ _. True) (run_callback env t cb)"
        using that by (auto simp: keeps_def bindE_eq_Inr the_simps upd_loop_def)
    qed
  qed
  then show ?thesis by (auto simp: fails_only_def)
qed

subsection \<open>New connections\<close>

text \<open>How the events of the channel \<open>x\<close> can fail in the world \<open>w\<close>.\<close>

inductive event_fault :: "env \<Rightarrow> world \<Rightarrow> ptr \<Rightarrow> fault \<Rightarrow> bool" for env w x where
  no_room: "event_fault env w x (LengthError m)"
| server_gone: "w_conns w a = Some c \<Longrightarrow> tc_channel c = x \<Longrightarrow> tc_closeCallback c = Some s \<Longrightarrow> w_servers w s = None \<Longrightarrow>
    event_fault env w x (Undefined ''TcpServer'')"
| accept_failed: "w_acceptors w p = Some ac \<Longrightarrow> ac_channel ac = x \<Longrightarrow>
    e_accept env (sockfd (ac_socket ac)) = (n, err, peer) \<Longrightarrow> n < 0 \<Longrightarrow>
    err \<notin> {EAGAIN, ECONNABORTED, EINTR, EPROTO, EPERM} \<Longrightarrow> event_fault env w x (FatalExit m)"
| ids_used_up: "w_acceptors w p = Some ac \<Longrightarrow> ac_channel ac = x \<Longrightarrow> newConnectionCallback ac = Some s \<Longrightarrow>
    w_servers w s = Some sv \<Longrightarrow> 2 ^ 31 - 1 \<le> sv_nextConnId sv \<Longrightarrow> event_fault env w x (Undefined ''++nextConnId_'')"
| loop_gone: "w_acceptors w p = Some ac \<Longrightarrow> ac_channel ac = x \<Longrightarrow> newConnectionCallback ac = Some s \<Longrightarrow>
    w_servers w s = Some sv \<Longrightarrow> getNextLoop (sv_threadPool sv) = Inr (lp, pool) \<Longrightarrow> w_loops w lp = None \<Longrightarrow>
    event_fault env w x (Undefined ''EventLoop'')"
| no_connection_callback: "w_conns w a = Some c \<Longrightarrow> tc_channel c = x \<Longrightarrow> connectionCallback c = None \<Longrightarrow>
    event_fault env w x (BadFunctionCall ''connectionCallback_'')"
| no_message_callback: "w_conns w a = Some c \<Longrightarrow> tc_channel c = x \<Longrightarrow> messageCallback c = None \<Longrightarrow>
    event_fault env w x (BadFunctionCall ''messageCallback_'')"
| server_without_callback: "w_acceptors w p = Some ac \<Longrightarrow> ac_channel ac = x \<Longrightarrow> newConnectionCallback ac = Some s \<Longrightarrow>
    w_servers w s = Some sv \<Longrightarrow> sv_connectionCallback sv = None \<Longrightarrow>
    event_fault env w x (BadFunctionCall ''connectionCallback_'')"
| refused: "refuses (e_sys env) \<Longrightarrow> event_fault env w x (FatalExit ''epoll_ctl'')"

context kernel
begin

lemma connectEstablished_fails:
  assumes env: "e_sys env = sys" and care: "careful env" and ok: "world_ok w"
    and c: "w_conns w a = Some c" "tc_state c = kConnecting" "tc_closeCallback c \<noteq> None"
    and e: "connectEstablished env a w = Inl e"
  shows "out_of_room e \<or> connectionCallback c = None \<and> e = BadFunctionCall ''connectionCallback_''"
proof -
  from attachedE [OF ok c(1)] obtain ch l where at: "attached a c ch l w" .
  let ?w0 = "put_conn a (setState kConnected c) w" and ?ch = "tie a ch"
  have k0: "world_ok ?w0 \<and> world_le w ?w0"
    by (rule keeps_put_conn [OF ok c(1) conn_le_setState])
      (use c(2) conn_inv [OF ok c(1)] in \<open>simp_all add: setState_def less_eq_StateE_def\<close>)
  have w0: "w_conns ?w0 a = Some (setState kConnected c)" "tc_channel (setState kConnected c) = tc_channel c"
      "w_chans ?w0 (tc_channel c) = Some ch"
    using at by (simp_all add: put_conn_def setState_def attached_def)
  have w1: "chan_tie a (tc_channel c) ?w0 = Inr (put_chan (tc_channel c) ?ch ?w0)"
    using w0(3) by (simp add: chan_tie_def the_chan_def)
  have ok1: "world_ok (put_chan (tc_channel c) ?ch ?w0)"
    using keeps_tie [OF conjunct1 [OF k0] w0(1)] w1 w0(2) by simp
  have "w_chans (put_chan (tc_channel c) ?ch ?w0) (tc_channel c) = Some ?ch" by simp
  from chan_call_runs [OF ok1 this, of EnableReading] obtain w2 where
    w2: "chan_call (e_sys env) EnableReading (tc_channel c) (put_chan (tc_channel c) ?ch ?w0) = Inr w2"
    by (simp add: chan_legal_def env)
  have k2: "world_ok w2 \<and> world_le w w2" by (rule connectEstablished_upto [OF env ok c(1,2) w1 w2])
  then obtain c2 where c2: "w_conns w2 a = Some c2" "connectionCallback c2 = connectionCallback c"
    using world_le_conn [OF _ c(1)] c(3) unfolding conn_le_def by metis
  have run: "call_connectionCallback env a w2 = Inl e"
    using e c(1,2) w1 w2 by (simp add: connectEstablished_def the_conn_def)
  show ?thesis
  proof (cases "connectionCallback c")
    case None
    then show ?thesis using run c2 by (simp add: call_connectionCallback_def the_conn_def)
  next
    case (Some cb)
    then obtain n where "call_user env (OnConnection n a) w2 = Inl e"
      using run c2 by (cases cb) (simp_all add: call_connectionCallback_def the_conn_def)
    from carefulD [OF care conjunct1 [OF k2] _ this] c2(1) show ?thesis by simp
  qed
qed

lemma newConnection_gone:
  assumes "w_servers w s = Some sv" "sv_nextConnId sv < 2 ^ 31 - 1" "getNextLoop (sv_threadPool sv) = Inr (lp, pool)"
    "lp \<noteq> 0" "w_loops w lp = None"
  shows "newConnection env s fd peer w = Inl (Undefined ''EventLoop'')"
proof -
  obtain b where "Buffer_ctor kInitialSize = Inr b"
    using Buffer_ctor_ok [of kInitialSize] by (auto simp: kInitialSize_def vector_max_def)
  then show ?thesis
    using assms by (simp add: newConnection_def the_server_def TcpConnection_ctor_def Let_def the_conn_def put_conn_def
        put_chan_def put_server_def run_call_def the_loop_def split: prod.splits)
qed

lemma newConnection_fails:
  assumes env: "e_sys env = sys" and care: "careful env" and ok: "world_ok w" "objects_ok w"
    and sv: "w_servers w s = Some sv"
    and new: "w_conns w (fst (e_new env)) = None" "w_chans w (snd (e_new env)) = None"
      "\<forall>y d. w_chans w y = Some d \<longrightarrow> ch_fd d \<noteq> fd"
    and e: "newConnection env s fd peer w = Inl e"
  shows "out_of_room e \<or> 2 ^ 31 - 1 \<le> sv_nextConnId sv \<and> e = Undefined ''++nextConnId_'' \<or>
    (\<exists>lp pool. getNextLoop (sv_threadPool sv) = Inr (lp, pool) \<and> w_loops w lp = None) \<and> e = Undefined ''EventLoop'' \<or>
    sv_connectionCallback sv = None \<and> e = BadFunctionCall ''connectionCallback_''"
proof -
  have fit: "server_fit sv" by (rule objects_okD(8) [OF ok(2) sv])
  then obtain lp pool where pool: "getNextLoop (sv_threadPool sv) = Inr (lp, pool)" and lp: "lp \<in> set (getAllLoops (sv_threadPool sv))"
    using getNextLoop_fit [of "sv_threadPool sv"] unfolding server_fit_def by metis
  have "0 \<notin> set (getAllLoops (sv_threadPool sv))"
    using fit by (auto simp: getAllLoops_def server_fit_def pool_fit_def split: if_splits)
  with lp have lp0: "lp \<noteq> 0" by metis
  consider "2 ^ 31 - 1 \<le> sv_nextConnId sv" | "sv_nextConnId sv < 2 ^ 31 - 1" "w_loops w lp = None"
    | "sv_nextConnId sv < 2 ^ 31 - 1" "w_loops w lp \<noteq> None" by fastforce
  then show ?thesis
  proof cases
    case 1
    then show ?thesis using e sv pool by (simp add: newConnection_def the_server_def)
  next
    case 2
    then show ?thesis using newConnection_gone [OF sv 2(1) pool lp0 2(2)] e pool by auto
  next
    case 3
    from newConnection_eq [OF ok(1) sv 3(1) pool lp0 3(2) new, of peer] obtain w2 and c :: tcp_connection where
      j: "joined env fd s w w2" and ok2: "world_ok w2" and le: "world_le w w2" and c: "w_conns w2 (fst (e_new env)) = Some c"
      and eq: "newConnection env s fd peer w = run_call (e_sys env) (e_tid env) lp
       (\<lambda>_. connectEstablished env (fst (e_new env))) (ConnectEstablished (fst (e_new env))) w2" by blast
    have est: "connectEstablished env (fst (e_new env)) w2 = Inl e"
      using run_call_Inl [of _ _ lp _ _ w2 e] e world_le_loop [OF le 3(2)] unfolding eq by blast
    have new: "tc_state c = kConnecting" "tc_closeCallback c \<noteq> None" "connectionCallback c = sv_connectionCallback sv"
      using j c sv by (auto simp: joined_def)
    from connectEstablished_fails [OF env care ok2 c new(1,2) est] show ?thesis using new(3) by auto
  qed
qed

lemma acceptor_handleRead_fails:
  assumes env: "e_sys env = sys" and care: "careful env" and ok: "world_ok w" "objects_ok w" and fresh: "fresh_conn env w"
    and ac: "w_acceptors w p = Some ac" "ac_channel ac = x" and e: "acceptor_handleRead env p w = Inl e"
  shows "event_fault env w x e"
proof -
  obtain n err peer where ans: "e_accept env (sockfd (ac_socket ac)) = (n, err, peer)" by (metis prod_cases3)
  from objects_okD(4) [OF ok(2) ac(1)] obtain s sv where s: "newConnectionCallback ac = Some s" "w_servers w s = Some sv" by blast
  show ?thesis
  proof (cases "n < 0")
    case True
    show ?thesis
    proof (cases "err \<in> {EAGAIN, ECONNABORTED, EINTR, EPROTO, EPERM}")
      case True
      then show ?thesis using e ac(1) ans \<open>n < 0\<close>
        by (auto simp: acceptor_handleRead_def the_acceptor_def socket_accept_def Let_def)
    next
      case False
      have "\<exists>m. e = FatalExit m"
        using e ac(1) ans \<open>n < 0\<close> False
        by (cases err) (auto simp: acceptor_handleRead_def the_acceptor_def socket_accept_def Let_def)
      then show ?thesis using accept_failed [OF ac ans \<open>n < 0\<close> False] by blast
    qed
  next
    case False
    then obtain peer' where run: "newConnection env s n peer' w = Inl e"
      using e ac(1) ans s(1) by (auto simp: acceptor_handleRead_def the_acceptor_def socket_accept_def Let_def)
    have new: "w_conns w (fst (e_new env)) = None" "w_chans w (snd (e_new env)) = None"
        "\<forall>y d. w_chans w y = Some d \<longrightarrow> ch_fd d \<noteq> n"
      using fresh [unfolded fresh_conn_def, rule_format, of "sockfd (ac_socket ac)"] False ans by auto
    show ?thesis
      using newConnection_fails [OF env care ok s(2) new run] no_room ids_used_up [OF ac s] loop_gone [OF ac s] server_without_callback [OF ac s]
      by (auto simp: out_of_room_def)
  qed
qed

text \<open>Whatever the channel is, and whatever has happened on it.\<close>

lemma event_fails:
  assumes env: "e_sys env = sys" and care: "careful env" and ok: "world_ok w" "objects_ok w" and fresh: "fresh_conn env w"
    and x: "w_chans w x = Some ch" and e: "dispatch env t x w = Inl e"
  shows "event_fault env w x e"
proof -
  have g: "handleEventWithGuard (chan_at x) (run_callback env t) w = Inl e"
    using e x by (auto simp: dispatch_def the_chan_def handleEvent_def split: if_splits)
  show ?thesis
  proof (cases "\<exists>a c. w_conns w a = Some c \<and> tc_channel c = x")
    case True
    then obtain a c where c: "w_conns w a = Some c" "tc_channel c = x" by blast
    then obtain s where s: "tc_closeCallback c = Some s" using objects_okD(7) [OF ok(2) c(1)] by (auto simp: callable_def)
    have "served a c s (w_servers w s \<noteq> None) w" by (rule served_self [OF ok c(1) s])
    from fails_onlyD [OF conn_event_fails [OF env care] this] g c(2)
    have "conn_fault c (w_servers w s \<noteq> None) e" by blast
    then show ?thesis
      using no_room server_gone [OF c s] no_connection_callback [OF c] no_message_callback [OF c]
      by (auto simp: conn_fault_def out_of_room_def)
  next
    case False
    have leads: "leads cb x w" if "cb \<in> callbacks ch" for cb by (rule objects_okD(1) [OF ok(2) x that])
    have no_conn: "\<exists>lp. cb = EventLoop_handleRead lp \<and> w_loops w lp \<noteq> None \<or> cb = Acceptor_handleRead lp" if "cb \<in> callbacks ch" for cb
      using leads [OF that] False by (cases cb) auto
    note h = world_okD(6) [OF ok(1) x, unfolded handlers_ok_def]
    show ?thesis
    proof (cases "\<exists>p. readCallback ch = Some (Acceptor_handleRead p)")
      case True
      then obtain p where p: "readCallback ch = Some (Acceptor_handleRead p)" by blast
      then have none: "closeCallback ch = None" "errorCallback ch = None" "writeCallback ch = None" using h by blast+
      obtain ac where ac: "w_acceptors w p = Some ac" "ac_channel ac = x"
        using leads [of "Acceptor_handleRead p"] p by (auto simp: callbacks_def)
      have skip: "call_if b (run_callback env t) None v = Inr v" for b v by (simp add: call_if_def)
      have at: "chan_at x w = ch" using x by (simp add: chan_at_def)
      show ?thesis
      proof (cases "acceptor_handleRead env p w")
        case (Inl e')
        then have "acceptor_handleRead env p w = Inl e"
          using g unfolding handleEventWithGuard_def at none skip bindE_simps p by (simp add: call_if_def at none split: if_splits)
        then show ?thesis by (rule acceptor_handleRead_fails [OF env care ok fresh ac])
      next
        case (Inr w')
        have "chan_le ch (chan_at x w')"
          using keeps_acceptor_handleRead [OF env ok(1) fresh Inr] world_le_chan [OF _ x] by (fastforce simp: chan_at_def)
        then have "writeCallback (chan_at x w') = None" using none(3) by (simp add: chan_le_def)
        then show ?thesis
          using g Inr unfolding handleEventWithGuard_def at none skip bindE_simps p by (simp add: call_if_def at none split: if_splits)
      qed
    next
      case no: False
      have "callbacks (chan_at x w) \<subseteq> EventLoop_handleRead ` {lp. w_loops w lp \<noteq> None}"
      proof
        fix cb assume "cb \<in> callbacks (chan_at x w)"
        then have cb: "cb \<in> callbacks ch" using x by (simp add: chan_at_def)
        moreover have "cb \<noteq> Acceptor_handleRead p" for p 
          using cb h no unfolding callbacks_def mem_Collect_eq insert_iff empty_iff by metis
        ultimately show "cb \<in> EventLoop_handleRead ` {lp. w_loops w lp \<noteq> None}" using no_conn by blast
      qed
      from wakeup_event_runs [OF this] g show ?thesis by blast
    qed
  qed
qed

end

subsection \<open>Functors\<close>

text \<open>How a functor that owns its connection can fail in the world \<open>w\<close>.\<close>

inductive functor_fault :: "env \<Rightarrow> world \<Rightarrow> Functor \<Rightarrow> fault \<Rightarrow> bool" for env w where
  no_room: "functor_fault env w f (LengthError m)"
| established_late: "w_conns w a = Some c \<Longrightarrow> tc_state c \<noteq> kConnecting \<Longrightarrow>
    functor_fault env w (ConnectEstablished a) (AssertFail ''state_ == kConnecting'')"
| not_in_poller: "w_conns w a = Some c \<Longrightarrow> tc_state c \<noteq> kConnected \<Longrightarrow> index_at (tc_channel c) w = Some kNew \<Longrightarrow>
    functor_fault env w (ConnectDestroyed a) (AssertFail ''removeChannel'')"
| server_gone: "w_servers w s = None \<Longrightarrow> functor_fault env w (RemoveConnectionInLoop s a) (Undefined ''TcpServer'')"
| no_callback: "w_conns w a = Some c \<Longrightarrow> connectionCallback c = None \<Longrightarrow>
    f = ConnectEstablished a \<or> f = ConnectDestroyed a \<and> tc_state c = kConnected \<Longrightarrow>
    functor_fault env w f (BadFunctionCall ''connectionCallback_'')"
| refused: "refuses (e_sys env) \<Longrightarrow> f = ConnectEstablished a \<or> f = ConnectDestroyed a \<or>
    (\<exists>n k. f = WriteComplete n a \<or> f = HighWaterMark n a k) \<Longrightarrow> functor_fault env w f (FatalExit ''epoll_ctl'')"

context kernel
begin

lemma remove_fails:
  assumes ok: "world_ok w" and ch: "w_chans w x = Some ch" and e: "chan_call sys Remove x w = Inl e"
  shows "ch_index ch = kNew \<and> e = AssertFail ''removeChannel''"
proof (cases "ch_index ch = kNew")
  case True
  from world_ok_chan_poller [OF ok ch] obtain l where "w_loops w (ch_loop ch) = Some l" .
  moreover have "poller_removeChannel sys ch (el_poller l) = Inl (AssertFail ''removeChannel'')"
    by (rule removeChannel_new) (simp add: True index_defs)
  ultimately show ?thesis using e ch True by (simp add: chan_call_def the_chan_def the_loop_def chan_do_remove)
next
  case False
  then show ?thesis using chan_call_runs [OF ok ch, of Remove] e by (simp add: chan_legal_def)
qed

lemma connectDestroyed_fails:
  assumes env: "e_sys env = sys" and care: "careful env" and ok: "world_ok w" "objects_ok w" and c: "w_conns w a = Some c"
    and e: "connectDestroyed env a w = Inl e"
  shows "functor_fault env w (ConnectDestroyed a) e"
proof (cases "tc_state c = kConnected")
  case False
  obtain ch where ch: "w_chans w (tc_channel c) = Some ch" using objects_okD(2) [OF ok(2) c] by blast
  have "chan_call sys Remove (tc_channel c) w = Inl e"
    using e c False by (simp add: connectDestroyed_def the_conn_def env)
  from remove_fails [OF ok(1) ch this] show ?thesis
    using functor_fault.not_in_poller [OF c False] ch by (simp add: index_at_def)
next
  case True
  obtain s where s: "tc_closeCallback c = Some s" using objects_okD(7) [OF ok(2) c] by (auto simp: callable_def)
  have sv: "served a c s (w_servers w s \<noteq> None) w" by (rule served_self [OF ok c s])
  obtain w1 where w1: "chan_call sys DisableAll (tc_channel c) (put_conn a (setState kDisconnected c) w) = Inr w1"
    using disconnect_runs [OF ok(1) c] by blast
  from keeps_disconnect [OF ok(1) c w1] obtain ch l where k1: "world_ok w1 \<and> world_le w w1"
    and w1_eq: "w1 = install a (setState kDisconnected c) (chan_after DisableAll ch)
        (l\<lparr>el_poller := place (chan_after DisableAll ch) (el_poller l)\<rparr>) w" by blast
  have sv1: "served a c s (w_servers w s \<noteq> None) w1"
    using served_keeps [OF sv _ _ fixed_disconnect [OF c w1]] k1 by blast
  have c1: "w_conns w1 a = Some (setState kDisconnected c)" "tc_channel (setState kDisconnected c) = tc_channel c"
    by (simp_all add: w1_eq setState_def)
  have i1: "index_at (tc_channel c) w1 = Some (ch_index (chan_after DisableAll ch))"
    using c1(2) by (simp add: w1_eq index_at_def)
  have old: "ch_index (chan_after DisableAll ch) \<noteq> kNew" by (simp add: chan_after_def updated_def set_index_def index_defs)
  have run: "bindE (call_connectionCallback env a w1) (chan_call sys Remove (tc_channel c)) = Inl e"
    using e c True w1 by (simp add: connectDestroyed_def the_conn_def env)
  show ?thesis
  proof (cases "call_connectionCallback env a w1")
    case (Inl e')
    then have bad: "e' = e" using run by simp
    show ?thesis
    proof (cases "connectionCallback c")
      case None
      then show ?thesis
        using Inl bad c1 functor_fault.no_callback [OF c None] True
        by (auto simp: call_connectionCallback_def the_conn_def setState_def)
    next
      case (Some cb)
      then obtain n where "call_user env (OnConnection n a) w1 = Inl e"
        using Inl bad c1(1) by (cases cb) (simp_all add: call_connectionCallback_def the_conn_def setState_def)
      from carefulD [OF care conjunct1 [OF k1] _ this] c1(1) show ?thesis
        using functor_fault.no_room by (auto simp: out_of_room_def)
    qed
  next
    case (Inr w2)
    have ok2: "world_ok w2" using keepsD [OF safe_call_connectionCallback [OF env] _ Inr] k1 by blast
    have calm: "calm w1 w2" by (rule gentleD [OF gentle_call_connectionCallback [OF env] _ Inr]) (use k1 in blast)
    from calm_connD [OF calm c1(1)] obtain c2 where "calm_conn w1 w2 (setState kDisconnected c) c2" .
    then have "index_at (tc_channel c) w2 = index_at (tc_channel c) w1"
      using c1(2) by (simp add: calm_conn_def) (simp add: setState_def)
    with i1 obtain ch2 where ch2: "w_chans w2 (tc_channel c) = Some ch2" "ch_index ch2 \<noteq> kNew"
      using old by (auto simp: index_at_def)
    show ?thesis using remove_fails [OF ok2 ch2(1), of e] run Inr ch2(2) by simp
  qed
qed

lemma exec_fails:
  assumes env: "e_sys env = sys" and care: "careful env" and ok: "world_ok w" "objects_ok w"
    and f: "owns f = Some a" "functor_ok w f" and e: "exec env ret f w = Inl e"
  shows "functor_fault env w f e"
proof -
  obtain c where c: "w_conns w a = Some c" using f by (auto simp: functor_ok_def)
  have user: "\<exists>m. e = LengthError m" if "call_user env x w = Inl e" "subject x = Some a" for x
    using carefulD [OF care ok(1) _ that(1)] that(2) c by (auto simp: out_of_room_def)
  have est: "functor_fault env w (ConnectEstablished a) e" if e: "connectEstablished env a w = Inl e"
  proof (cases "tc_state c = kConnecting")
    case True
    have "tc_closeCallback c \<noteq> None" using objects_okD(7) [OF ok(2) c] by (simp add: callable_def)
    from connectEstablished_fails [OF env care ok(1) c True this e] show ?thesis
      using functor_fault.no_room functor_fault.no_callback [OF c] by (auto simp: out_of_room_def)
  next
    case False
    then show ?thesis using e c functor_fault.established_late [OF c False] by (simp add: connectEstablished_def the_conn_def)
  qed
  show ?thesis
  proof (cases f)
    case (ConnectEstablished b)
    then show ?thesis using est e f(1) by simp
  next
    case (ConnectDestroyed b)
    then show ?thesis using connectDestroyed_fails [OF env care ok c] e f(1) by simp
  next
    case (RemoveConnectionInLoop s b)
    then show ?thesis
      using removeConnectionInLoop_fails [OF ok(1) c] functor_fault.server_gone e f(1) by auto
  next
    case (WriteComplete n b)
    then show ?thesis using user [of "OnWriteComplete n a"] functor_fault.no_room e f(1) by auto
  next
    case (HighWaterMark n b k)
    then show ?thesis using user [of "OnHighWaterMark n a k"] functor_fault.no_room e f(1) by auto
  qed (use f(1) in simp_all)
qed

end

subsection \<open>The echo server makes no mistake of its own\<close>

context kernel
begin

lemma sendInLoop_whole_fails:
  assumes ok: "world_ok w" and c: "w_conns w a = Some c" and s: "w_strings w p = Some bs"
    and e: "sendInLoop sys tid a p (of_nat (length bs)) w = Inl e"
  shows "out_of_room e"
proof -
  have live: "tc_state c \<noteq> kDisconnected" using e c by (auto simp: sendInLoop_def the_conn_def)
  from attachedE [OF ok c] obtain ch l where at: "attached a c ch l w" .
  have "unat (of_nat (length bs) :: size_t) = length bs"
    by (rule unat_of_nat_size) (use vector_max_less [OF world_okD(5) [OF ok s]] in simp)
  then have mem: "read_mem p (of_nat (length bs)) w = Inr bs" using s by (simp add: read_mem_whole)
  show ?thesis
  proof (cases "has_room (length bs - taken sys c bs) (outputBuffer c) \<or> refused sys c bs")
    case True
    from sendInLoop_run [OF ok c live mem this, of tid] e show ?thesis by (auto simp: send_result_def)
  next
    case False
    then show ?thesis using sendInLoop_full [OF ok at live mem, of tid] e by auto
  qed
qed

lemma send_whole_fails:
  assumes ok: "world_ok w" and c: "w_conns w a = Some c" and s: "w_strings w p = Some bs" and e: "send sys tid a p w = Inl e"
  shows "out_of_room e"
proof -
  obtain l where l: "w_loops w (tc_loop c) = Some l" using conn_loop [OF ok c] by blast
  have "sendInLoop sys tid a p (of_nat (length bs)) w = Inl e"
    using e c s l run_call_Inl [of sys tid "tc_loop c" _ _ w e]
    by (auto simp: send_def the_conn_def the_loop_def split: if_splits)
  then show ?thesis by (rule sendInLoop_whole_fails [OF ok c s])
qed

lemma shutdown_runs:
  assumes ok: "world_ok w" and c: "w_conns w a = Some c"
  shows "shutdown sys tid a w \<noteq> Inl e"
proof
  assume e: "shutdown sys tid a w = Inl e"
  from attachedE [OF ok c] obtain ch l where at: "attached a c ch l w" .
  let ?w = "put_conn a (setState kDisconnecting c) w"
  have "run_call sys tid (tc_loop c) (\<lambda>_. shutdownInLoop sys a) (ShutdownInLoop a) ?w = Inl e"
    using e c by (simp add: shutdown_def the_conn_def split: if_splits)
  then have "shutdownInLoop sys a ?w = Inl e"
    by (rule run_call_Inl) (use at in \<open>simp add: attached_def put_conn_def\<close>)
  then show False using at
    by (simp add: shutdownInLoop_def the_conn_def the_chan_def put_conn_def attached_def setState_def split: if_splits)
qed

lemma onMessage_fails:
  assumes ok: "world_ok w" and c: "w_conns w a \<noteq> None" and e: "run_user sys tid (onMessage msg a) w = Inl e"
  shows "out_of_room e"
proof -
  obtain c where c: "w_conns w a = Some c" using c by blast
  note inv = conjunct1 [OF conn_inv [OF ok c]]
  obtain w1 where w1: "user_do sys tid (TakeInput a msg) w = Inr w1" "w_strings w1 msg = Some (content (inputBuffer c))"
    using c retrieveAllAsString_eq [OF inv] by (simp add: the_conn_def)
  have k1: "world_ok w1 \<and> world_le w w1" using keepsD [OF safe_user_do ok w1(1)] .
  obtain c1 where c1: "w_conns w1 a = Some c1" using world_le_conn [OF conjunct2 [OF k1] c] by blast
  have rest: "bindE (send sys tid a msg w1) (run_user sys tid [ShutdownConnection a, FreeString msg]) = Inl e"
    using e w1(1) by (simp add: onMessage_def)
  show ?thesis
  proof (cases "send sys tid a msg w1")
    case (Inl e')
    then show ?thesis using send_whole_fails [OF _ c1 w1(2)] k1 rest by auto
  next
    case (Inr w2)
    have k2: "world_ok w2 \<and> world_le w1 w2" using keepsD [OF safe_send _ Inr] k1 by blast
    obtain c2 where c2: "w_conns w2 a = Some c2" using world_le_conn [OF conjunct2 [OF k2] c1] by blast
    obtain w3 where "shutdown sys tid a w2 = Inr w3"
      using shutdown_runs [OF conjunct1 [OF k2] c2] by (cases "shutdown sys tid a w2") auto
    then show ?thesis using rest Inr by simp
  qed
qed

lemma echo_careful:
  assumes "e_sys env = sys" "e_user env = echo_user msg"
  shows "careful env"
  unfolding careful_def
proof (intro allI fails_onlyI)
  fix x w e
  assume w: "world_ok w \<and> (\<forall>a. subject x = Some a \<longrightarrow> w_conns w a \<noteq> None)" and e: "call_user env x w = Inl e"
  show "out_of_room e"
  proof (cases x)
    case (OnMessage n a t)
    then have "run_user sys (e_tid env) (onMessage msg a) w = Inl e"
      using e assms by (simp add: call_user_def echo_user_def)
    then show ?thesis using onMessage_fails w OnMessage by fastforce
  qed (use e assms in \<open>simp_all add: call_user_def echo_user_def\<close>)
qed

end

lemma idle_careful: "e_user env = (\<lambda>_ _. []) \<Longrightarrow> careful env"
  by (simp add: careful_def fails_only_def call_user_def)

subsection \<open>Every reachable state\<close>

text \<open>A system that never refuses has no \<open>refused\<close> fault, and the other faults do not depend on the system.\<close>

lemma patient_never_refuses [simp]: "\<not> refuses (patient sys)"
  by (auto simp: refuses_def)

lemma event_fault_settled: "event_fault (settled env) w x e \<Longrightarrow> event_fault env w x e"
  by (cases rule: event_fault.cases) (auto intro: event_fault.intros)

lemma functor_fault_settled: "functor_fault (settled env) w f e \<Longrightarrow> functor_fault env w f e"
  by (cases rule: functor_fault.cases) (auto intro: functor_fault.intros)

text \<open>
  C4: an event can fail in the listed ways only. Take any state the program can reach, whatever its servers, loops
  and connections have gone through, any channel that is there, any reported events, a kernel that may refuse to add or
  change any registration, callbacks that may be empty, and user functions that make no mistake of their own (on a
  kernel that refuses nothing, their calls fail for want of room only). The dispatch of the events returns, is then a
  step of the program, and the invariants hold, or it ends with: the exception of a \<open>vector\<close> or string that cannot grow;
  \<open>LOG_FATAL\<close> in \<open>EPollPoller::update\<close>, on a registration that was refused; the call of an empty
  \<open>connectionCallback_\<close> or \<open>messageCallback_\<close> of the channel's connection, or of the \<open>connectionCallback_\<close>
  that a new connection gets from its server; the dead server that a connection still calls back;
  \<open>LOG_FATAL\<close> on an error of \<open>accept4\<close> other than the five that are passed over; the number of
  connections at its maximum; or a loop of the pool that is gone. It never fails an assertion and never
  calls another empty \<open>std::function\<close>, and it follows no pointer to a connection, channel, acceptor or loop that is gone,
  beside the one of the pool.
\<close>

theorem events_fail_as_listed:
  assumes "kernel sys" and "EventLoop_ctor sys up epfd evfd None tid lp y = Inr (l, ch)"
    and "program_run (resting (booted lp l y ch)) D p"
    and "refusing_kernel (e_sys env)" and "careful (settled env)" and "fresh_conn env (pg_world p)"
    and "w_chans (pg_world p) x = Some d"
  shows "case dispatch env t x (pg_world p) of
      Inl e \<Rightarrow> event_fault env (pg_world p) x e
    | Inr w \<Rightarrow> program_step p {} (p\<lparr>pg_world := w\<rparr>) \<and> program_ok (p\<lparr>pg_world := w\<rparr>)"
proof -
  have ok: "program_ok p" by (rule program_reachable_ok [OF assms(1-3)])
  note parts = program_ok_parts [OF ok]
  have k: "kernel (e_sys (settled env))" using refusing_kernel.patient_kernel [OF assms(4)] by simp
  have fresh: "fresh_conn (settled env) (pg_world p)" using assms(6) by simp
  note short = refusing_kernel.short_dispatch [OF assms(4) refl, of t x "pg_world p"]
  show ?thesis
  proof (cases "dispatch env t x (pg_world p)")
    case (Inl e)
    from short_Inl [OF short Inl] have "event_fault env (pg_world p) x e"
      using kernel.event_fails [OF k refl assms(5) parts(1,2) fresh assms(7)] event_fault_settled event_fault.refused by blast
    then show ?thesis using Inl by simp
  next
    case (Inr w)
    have step: "program_step p {} (p\<lparr>pg_world := w\<rparr>)"
      by (rule program_step.event [OF k fresh short_Inr [OF short Inr]])
    then show ?thesis using Inr program_step_keeps [OF step ok] by simp
  qed
qed

text \<open>A client at the listening socket of the scenario, when the kernel has no memory to register its descriptor.\<close>

theorem events_fail_as_listed_witness:
  "\<exists>env e. e_user env = echo_user 60 \<and> dispatch env 0 9 sc_polled = Inl e \<and> e = FatalExit ''epoll_ctl'' \<and>
     event_fault env sc_polled 9 e"
proof -
  let ?env = "sc_env\<lparr>e_sys := os_short 9 [] [(6, 1)] 5, e_user := echo_user 60\<rparr>"
  let ?ch = "sc_listening_chan\<lparr>ch_revents := 1\<rparr>"
  have k: "refusing_kernel (e_sys ?env)" using os_short.refusing_kernel_axioms by simp
  have care: "careful (settled ?env)"
    by (rule kernel.echo_careful [OF refusing_kernel.patient_kernel [OF k]]) simp_all
  have fresh: "fresh_conn ?env (pg_world (resting sc_polled))"
    by (simp add: sc_env_def fresh_conn_def sc_polled_def sc_started_def
        sc_constructed_def booted_def sc_wakeup_chan_def sc_listening_chan_def sc_acceptor_chan_def setReadCallback_def
        Channel_ctor_def)
  have ch: "w_chans (pg_world (resting sc_polled)) 9 = Some ?ch" by (simp add: sc_polled_def)
  have ac: "the_acceptor sc_polled 8 = Inr (sc_acceptor\<lparr>ac_listening := True, ac_socket := (ac_socket sc_acceptor)\<lparr>sk_listening := True\<rparr>\<rparr>)"
    by (simp add: sc_polled_def sc_started_def the_acceptor_def)
  have "newConnection ?env 7 5 (InetAddress_port 81 True) sc_polled = Inl (FatalExit ''epoll_ctl'')"
    by (simp add: newConnection_def TcpConnection_ctor_def initial_buffer
      run_call_def runInLoop_def isInLoopThread_def connectEstablished_def chan_tie_def tie_def setState_def
      getNextLoop_def world_step_defs registration_defs os_short_def
      setConnCloseCallback_def setWriteCompleteCallback_def setMessageCallback_def setConnectionCallback_def
      setErrorCallback_def setCloseCallback_def setWriteCallback_def setReadCallback_def Channel_ctor_def
      sc_env_def sc_polled_def sc_started_def sc_constructed_def booted_def
      sc_running_def sc_server_def sc_loop_def sc_poller_def sc_listening_loop_def
      EventLoopThreadPool_ctor_def setKeepAlive_def Socket_ctor_def connection_name_def)
  then have "acceptor_handleRead ?env 8 sc_polled = Inl (FatalExit ''epoll_ctl'')"
    unfolding acceptor_handleRead_def ac by (simp add: socket_accept_def sc_env_def sc_acceptor_def)
  moreover have "\<not> ch_tied ?ch" "readCallback ?ch = Some (Acceptor_handleRead 8)" "closeCallback ?ch = None" "errorCallback ?ch = None"
    by (simp_all add: sc_listening_chan_def sc_acceptor_chan_def setReadCallback_def Channel_ctor_def)
  ultimately have e: "dispatch ?env 0 9 sc_polled = Inl (FatalExit ''epoll_ctl'')"
    using ch by (simp add: dispatch_def the_chan_def chan_at_def handleEvent_def handleEventWithGuard_def call_if_def epoll_masks)
  from events_fail_as_listed [OF sc_kernel scenario_boot scenario_run_polled k care fresh ch, of 0] e show ?thesis
    by (intro exI [of _ ?env]) simp
qed

text \<open>
  C5: a functor that owns its connection can fail in the listed ways only. In any reachable state, every functor in a queue
  or a running batch that holds a \<open>shared_ptr\<close> to a connection, run by any thread on a kernel that may refuse any
  registration, with callbacks that may be empty and user functions that make no mistake of their own, returns into a
  consistent world in which no connection has lost anything, or: a \<open>vector\<close> or string cannot grow; a
  registration is refused (never in \<open>removeConnectionInLoop\<close>); \<open>connectEstablished\<close>, or
  \<open>connectDestroyed\<close> on a connection that is up, calls an empty \<open>connectionCallback_\<close>;
  \<open>connectEstablished\<close> finds its connection past \<open>kConnecting\<close>;
  \<open>connectDestroyed\<close> finds the channel of a connection that is not \<open>kConnected\<close> in no poller any more, which
  \<open>removeChannel\<close> asserts; or \<open>removeConnectionInLoop\<close> comes after its server.
\<close>

theorem functors_fail_as_listed:
  assumes "kernel sys" and "EventLoop_ctor sys up epfd evfd None tid lp y = Inr (l, ch)"
    and "program_run (resting (booted lp l y ch)) D p"
    and "refusing_kernel (e_sys env)" and "careful (settled env)"
    and "f \<in> held p \<or> (\<exists>q. f \<in> set (pend (pg_world p) q))" and "owns f = Some a"
  shows "case exec env ret f (pg_world p) of
      Inl e \<Rightarrow> functor_fault env (pg_world p) f e
    | Inr w \<Rightarrow> world_ok w \<and> world_le (pg_world p) w"
proof -
  note parts = program_ok_parts [OF program_reachable_ok [OF assms(1-3)]]
  have k: "kernel (e_sys (settled env))" using refusing_kernel.patient_kernel [OF assms(4)] by simp
  have f: "functor_ok (pg_world p) f" using assms(6) own_okD(4,5) [OF parts(3)] by blast
  have fails: "functor_fault env (pg_world p) f e" if "exec (settled env) ret f (pg_world p) = Inl e" for e
    by (rule functor_fault_settled [OF kernel.exec_fails [OF k refl assms(5) parts(1,2) assms(7) f that]])
  note short = refusing_kernel.short_exec [OF assms(4) refl, of ret f "pg_world p"]
  show ?thesis
  proof (cases "exec env ret f (pg_world p)")
    case (Inl e)
    have "functor_fault env (pg_world p) f e"
    proof (cases "\<exists>s. f = RemoveConnectionInLoop s a")
      case True
      then show ?thesis using fails Inl by auto
    next
      case False
      then have "f = ConnectEstablished a \<or> f = ConnectDestroyed a \<or> (\<exists>n k. f = WriteComplete n a \<or> f = HighWaterMark n a k)"
        using assms(7) by (cases f) auto
      then show ?thesis using short_Inl [OF short Inl] fails functor_fault.refused by blast
    qed
    then show ?thesis using Inl by simp
  next
    case (Inr w)
    then show ?thesis using keepsD [OF kernel.safe_exec [OF k refl] parts(1) short_Inr [OF short Inr]] by simp
  qed
qed

text \<open>In the threaded scenario \<open>connectDestroyed\<close> has just run; the batch still holds it, and a second call would fail.\<close>

theorem functors_fail_as_listed_witness:
  "\<exists>p e. program_run (resting sc_boot) {} p \<and> ConnectDestroyed 20 \<in> held p \<and>
     exec mt_env 0 (ConnectDestroyed 20) (pg_world p) = Inl e \<and> functor_fault mt_env (pg_world p) (ConnectDestroyed 20) e"
proof -
  let ?f = "ConnectDestroyed 20"
  let ?w1 = "mt_down kConnected mt_chan mt_busy True [] 2 Map.empty" and ?w2 = "mt_down kDisconnected mt_dead_chan mt_idle True [] 2 Map.empty"
  let ?p = "batch [?f] [] ?w2"
  have k: "kernel (e_sys mt_env)" using sc_kernel by (simp add: sc_env_def mt_env_def)
  have rk: "refusing_kernel (e_sys mt_env)" by (rule kernel.may_refuse [OF k])
  have care: "careful (settled mt_env)" by (rule idle_careful) (simp add: sc_env_def mt_env_def)
  have "w_loops (mt_down kConnected mt_chan mt_busy False [?f] 2 Map.empty) 30 \<noteq> None" by (simp add: mt_down_def)
  then have "program_run (resting sc_boot) {} (batch [?f] [?f] ?w1)"
    using program_run_step [OF threaded_down program_step.begin_functors [of "resting (mt_down kConnected mt_chan mt_busy False [?f] 2 Map.empty)" 30]]
    by (simp add: threaded_take)
  then have run: "program_run (resting sc_boot) {} ?p"
    using program_run_step [OF _ program_step.one_functor [OF k, of "batch [?f] [?f] ?w1" 30 "[?f]" ?f "[]" 0 ?w2]] threaded_destroyed
    by simp
  have held: "?f \<in> held ?p" unfolding held_def by (intro CollectI exI [of _ 30]) simp
  have "exec mt_env 0 ?f (pg_world ?p) = Inl (AssertFail ''removeChannel'')"
    by (simp add: connectDestroyed_def world_step_defs registration_defs chan_do_remove loop_removeChannel_def
        poller_removeChannel_def channel_remove_def mt_down_def mt_client_def mt_conn_def mt_dead_chan_def mt_chan_def sc_conn_def
        sc_conn_chan_def mt_loop_def mt_env_def sc_env_def)
  with functors_fail_as_listed [OF sc_kernel scenario_boot run rk care disjI1 [OF held], of 20 0] run held show ?thesis
    by (intro exI [of _ ?p]) simp
qed

end
