(* ===== verification/Closing.thy ===== *)
theory Closing
  imports Faults LifetimeProps
begin

text \<open>
  The end of a connection, from the event that closes it to its destructor, on whatever threads its loop and its
  server's run and whatever its connection callback does.
\<close>

subsection \<open>Leaving the server\<close>

lemma removeConnectionInLoop_eq:
  assumes "world_ok w" "w_servers w s = Some sv" "w_conns w a = Some c"
  shows "removeConnectionInLoop sys tid s a w = Inr (upd_loop (tc_loop c) (queueInLoop sys tid (ConnectDestroyed a))
    (put_server s (sv\<lparr>sv_connections := (sv_connections sv)(tc_name c := None)\<rparr>) w))"
  using assms(2,3) conn_loop [OF assms(1,3)]
  by (auto simp: removeConnectionInLoop_def the_server_def the_conn_def queue_call_def the_loop_def put_server_def)

lemma pend_upd_queue [simp]:
  "w_loops w lp \<noteq> None \<Longrightarrow> pend (upd_loop lp (queueInLoop sys tid f) w) q = pend w q @ (if q = lp then [f] else [])"
  by (auto simp: upd_loop_def pend_def loop_at_def)

lemma put_server_more [simp]: "pend (put_server s sv w) = pend w" "w_loops (put_server s sv w) = w_loops w"
  by (simp_all add: pend_def put_server_def fun_eq_iff)

lemma upd_loop_more [simp]:
  "w_conns (upd_loop lp f w) = w_conns w" "w_chans (upd_loop lp f w) = w_chans w" "w_servers (upd_loop lp f w) = w_servers w"
  by (simp_all add: upd_loop_def)

subsection \<open>Leaving the poller, and the destructor\<close>

lemma destroy_disconnected:
  assumes k: "kernel (e_sys env)" and ok: "world_ok w" and c: "w_conns w a = Some c" "tc_state c = kDisconnected"
    and idx: "index_at (tc_channel c) w \<noteq> Some kNew"
  shows "\<exists>w3 w4 l. connectDestroyed env a w = Inr w3 \<and> w_loops w3 (tc_loop c) = Some l \<and>
    poller_view (el_poller l) (sockfd (tc_socket c)) = (None, None) \<and>
    TcpConnection_dtor a w3 = Inr w4 \<and> w_conns w4 a = None \<and> world_ok w4"
proof -
  from attachedE [OF ok c(1)] obtain ch l where at: "attached a c ch l w" and f: "ch_loop ch = tc_loop c"
    "ch_fd ch = sockfd (tc_socket c)" by blast
  have ch: "w_chans w (tc_channel c) = Some ch" "w_loops w (tc_loop c) = Some l" using at by (simp_all add: attached_def)
  then have new: "ch_index ch \<noteq> kNew" using idx by (auto simp: index_at_def)
  let ?ch = "chan_after Remove ch"
  have run: "connectDestroyed env a w = chan_call (e_sys env) Remove (tc_channel c) w"
    using c by (simp add: connectDestroyed_def the_conn_def)
  from kernel.chan_call_runs [OF k ok ch(1), of Remove] new
  have w3: "connectDestroyed env a w = Inr (put_loop (tc_loop c) (l\<lparr>el_poller := place ?ch (el_poller l)\<rparr>) (put_chan (tc_channel c) ?ch w))"
    using ch(2) f(1) unfolding run by (simp add: chan_legal_def loop_at_def)
  let ?w3 = "put_loop (tc_loop c) (l\<lparr>el_poller := place ?ch (el_poller l)\<rparr>) (put_chan (tc_channel c) ?ch w)"
  have ok3: "world_ok ?w3" using keepsD [OF kernel.safe_connectDestroyed [OF k refl] ok w3] by simp
  have idx3: "ch_index ?ch = kNew" by (simp add: chan_after_def)
  have "w_conns ?w3 a = Some c" "w_chans ?w3 (tc_channel c) = Some ?ch" using c by simp_all
  from keeps_dtor [OF ok3 this(1) c(2) this(2) idx3] obtain w4 where
    w4: "TcpConnection_dtor a ?w3 = Inr w4" "world_ok w4" "w_conns w4 a = None" by auto
  have "poller_view (place ?ch (el_poller l)) (sockfd (tc_socket c)) = (None, None)"
    using f(2) by (simp add: poller_view_def place_def registered_def watched_def idx3)
  then show ?thesis using w3 w4 by (intro exI [of _ ?w3] exI [of _ w4] exI [of _ "l\<lparr>el_poller := place ?ch (el_poller l)\<rparr>"]) simp
qed

text \<open>From \<open>removeConnectionInLoop\<close> on.\<close>

lemma let_go:
  assumes k: "kernel (e_sys env)" and ok: "world_ok w" and c: "w_conns w a = Some c" "tc_state c = kDisconnected"
    and idx: "index_at (tc_channel c) w \<noteq> Some kNew" and sv: "w_servers w s = Some sv"
  shows "\<exists>w2 sv2 w3 l w4. removeConnectionInLoop sys tid s a w = Inr w2 \<and> w_conns w2 a = Some c \<and>
    (\<forall>lp m. w_loops w lp = Some m \<longrightarrow> (\<forall>t. isInLoopThread t (loop_at lp w2) = isInLoopThread t m)) \<and>
    w_servers w2 s = Some sv2 \<and> sv_connections sv2 = (sv_connections sv)(tc_name c := None) \<and>
    pend w2 (tc_loop c) = pend w (tc_loop c) @ [ConnectDestroyed a] \<and>
    connectDestroyed env a w2 = Inr w3 \<and> w_loops w3 (tc_loop c) = Some l \<and>
    poller_view (el_poller l) (sockfd (tc_socket c)) = (None, None) \<and>
    TcpConnection_dtor a w3 = Inr w4 \<and> w_conns w4 a = None \<and> world_ok w4"
proof -
  let ?sv = "sv\<lparr>sv_connections := (sv_connections sv)(tc_name c := None)\<rparr>"
  let ?w2 = "upd_loop (tc_loop c) (queueInLoop sys tid (ConnectDestroyed a)) (put_server s ?sv w)"
  note w2 = removeConnectionInLoop_eq [OF ok sv c(1), of sys tid]
  have ok2: "world_ok ?w2" using keepsD [OF safe_removeConnectionInLoop ok w2] by simp
  have conn: "w_conns ?w2 a = Some c" using c by (simp add: put_server_def)
  have "index_at (tc_channel c) ?w2 \<noteq> Some kNew" using idx by (simp add: index_at_def put_server_def)
  from destroy_disconnected [OF k ok2 conn c(2) this] obtain w3 w4 l where
    destroyed: "connectDestroyed env a ?w2 = Inr w3" "w_loops w3 (tc_loop c) = Some l"
      "poller_view (el_poller l) (sockfd (tc_socket c)) = (None, None)" "TcpConnection_dtor a w3 = Inr w4"
      "w_conns w4 a = None" "world_ok w4" by blast
  have "\<forall>lp m. w_loops w lp = Some m \<longrightarrow> (\<forall>t. isInLoopThread t (loop_at lp ?w2) = isInLoopThread t m)"
    by (auto simp: upd_loop_def loop_at_def isInLoopThread_def)
  moreover have "w_servers ?w2 s = Some ?sv" by (simp add: put_server_def)
  moreover have "pend ?w2 (tc_loop c) = pend w (tc_loop c) @ [ConnectDestroyed a]" using conn_loop [OF ok c(1)] by simp
  ultimately show ?thesis using w2 conn destroyed
    by (intro exI [of _ ?w2] exI [of _ ?sv] exI [of _ w3] exI [of _ l] exI [of _ w4]) simp
qed

subsection \<open>\<open>handleClose\<close>\<close>

text \<open>Up to the close callback: the connection is down, and the server and its table are as they were.\<close>

lemma handleClose_upto:
  assumes k: "kernel (e_sys env)" and care: "careful env" and ok: "world_ok w" "objects_ok w"
    and c: "w_conns w a = Some c" "tc_closeCallback c = Some s" and sv: "w_servers w s = Some sv"
  obtains (fails) e where "handleClose env a w = Inl e"
      "out_of_room e \<or> connectionCallback c = None \<and> e = BadFunctionCall ''connectionCallback_''"
  | (calls) v d svd where "handleClose env a w = removeConnection (e_sys env) (e_tid env) s a v" "world_ok v"
      "w_conns v a = Some d" "tc_state d = kDisconnected" "conn_le c d" "index_at (tc_channel c) v \<noteq> Some kNew"
      "w_servers v s = Some svd" "sv_connections svd = sv_connections sv" "sv_loop svd = sv_loop sv" "w_loops v (sv_loop sv) \<noteq> None"
      "\<And>lp. \<exists>gs. pend v lp = pend w lp @ gs"
proof -
  obtain w0 where w0: "chan_call (e_sys env) DisableAll (tc_channel c) (put_conn a (setState kDisconnected c) w) = Inr w0"
    using kernel.disconnect_runs [OF k ok(1) c(1)] by blast
  from kernel.keeps_disconnect [OF k ok(1) c(1) w0] obtain ch l where k0: "world_ok w0 \<and> world_le w w0"
    and at: "attached a c ch l w" and w0_eq: "w0 = install a (setState kDisconnected c) (chan_after DisableAll ch)
        (l\<lparr>el_poller := place (chan_after DisableAll ch) (el_poller l)\<rparr>) w" by blast
  have c0: "w_conns w0 a = Some (setState kDisconnected c)" "tc_channel (setState kDisconnected c) = tc_channel c"
      "connectionCallback (setState kDisconnected c) = connectionCallback c" "w_servers w0 = w_servers w"
    by (simp_all add: w0_eq setState_def)
  have i0: "index_at (tc_channel c) w0 \<noteq> Some kNew"
    using c0(2) by (simp add: w0_eq index_at_def chan_after_def updated_def set_index_def index_defs)
  have p0: "pend w0 lp = pend w lp" for lp
    using at c0(2) by (auto simp: w0_eq pend_def attached_def setState_def)
  have run: "handleClose env a w = bindE (call_connectionCallback env a w0) (call_closeCallback (e_sys env) (e_tid env) a)"
    using c(1) w0 by (simp add: handleClose_def the_conn_def)
  show thesis
  proof (cases "call_connectionCallback env a w0")
    case (Inl e)
    show thesis
    proof (cases "connectionCallback c")
      case None
      then have "e = BadFunctionCall ''connectionCallback_''"
        using Inl c0 by (simp add: call_connectionCallback_def the_conn_def)
      then show thesis using fails Inl run None by simp
    next
      case (Some cb)
      then obtain n where "call_user env (OnConnection n a) w0 = Inl e"
        using Inl c0 by (cases cb) (simp_all add: call_connectionCallback_def the_conn_def)
      from carefulD [OF care conjunct1 [OF k0] _ this] c0(1) show thesis using fails Inl run by simp
    qed
  next
    case (Inr v)
    have kv: "world_ok v" "world_le w0 v" 
      using keepsD [OF kernel.safe_call_connectionCallback [OF k refl] conjunct1 [OF k0] Inr] by blast+
    have calm: "calm w0 v" by (rule gentleD [OF kernel.gentle_call_connectionCallback [OF k refl] conjunct1 [OF k0] Inr])
    from calm_connD [OF calm c0(1)] obtain d where d: "w_conns v a = Some d" "calm_conn w0 v (setState kDisconnected c) d" .
    obtain d' where "w_conns v a = Some d'" "conn_le c d'"
      using world_le_conn [OF world_le_trans [OF conjunct2 [OF k0] kv(2)] c(1)] .
    then have le: "conn_le c d" using d(1) by simp
    have cd: "tc_state d = kDisconnected" "index_at (tc_channel c) v \<noteq> Some kNew" "tc_closeCallback d = Some s"
      using d(2) i0 le c(2) by (simp_all add: calm_conn_def setState_def conn_le_def)
    have "map_option sv_core (w_servers v s) = Some (sv_core sv)"
      using calm sv c0(4) by (simp add: calm_def cores_def fun_eq_iff)
    moreover have "map_option (\<lambda>sv. (sv_acceptor sv, sv_loop sv, server_fit sv)) (w_servers v s) =
        Some (sv_acceptor sv, sv_loop sv, server_fit sv)"
      using shapeD(3) [of v w0 s] calm sv c0(4) by (simp add: calm_def)
    ultimately obtain svd where svd: "w_servers v s = Some svd" "sv_connections svd = sv_connections sv" "sv_loop svd = sv_loop sv"
      by (auto simp: sv_core_def)
    have lp: "w_loops v (sv_loop sv) \<noteq> None"
      using world_le_loop [OF world_le_trans [OF conjunct2 [OF k0] kv(2)]] objects_okD(5) [OF ok(2) sv] .
    have grows: "\<exists>gs. pend v lp = pend w lp @ gs" for lp using calm p0 unfolding calm_def by metis
    have "call_closeCallback (e_sys env) (e_tid env) a v = removeConnection (e_sys env) (e_tid env) s a v"
      using d(1) cd(3) by (simp add: call_closeCallback_def the_conn_def)
    then show thesis
      using calls [OF _ kv(1) d(1) cd(1) le cd(2) svd lp grows] run Inr by simp
  qed
qed

text \<open>
  C18: closing cleans up. In a consistent world, when the peer closes a connection whose server is there, whatever thread
  \<open>handleClose\<close> runs on, whatever the user's connection callback does (it makes no mistake of its own, \<open>careful\<close>), and
  whether the connection's loop is the server's or one of the pool's: \<open>handleClose\<close> fails only when the callback is empty
  or runs out of room; when it returns, the connection is disconnected and, on the thread of the server's loop, out of the
  server's table, with \<open>connectDestroyed\<close> as the last functor of the connection's own loop; on another thread the
  table is untouched and \<open>removeConnectionInLoop\<close> is the last functor of the server's loop, and when that runs,
  the same is true. Nothing that was queued before is lost on the way. When the connection's loop then runs
  \<open>connectDestroyed\<close>, the descriptor is gone from the poller's map and from the kernel's interest list, the
  destructor that follows finds the connection disconnected, and the rest of the world is still consistent. (The three
  calls are taken one directly after the other; what may come between them is the subject of C5 and C6.)
\<close>

theorem close_cleans_up:
  assumes "kernel (e_sys env)" and "kernel (e_sys env')" and "careful env" and "world_ok w" and "objects_ok w"
    and "w_conns w a = Some c" and "tc_closeCallback c = Some s" and "w_servers w s = Some sv"
  shows "case handleClose env a w of
      Inl e \<Rightarrow> out_of_room e \<or> connectionCallback c = None \<and> e = BadFunctionCall ''connectionCallback_''
    | Inr w1 \<Rightarrow> \<exists>d w2 sv2 w3 l w4. w_conns w1 a = Some d \<and> tc_state d = kDisconnected \<and>
        (if isInLoopThread (e_tid env) (loop_at (sv_loop sv) w1) then w2 = w1
         else (\<exists>sv1 gs. w_servers w1 s = Some sv1 \<and> sv_connections sv1 = sv_connections sv \<and>
           pend w1 (sv_loop sv) = pend w (sv_loop sv) @ gs @ [RemoveConnectionInLoop s a]) \<and>
           removeConnectionInLoop (e_sys env') (e_tid env') s a w1 = Inr w2) \<and>
        w_servers w2 s = Some sv2 \<and> sv_connections sv2 = (sv_connections sv)(tc_name c := None) \<and>
        (\<exists>gs. pend w2 (tc_loop c) = pend w (tc_loop c) @ gs @ [ConnectDestroyed a]) \<and>
        connectDestroyed env' a w2 = Inr w3 \<and> w_loops w3 (tc_loop c) = Some l \<and>
        poller_view (el_poller l) (sockfd (tc_socket c)) = (None, None) \<and>
        TcpConnection_dtor a w3 = Inr w4 \<and> w_conns w4 a = None \<and> world_ok w4"
  using assms(1,3-8)
proof (cases rule: handleClose_upto)
  case (fails e)
  then show ?thesis by simp
next
  case (calls v d svd)
  let ?sys = "e_sys env" and ?tid = "e_tid env" and ?lp = "sv_loop sv"
  have same: "tc_loop d = tc_loop c" "tc_name d = tc_name c" "tc_channel d = tc_channel c"
      "sockfd (tc_socket d) = sockfd (tc_socket c)"
    using calls(5) by (simp_all add: conn_le_def)
  obtain l where l: "w_loops v ?lp = Some l" using calls(10) by blast
  have close: "handleClose env a w = run_call ?sys ?tid ?lp (\<lambda>_. removeConnectionInLoop ?sys ?tid s a) (RemoveConnectionInLoop s a) v"
    using calls(1,7,9) by (simp add: removeConnection_def the_server_def)
  show ?thesis
  proof (cases "isInLoopThread ?tid l")
    case True
    then have here: "handleClose env a w = removeConnectionInLoop ?sys ?tid s a v"
      using close l by (simp add: run_call_def the_loop_def runInLoop_def loop_at_def)
    have "index_at (tc_channel d) v \<noteq> Some kNew" using calls(6) same by simp
    from let_go [OF assms(2) calls(2-4) this calls(7), of ?sys ?tid] obtain w2 sv2 w3 l3 w4 where
      r: "removeConnectionInLoop ?sys ?tid s a v = Inr w2" "w_conns w2 a = Some d"
        "\<forall>lp m. w_loops v lp = Some m \<longrightarrow> (\<forall>t. isInLoopThread t (loop_at lp w2) = isInLoopThread t m)"
        "w_servers w2 s = Some sv2" "sv_connections sv2 = (sv_connections svd)(tc_name d := None)"
        "pend w2 (tc_loop d) = pend v (tc_loop d) @ [ConnectDestroyed a]"
      and rest: "connectDestroyed env' a w2 = Inr w3" "w_loops w3 (tc_loop d) = Some l3"
        "poller_view (el_poller l3) (sockfd (tc_socket d)) = (None, None)"
        "TcpConnection_dtor a w3 = Inr w4" "w_conns w4 a = None" "world_ok w4" by blast
    have "isInLoopThread ?tid (loop_at ?lp w2)" using True l r(3) by blast
    moreover have "\<exists>gs. pend w2 (tc_loop c) = pend w (tc_loop c) @ gs @ [ConnectDestroyed a]"
      using calls(11) [of "tc_loop c"] r(6) same by auto
    ultimately show ?thesis using r(2,4,5) calls(4,8) rest unfolding here r(1) sum.case same
      by (intro exI [of _ d] exI [of _ w2] exI [of _ sv2] exI [of _ w3] exI [of _ l3] exI [of _ w4]) simp
  next
    case False
    let ?w1 = "upd_loop ?lp (queueInLoop ?sys ?tid (RemoveConnectionInLoop s a)) v"
    have there: "handleClose env a w = Inr ?w1"
      using close l False by (simp add: run_call_def the_loop_def runInLoop_def loop_at_def)
    have ok1: "world_ok ?w1" using keepsD [OF kernel.safe_handleClose [OF assms(1) refl] assms(4) there] by simp
    have "w_conns ?w1 a = Some d" "index_at (tc_channel d) ?w1 \<noteq> Some kNew" "w_servers ?w1 s = Some svd"
      using calls(3,6,7) same by (simp_all add: index_at_def)
    from let_go [OF assms(2) ok1 this(1) calls(4) this(2,3), of "e_sys env'" "e_tid env'"] obtain w2 sv2 w3 l3 w4 where
      r: "removeConnectionInLoop (e_sys env') (e_tid env') s a ?w1 = Inr w2"
        "w_servers w2 s = Some sv2" "sv_connections sv2 = (sv_connections svd)(tc_name d := None)"
        "pend w2 (tc_loop d) = pend ?w1 (tc_loop d) @ [ConnectDestroyed a]"
      and rest: "connectDestroyed env' a w2 = Inr w3" "w_loops w3 (tc_loop d) = Some l3"
        "poller_view (el_poller l3) (sockfd (tc_socket d)) = (None, None)"
        "TcpConnection_dtor a w3 = Inr w4" "w_conns w4 a = None" "world_ok w4" by blast
    have "\<exists>gs. pend ?w1 ?lp = pend w ?lp @ gs @ [RemoveConnectionInLoop s a]" using calls(11) [of ?lp] l by auto
    moreover have "\<exists>gs. pend w2 (tc_loop c) = pend w (tc_loop c) @ gs @ [ConnectDestroyed a]"
      using calls(11) [of "tc_loop c"] r(4) l same by auto
    moreover have "\<not> isInLoopThread ?tid (loop_at ?lp ?w1)" using False l by (simp add: upd_loop_def loop_at_def isInLoopThread_def)
    ultimately show ?thesis using r(1-3) rest calls(3,4,7,8) unfolding there sum.case same
      by (intro exI [of _ d] exI [of _ w2] exI [of _ sv2] exI [of _ w3] exI [of _ l3] exI [of _ w4]) simp
  qed
qed

text \<open>The connection of the threaded scenario is closed on the thread of its own loop, which is not its server's.\<close>

lemma threaded_close_returns: "\<exists>w1. handleClose mt_env 20 mt_connected = Inr w1"
  using busy_minus
  by (simp add: handleClose_def setState_def call_connectionCallback_def call_closeCallback_def removeConnection_def run_call_def
      runInLoop_def isInLoopThread_def world_step_defs registration_defs sc_sys_sel disableAll_def isNonEvent_def
      mt_env_def sc_env_def mt_client_def mt_conn_def mt_chan_def sc_conn_def
      sc_conn_chan_def mt_loop_def mt_poller_def mt_running_def sc_server_def sc_listening_loop_def sc_loop_def)

lemma threaded_close_thread: "handleClose mt_env 20 mt_connected = Inr w1 \<Longrightarrow> \<not> isInLoopThread 300 (loop_at 1 w1)"
  using busy_minus
  by (auto simp: handleClose_def setState_def call_connectionCallback_def call_closeCallback_def removeConnection_def run_call_def
      runInLoop_def isInLoopThread_def world_step_defs registration_defs sc_sys_sel disableAll_def isNonEvent_def
      mt_env_def sc_env_def mt_client_def mt_conn_def mt_chan_def sc_conn_def
      sc_conn_chan_def mt_loop_def mt_poller_def mt_running_def sc_server_def sc_listening_loop_def sc_loop_def)

theorem close_cleans_up_witness:
  "\<exists>w1 w2 w3 w4 gs. handleClose mt_env 20 mt_connected = Inr w1 \<and> pend w1 1 = gs @ [RemoveConnectionInLoop 7 20] \<and>
     removeConnectionInLoop sc_sys 100 7 20 w1 = Inr w2 \<and> connectDestroyed sc_env 20 w2 = Inr w3 \<and>
     TcpConnection_dtor 20 w3 = Inr w4 \<and> world_ok w4"
proof -
  let ?sv = "mt_running\<lparr>sv_nextConnId := 2, sv_connections := [connection_name sc_running \<mapsto> 20]\<rparr>"
  have k: "kernel (e_sys mt_env)" "kernel (e_sys sc_env)" using sc_kernel by (simp_all add: sc_env_def mt_env_def)
  have care: "careful mt_env" by (rule idle_careful) (simp add: sc_env_def mt_env_def)
  have "program_ok (resting mt_connected)" by (rule program_reachable_ok [OF sc_kernel scenario_boot threaded_run])
  then have ok: "world_ok mt_connected" "objects_ok mt_connected" using program_ok_parts(1,2) by fastforce+
  have c: "w_conns mt_connected 20 = Some (mt_conn kConnected)" "tc_closeCallback (mt_conn kConnected) = Some 7"
    and sv: "w_servers mt_connected 7 = Some ?sv" "sv_loop ?sv = 1"
    by (simp_all add: mt_client_def mt_conn_def sc_conn_def mt_running_def sc_server_def)
  obtain w1 where w1: "handleClose mt_env 20 mt_connected = Inr w1" using threaded_close_returns by blast
  have "\<not> isInLoopThread (e_tid mt_env) (loop_at 1 w1)"
    using threaded_close_thread [OF w1] by (simp add: mt_env_def)
  then show ?thesis
    using close_cleans_up [OF k care ok c sv(1)] w1 unfolding w1 sum.case sv(2) by (auto simp: sc_env_def)
qed

end
