(* ===== verification/Spec2Isabelle.thy ===== *)
theory Spec2Isabelle
  imports LoopProtocol LifetimeProps EventLoopThread Closing
begin

text \<open>
  A verification of the reactor network library in \<open>src/\<close> and of the echo server in
  \<open>src/example/testserver.cc\<close>.

  \<^bold>\<open>The program.\<close> A \<open>TcpServer\<close> owns an \<open>Acceptor\<close> (listening socket and its \<open>Channel\<close>) on the loop it is given, and
  an \<open>EventLoopThreadPool\<close> of further loops, each in a thread of its own (\<open>EventLoopThread\<close>, \<open>Thread\<close>). An
  \<open>EventLoop\<close> polls its \<open>EPollPoller\<close>, calls \<open>handleEvent\<close> of every channel reported, and then runs the functors that
  were queued for it; other threads reach a loop by queueing a functor and writing to its \<open>eventfd\<close>. An accepted
  descriptor becomes a \<open>TcpConnection\<close> on a loop chosen round robin, with an input and an output \<open>Buffer\<close>; when
  it closes, the server forgets it and a last functor on its own loop takes it out of the poller and frees it.

  \<^bold>\<open>What models what.\<close>
  \<^item> \<open>Prelude\<close>, \<open>Format\<close>, \<open>Posix\<close>: machine types, faults as values (failed assertions, \<open>LOG_FATAL\<close>,
    exceptions, undefined behaviour), sequencing; \<open>snprintf\<close>; the system calls as a record of functions.
  \<^item> \<open>Buffer\<close> (\<open>Buffer.h\<close>, \<open>Buffer.cc\<close>): the byte vector on 64-bit indexes. Its lemmas give the
    effect of every operation on the readable bytes, and the locale \<open>byte_queue\<close> makes any run of them a first-in
    first-out stream.
  \<^item> \<open>Channel\<close>, \<open>EPollPoller\<close> (\<open>Channel\<close>, \<open>Poller\<close>, \<open>EPollPoller\<close>, \<open>DefaultPoller\<close>): event masks, dispatch, registration and
    polling. The locale \<open>channel_registry\<close> carries an invariant of one channel to all channels of a poller; its
    instance says that index, channel map and kernel interest list agree.
  \<^item> \<open>Callbacks\<close>, \<open>EventLoop\<close>, \<open>LoopProtocol\<close> (\<open>Callbacks.h\<close>, \<open>EventLoop.cc\<close>): bound functions as data, the loop's
    fields and operations, and the interleaving of the loop's thread with others. The locale \<open>contract\<close> of
    \<open>EventLoop\<close> composes operations that keep an invariant and a preorder.
  \<^item> \<open>InetAddress\<close>, \<open>Socket\<close>, \<open>EventLoopThreadPool\<close>: addresses and their text, the descriptor with what the
    kernel keeps for it, the pool.
  \<^item> \<open>Threads\<close>, \<open>EventLoopThread\<close> (\<open>CurrentThread\<close>, \<open>Thread\<close>, \<open>EventLoopThread\<close>): the thread object, and start and end of a
    loop's thread as a step relation of two threads over a mutex, a condition variable and a semaphore. The \<open>quit\<close> of the
    destructor is one step per access to the loop (\<open>quit_\<close>, \<open>threadId_\<close>, \<open>wakeupFd_\<close>). The thread object is taken
    through every sequence of starts and joins (\<open>thread_run\<close>).
  \<^item> \<open>Timestamp\<close>, \<open>Logger\<close>: time stamps and their texts, with the Gregorian calendar of \<open>gmtime_r\<close>; the logger and
    its macros.
  \<^item> \<open>World\<close>, \<open>TcpConnection\<close>, \<open>TcpServer\<close>: all objects in one store, found by address; every member
    function of connection, acceptor and server as an operation on it; \<open>exec\<close>, \<open>run_callback\<close> and \<open>dispatch\<close> tie functors and
    channel callbacks to the member functions bound in them. A \<open>std::function\<close> that may be empty is an option; the two
    user callbacks of a server may be, and the connection's own \<open>setConnectionCallback\<close> and \<open>setMessageCallback\<close> are
    called where the code calls them, in \<open>newConnection\<close>.
  \<^item> \<open>ConnectionRuns\<close>, \<open>ConnectionSafety\<close>, \<open>ServerSafety\<close>, \<open>Reactor\<close>, \<open>Startup\<close>: the invariant
    \<open>world_ok\<close> (every loop's poller agrees with its channels, buffers are well formed, a connection is watched for
    writing exactly when bytes wait, no two connections share a channel) and the order \<open>world_le\<close> (a
    connection never moves back, and its stream only grows), kept by every operation and every user function
    built from the public interface. The locale \<open>starting\<close> carries any stronger invariant through the start of a server.
  \<^item> \<open>Ownership\<close>, \<open>Objects\<close>, \<open>Lifetime\<close>, \<open>ServerLife\<close>: who holds what. \<open>owned\<close> says which connections a \<open>shared_ptr\<close> in a server's
    table or in a functor keeps alive; \<open>objects_ok\<close>, that callbacks, acceptors and servers, which hold raw pointers, lead to
    live objects, that a connection with a close callback has the callbacks of its server and that a server's pool has a loop to hand out; \<open>own_ok\<close>, that tables and functors find their connections, that names differ, and that a disconnected
    connection on which no \<open>connectDestroyed\<close> is due has left its poller. \<open>fine\<close> is all of it; operations that begin
    and end no life (\<open>calm\<close>) keep it for one reason, the others have a lemma each.
  \<^item> \<open>Program\<close>, \<open>LoopRuns\<close>: the step relation \<open>program_step\<close> of the whole program, with the vector of functors of every
    loop that is inside \<open>doPendingFunctors\<close>; its invariant \<open>program_ok\<close>; and the functions that take many steps at once
    (\<open>doPendingFunctors\<close>, \<open>EventLoop::loop\<close>, \<open>~TcpServer\<close>) as runs of it. A run of \<open>EventLoop::loop\<close> is the trace of its
    rounds (\<open>act\<close>, \<open>rounds\<close>): which channels are handled and which functors are taken and run, in which order.
  \<^item> \<open>ConnectionProps\<close>, \<open>ServerProps\<close>, \<open>LifetimeProps\<close>: the end-to-end properties. \<open>Scenario\<close>, \<open>Threaded\<close>: two concrete
    runs as their inputs, a server on one loop and one with an I/O thread that is taken down. \<open>EchoServer\<close>: the
    example program, whose \<open>main\<close> is one of the runs. \<open>closing_run\<close> takes a connection that is shutting down through any
    sequence of write events and queued shutdowns; \<open>Closing\<close> takes one from the event that closes it to its
    destructor, on any threads and with any connection callback.
  \<^item> \<open>Refusals\<close>, \<open>Faults\<close>: the other half of the operations' results. The invariants above say what holds when an
    operation returns; the lemmas of \<open>Faults\<close> bound, handler by handler, the faults it can end with (\<open>fails_only\<close>), and
    \<open>event_fault\<close> and \<open>functor_fault\<close> list what is left for the events and functors of any reachable state, empty
    callbacks among it. \<open>Refusals\<close> adds kernels whose \<open>epoll_ctl\<close> may fail with \<open>ENOMEM\<close> or \<open>ENOSPC\<close>
    (\<open>refusing_kernel\<close>, of which \<open>kernel\<close> is a special case): an operation on such a kernel ends in the \<open>LOG_FATAL\<close> of
    \<open>EPollPoller::update\<close> or does what it does on one that never refuses (\<open>short_of\<close>), so all that is proved of
    operations that return on a \<open>kernel\<close> holds for them.

  \<^bold>\<open>Hypotheses.\<close> \<open>posix_io\<close>, \<open>epoll_kernel\<close> and \<open>eventfd_kernel\<close> (together \<open>kernel\<close>) state the manual pages of the system calls
  and are interpreted on the system \<open>os_with\<close>. Within one handler the answers of the system are functions of the
  call's arguments; from step to step of a run they may change arbitrarily. \<open>fresh_conn\<close>, \<open>fresh_threads\<close> and the
  premises of the step \<open>new_server\<close> say that the allocator, \<open>accept\<close> and the creation of descriptors return what is not
  in use, and that a new server does not come to lie where a living connection expects an old one. A connection is
  destroyed in a step of its own, at any time when no table and no functor holds it; a \<open>shared_ptr\<close> that user code
  has kept only makes that later. A server's members go when its table is empty, and a loop when nothing is left on it (\<open>left_alone\<close>);
  what happens when the code does not wait for that is \<open>server_destructor_races\<close>. User code is an arbitrary function from
  what it is called with to calls of the public interface; where a property says which faults there are, it is \<open>careful\<close>:
  its own calls fail for want of memory only, as those of the echo server do. Where it is called on a \<open>refusing_kernel\<close>,
  the premise \<open>careful (settled env)\<close> says so of the same user code on the kernel that never refuses.

  \<^bold>\<open>Bounds.\<close> \<open>size_t\<close> is a 64-bit word, \<open>int\<close> a 32-bit word where its arithmetic matters; \<open>vector_max\<close> is
  \<open>2^63 - 1\<close>, beyond which \<open>resize\<close> throws. \<open>EventLoop::loop\<close> runs as long as nobody quits it: the model gives it one
  system per iteration, and its value is \<open>None\<close> when the list ends before the flag is set, so the list is its fuel
  and the environment's answers at once; the properties of the running loop are stated on the steps of \<open>LoopProtocol\<close>
  and \<open>Program\<close>, which have no bound. The rank of \<open>startLoop_terminates\<close> bounds the steps of the two threads by 170.

  \<^bold>\<open>Not modelled.\<close> The log calls inside the operations (only \<open>LOG_FATAL\<close>, as the fault \<open>FatalExit\<close>); \<open>strerror_tl\<close>, which only
  calls \<open>strerror_r\<close>; \<open>copyable.h\<close> and \<open>noncopyable.h\<close>, empty base classes; accessors that return a field, which are
  the selectors of the records; \<open>main.cc\<close>, which is a comment; the \<open>shared_ptr\<close>s of user code, other than as above; and
  data races on fields that the code shares without a
  lock, other than those that the step relations of \<open>LoopProtocol\<close>, \<open>EventLoopThread\<close> and \<open>Logger\<close> split.
\<close>

end
